(* ===== verification/Prelude.thy ===== *)
theory Prelude
  imports Main "HOL-Library.Word" "HOL-Library.Multiset"
begin

section \<open>Prelude: C strings, numbers and flags\<close>

text \<open>
  What the components share. A C string (\<open>char *\<close>, terminated by a zero byte) is a
  \<^typ>\<open>string\<close> without its terminator; \<open>cstring\<close> says that no zero byte occurs inside.
  Reads through a pointer that may run past the terminator go through \<open>rd\<close>, whose
  \<^const>\<open>None\<close> is the out-of-bounds read that C leaves undefined. The numeric readers
  of the C library (\<open>atoi\<close>, \<open>atol\<close>, \<open>strtol\<close>) follow the GNU library where the C
  standard leaves the overflow open: \<open>strtol\<close> saturates at 64 bits and \<open>atoi\<close> keeps the
  low 32 bits. Flag words are \<^typ>\<open>32 word\<close>.
\<close>

unbundle bit_operations_syntax

named_theorems cstr_simps \<open>facts on C strings used by the component proofs\<close>
named_theorems flag_simps \<open>facts on flag words\<close>

type_synonym u32 = "32 word"
type_synonym parv = "string list"

subsection \<open>Strings\<close>

abbreviation NUL :: char where
  "NUL \<equiv> CHR 0x00"

abbreviation BUFSIZE :: nat where
  "BUFSIZE \<equiv> 512"

definition cstring :: "string \<Rightarrow> bool" where
  "cstring s \<longleftrightarrow> NUL \<notin> set s"

definition rd :: "string \<Rightarrow> nat \<Rightarrow> char option" where
  "rd s i = (if i < length s then Some (s ! i) else if i = length s then Some NUL else None)"

definition EmptyString :: "string \<Rightarrow> bool" where
  "EmptyString s \<longleftrightarrow> s = []"

text \<open>\<open>parv[i]\<close>: a parameter that was not sent reads as the empty string, which every
  handler tests for with \<open>EmptyString\<close>.\<close>

definition arg :: "parv \<Rightarrow> nat \<Rightarrow> string" where
  "arg ps i = (if i < length ps then ps ! i else [])"

definition isspace :: "char \<Rightarrow> bool" where
  "isspace c \<longleftrightarrow> c = CHR '' '' \<or> (9 \<le> (of_char c :: nat) \<and> (of_char c :: nat) \<le> 13)"

definition isdigit :: "char \<Rightarrow> bool" where
  "isdigit c \<longleftrightarrow> 48 \<le> (of_char c :: nat) \<and> (of_char c :: nat) \<le> 57"

definition digit_val :: "char \<Rightarrow> nat" where
  "digit_val c = of_char c - 48"

fun digits_val :: "nat \<Rightarrow> string \<Rightarrow> nat" where
  "digits_val acc [] = acc"
| "digits_val acc (c # cs) = (if isdigit c then digits_val (10 * acc + digit_val c) cs else acc)"

subsection \<open>Reading numbers\<close>

definition clamp64 :: "int \<Rightarrow> int" where
  "clamp64 v = max (- (2 ^ 63)) (min (2 ^ 63 - 1) v)"

definition strtol :: "string \<Rightarrow> int" where
  "strtol s =
     (let t = dropWhile isspace s in
      case t of
        [] \<Rightarrow> 0
      | c # cs \<Rightarrow>
          if c = CHR ''-'' then clamp64 (- int (digits_val 0 cs))
          else if c = CHR ''+'' then clamp64 (int (digits_val 0 cs))
          else clamp64 (int (digits_val 0 t)))"

text \<open>The rest of the string after the number, \<open>*endptr\<close>; the whole string when it holds
  no digits.\<close>

definition strtol_rest :: "string \<Rightarrow> string" where
  "strtol_rest s =
     (let t = dropWhile isspace s;
          u = (case t of [] \<Rightarrow> [] | c # cs \<Rightarrow> if c = CHR ''-'' \<or> c = CHR ''+'' then cs else t)
      in if u = [] \<or> \<not> isdigit (hd u) then s else dropWhile isdigit u)"

definition atol :: "string \<Rightarrow> int" where
  "atol s = strtol s"

definition atoi :: "string \<Rightarrow> int" where
  "atoi s = signed_take_bit 31 (strtol s)"

subsection \<open>Printing numbers\<close>

fun nat_to_dec :: "nat \<Rightarrow> string" where
  "nat_to_dec n =
     (if n < 10 then [char_of (48 + n)] else nat_to_dec (n div 10) @ [char_of (48 + n mod 10)])"

declare nat_to_dec.simps [simp del]

text \<open>\<open>%d\<close>\<close>

definition int_to_dec :: "int \<Rightarrow> string" where
  "int_to_dec i = (if i < 0 then CHR ''-'' # nat_to_dec (nat (- i)) else nat_to_dec (nat i))"

subsection \<open>Lemmas on strings\<close>

lemma rd_less [simp]: "i < length s \<Longrightarrow> rd s i = Some (s ! i)"
  by (simp add: rd_def)

lemma rd_end [simp]: "rd s (length s) = Some NUL"
  by (simp add: rd_def)

lemma rd_None_iff [simp]: "rd s i = None \<longleftrightarrow> length s < i"
  by (auto simp: rd_def)

lemma rd_NUL_iff: "cstring s \<Longrightarrow> rd s i = Some NUL \<longleftrightarrow> i = length s"
  by (auto simp: rd_def cstring_def split: if_splits dest: nth_mem)

lemma cstring_nth [cstr_simps]: "cstring s \<Longrightarrow> i < length s \<Longrightarrow> s ! i \<noteq> NUL"
  by (auto simp: cstring_def dest: nth_mem)

lemma cstring_Nil [simp]: "cstring []"
  by (simp add: cstring_def)

lemma cstring_Cons [simp]: "cstring (c # s) \<longleftrightarrow> c \<noteq> NUL \<and> cstring s"
  by (auto simp: cstring_def)

lemma cstring_append [simp]: "cstring (s @ t) \<longleftrightarrow> cstring s \<and> cstring t"
  by (auto simp: cstring_def)

lemma of_char_less [simp]: "(of_char (c :: char) :: nat) < 256"
  by (rule nat_of_char_less_256)

lemma of_char_eq_0 [simp]: "(of_char c :: nat) = 0 \<longleftrightarrow> c = NUL"
proof -
  have "(of_char c :: nat) = of_char NUL \<longleftrightarrow> c = NUL"
    by (rule of_char_eq_iff)
  then show ?thesis by simp
qed

subsection \<open>Lemmas on numbers\<close>

lemma isdigit_char_of [simp]: "(n::nat) < 10 \<Longrightarrow> isdigit (char_of (48 + n))"
  by (simp add: isdigit_def)

lemma digit_val_char_of [simp]: "(n::nat) < 10 \<Longrightarrow> digit_val (char_of (48 + n)) = n"
  by (simp add: digit_val_def)

lemma set_nat_to_dec: "c \<in> set (nat_to_dec n) \<Longrightarrow> isdigit c"
  by (induction n rule: nat_to_dec.induct) (subst (asm) (2) nat_to_dec.simps, auto split: if_splits)

lemma nat_to_dec_not_Nil [simp]: "nat_to_dec n \<noteq> []"
  by (subst nat_to_dec.simps) simp

lemma digits_val_append:
  "\<forall>c \<in> set s. isdigit c \<Longrightarrow> digits_val acc (s @ t) = digits_val (digits_val acc s) t"
  by (induction s arbitrary: acc) auto

lemma digits_val_nat_to_dec: "digits_val 0 (nat_to_dec n) = n"
proof (induction n rule: nat_to_dec.induct)
  case (1 n)
  show ?case
  proof (cases "n < 10")
    case True
    then show ?thesis by (subst nat_to_dec.simps) simp
  next
    case False
    with "1.IH" show ?thesis
      by (subst nat_to_dec.simps) (simp add: digits_val_append set_nat_to_dec)
  qed
qed

lemma not_isdigit [simp]:
  "\<not> isdigit CHR '' ''" "\<not> isdigit CHR ''-''" "\<not> isdigit CHR ''+''" "\<not> isdigit CHR '':''"
  "\<not> isdigit CHR ''/''" "\<not> isdigit CHR ''@''" "\<not> isdigit CHR ''.''"
  by (simp_all add: isdigit_def)

lemma isdigit_not_isspace: "isdigit c \<Longrightarrow> \<not> isspace c"
  by (auto simp: isdigit_def isspace_def)

lemma strtol_nat_to_dec: "n < 2 ^ 63 \<Longrightarrow> strtol (nat_to_dec n) = int n"
proof -
  assume n: "n < 2 ^ 63"
  obtain c cs where c: "nat_to_dec n = c # cs" by (meson neq_Nil_conv nat_to_dec_not_Nil)
  have d: "isdigit c" using set_nat_to_dec [of c n] c by simp
  then have "\<not> isspace c" "c \<noteq> CHR ''-''" "c \<noteq> CHR ''+''" by (auto simp: isdigit_not_isspace)
  moreover have "digits_val 0 (c # cs) = n" using digits_val_nat_to_dec [of n] c by simp
  ultimately show ?thesis using n by (simp add: strtol_def c clamp64_def del: digits_val.simps)
qed

lemma atoi_nat_to_dec: "n < 2 ^ 31 \<Longrightarrow> atoi (nat_to_dec n) = int n"
  by (simp add: atoi_def strtol_nat_to_dec signed_take_bit_int_eq_self)

lemma atoi_bounds: "- (2 ^ 31) \<le> atoi s" "atoi s < 2 ^ 31"
  unfolding atoi_def using signed_take_bit_int_greater_eq_minus_exp [of 31] signed_take_bit_int_less_exp [of 31]
  by auto

lemma length_nat_to_dec_3: "n \<le> 255 \<Longrightarrow> length (nat_to_dec n) \<le> 3"
  by (subst nat_to_dec.simps, subst nat_to_dec.simps, subst nat_to_dec.simps) auto

subsection \<open>Total correctness of partial operations\<close>

text \<open>\<open>runs r Q\<close>: the operation returns, and its result satisfies \<open>Q\<close>. The equations make a goal about
  a composed operation one about its steps.\<close>

definition runs :: "'a option \<Rightarrow> ('a \<Rightarrow> bool) \<Rightarrow> bool" where
  "runs r Q \<longleftrightarrow> (\<exists>x. r = Some x \<and> Q x)"

lemma runs_Some [simp]: "runs (Some x) Q \<longleftrightarrow> Q x"
  by (simp add: runs_def)

lemma runs_None [simp]: "\<not> runs None Q"
  by (simp add: runs_def)

lemma runs_bind [simp]: "runs (Option.bind r f) Q \<longleftrightarrow> runs r (\<lambda>x. runs (f x) Q)"
  by (auto simp: runs_def bind_eq_Some_conv)

lemma runs_map [simp]: "runs (map_option f r) Q \<longleftrightarrow> runs r (\<lambda>x. Q (f x))"
  by (auto simp: runs_def)

lemma runs_if [simp]: "runs (if b then r else r') Q \<longleftrightarrow> (if b then runs r Q else runs r' Q)"
  by simp

lemma runs_case_option [simp]:
  "runs (case x of None \<Rightarrow> r | Some y \<Rightarrow> f y) Q \<longleftrightarrow> (case x of None \<Rightarrow> runs r Q | Some y \<Rightarrow> runs (f y) Q)"
  by (cases x) auto

lemma runs_mono: "runs r P \<Longrightarrow> (\<And>x. P x \<Longrightarrow> Q x) \<Longrightarrow> runs r Q"
  by (auto simp: runs_def)

lemma runs_seq: "runs r P \<Longrightarrow> (\<And>x. P x \<Longrightarrow> runs (f x) Q) \<Longrightarrow> runs (Option.bind r f) Q"
  by (auto simp: runs_def)

lemma runs_conj: "runs r P \<Longrightarrow> runs r Q \<Longrightarrow> runs r (\<lambda>x. P x \<and> Q x)"
  by (auto simp: runs_def)

end
