(* ===== verification/Match.thy ===== *)
theory Match
  imports Prelude
begin

section \<open>Match: wildcard matching and IRC case folding (src/match.c)\<close>

text \<open>
  The case tables \<open>ToLowerTab\<close>, \<open>ToUpperTab\<close>, the character classes \<open>CharAttrs\<close>, the
  wildcard matcher \<open>match\<close>, \<open>collapse\<close> and the case-insensitive comparisons.
  The pointers of \<open>match\<close> are indices into the two strings; a read past a terminator would
  be \<^const>\<open>None\<close>. The loop keeps the source's bound of \<open>MATCH_MAX_CALLS\<close> iterations.
\<close>

subsection \<open>Tables\<close>

text \<open>
  The lower case table maps the thirty codes of \<open>A\<close> to \<open>Z\<close>, \<open>[\<close>, \<open>\\<close>, \<open>]\<close> and \<open>^\<close>
  to \<open>a\<close> to \<open>z\<close>, \<open>{\<close>, \<open>|\<close>, \<open>}\<close> and \<open>~\<close>, every other code to itself; the upper case
  table is the converse.
\<close>

definition ToLowerTab :: "nat list" where
  "ToLowerTab = [0..<65] @ [97..<127] @ [95..<256]"

definition ToUpperTab :: "nat list" where
  "ToUpperTab = [0..<97] @ [65..<95] @ [127..<256]"

definition ToLower :: "char \<Rightarrow> char" where
  "ToLower c = char_of (ToLowerTab ! of_char c)"

definition ToUpper :: "char \<Rightarrow> char" where
  "ToUpper c = char_of (ToUpperTab ! of_char c)"

abbreviation PRINT_C :: u32 where "PRINT_C \<equiv> 0x001"
abbreviation CNTRL_C :: u32 where "CNTRL_C \<equiv> 0x002"
abbreviation ALPHA_C :: u32 where "ALPHA_C \<equiv> 0x004"
abbreviation LETTER_C :: u32 where "LETTER_C \<equiv> 0x008"
abbreviation DIGIT_C :: u32 where "DIGIT_C \<equiv> 0x010"
abbreviation SPACE_C :: u32 where "SPACE_C \<equiv> 0x020"
abbreviation NICK_C :: u32 where "NICK_C \<equiv> 0x040"
abbreviation SERV_C :: u32 where "SERV_C \<equiv> 0x080"
abbreviation CHAN_C :: u32 where "CHAN_C \<equiv> 0x100"
abbreviation CHANPFX_C :: u32 where "CHANPFX_C \<equiv> 0x200"
abbreviation BAN_C :: u32 where "BAN_C \<equiv> 0x400"
abbreviation NONEOS_C :: u32 where "NONEOS_C \<equiv> 0x1000"
abbreviation EOL_C :: u32 where "EOL_C \<equiv> 0x4000"

text \<open>\<open>CharAttrs[]\<close> for the codes 0 to 47, 48 to 93, and 94 to 255.\<close>

definition CharAttrs_low :: "u32 list" where
  "CharAttrs_low =
     [CNTRL_C] @ replicate 6 (CNTRL_C OR CHAN_C OR NONEOS_C) @
     [CNTRL_C OR NONEOS_C,
      CNTRL_C OR CHAN_C OR NONEOS_C,
      CNTRL_C OR SPACE_C OR CHAN_C OR NONEOS_C,
      CNTRL_C OR SPACE_C OR CHAN_C OR NONEOS_C OR EOL_C,
      CNTRL_C OR SPACE_C OR CHAN_C OR NONEOS_C,
      CNTRL_C OR SPACE_C OR CHAN_C OR NONEOS_C,
      CNTRL_C OR SPACE_C OR CHAN_C OR NONEOS_C OR EOL_C] @
     replicate 18 (CNTRL_C OR CHAN_C OR NONEOS_C) @
     [PRINT_C OR SPACE_C,
      PRINT_C OR CHAN_C OR BAN_C OR NONEOS_C,
      PRINT_C OR CHAN_C OR NONEOS_C,
      PRINT_C OR CHANPFX_C OR CHAN_C OR NONEOS_C,
      PRINT_C OR CHAN_C OR NONEOS_C,
      PRINT_C OR CHAN_C OR NONEOS_C,
      PRINT_C OR CHANPFX_C OR CHAN_C OR NONEOS_C,
      PRINT_C OR CHAN_C OR NONEOS_C,
      PRINT_C OR CHAN_C OR NONEOS_C,
      PRINT_C OR CHAN_C OR NONEOS_C,
      PRINT_C OR CHAN_C OR BAN_C OR NONEOS_C OR SERV_C,
      PRINT_C OR CHAN_C OR NONEOS_C,
      PRINT_C OR NONEOS_C,
      PRINT_C OR NICK_C OR CHAN_C OR BAN_C OR NONEOS_C,
      PRINT_C OR CHAN_C OR BAN_C OR NONEOS_C OR SERV_C,
      PRINT_C OR CHAN_C OR BAN_C OR NONEOS_C]"

definition CharAttrs_mid :: "u32 list" where
  "CharAttrs_mid =
     replicate 10 (PRINT_C OR DIGIT_C OR NICK_C OR CHAN_C OR BAN_C OR NONEOS_C) @
     [PRINT_C OR CHAN_C OR BAN_C OR NONEOS_C] @
     replicate 4 (PRINT_C OR CHAN_C OR NONEOS_C) @
     replicate 2 (PRINT_C OR CHAN_C OR BAN_C OR NONEOS_C) @
     replicate 26 (PRINT_C OR ALPHA_C OR LETTER_C OR NICK_C OR CHAN_C OR BAN_C OR NONEOS_C) @
     replicate 3 (PRINT_C OR ALPHA_C OR NICK_C OR CHAN_C OR BAN_C OR NONEOS_C)"

definition CharAttrs_high :: "u32 list" where
  "CharAttrs_high =
     [PRINT_C OR ALPHA_C OR NICK_C OR CHAN_C OR BAN_C OR NONEOS_C] @
     replicate 2 (PRINT_C OR NICK_C OR CHAN_C OR BAN_C OR NONEOS_C) @
     replicate 26 (PRINT_C OR ALPHA_C OR LETTER_C OR NICK_C OR CHAN_C OR BAN_C OR NONEOS_C) @
     replicate 3 (PRINT_C OR ALPHA_C OR NICK_C OR CHAN_C OR BAN_C OR NONEOS_C) @
     [PRINT_C OR ALPHA_C OR CHAN_C OR BAN_C OR NONEOS_C] @
     replicate 129 (CHAN_C OR NONEOS_C)"

definition CharAttrs :: "u32 list" where
  "CharAttrs = CharAttrs_low @ CharAttrs_mid @ CharAttrs_high"

definition has_attr :: "u32 \<Rightarrow> char \<Rightarrow> bool" where
  "has_attr a c \<longleftrightarrow> CharAttrs ! of_char c AND a \<noteq> 0"

abbreviation IsDigit :: "char \<Rightarrow> bool" where "IsDigit \<equiv> has_attr DIGIT_C"
abbreviation IsAlpha :: "char \<Rightarrow> bool" where "IsAlpha \<equiv> has_attr ALPHA_C"
abbreviation IsNickChar :: "char \<Rightarrow> bool" where "IsNickChar \<equiv> has_attr NICK_C"
abbreviation IsServChar :: "char \<Rightarrow> bool" where "IsServChar \<equiv> has_attr (NICK_C OR SERV_C)"
abbreviation IsBanChar :: "char \<Rightarrow> bool" where "IsBanChar \<equiv> has_attr BAN_C"
abbreviation IsChanPrefix :: "char \<Rightarrow> bool" where "IsChanPrefix \<equiv> has_attr CHANPFX_C"
abbreviation IsLetter :: "char \<Rightarrow> bool" where "IsLetter \<equiv> has_attr LETTER_C"
abbreviation IsAlNum :: "char \<Rightarrow> bool" where "IsAlNum \<equiv> has_attr (DIGIT_C OR ALPHA_C)"

subsection \<open>The matcher\<close>

abbreviation MATCH_MAX_CALLS :: nat where
  "MATCH_MAX_CALLS \<equiv> 512"

text \<open>The local variables \<open>m\<close>, \<open>n\<close>, \<open>ma\<close>, \<open>na\<close> (as indices) and \<open>wild\<close>.\<close>

record mstate =
  mi :: nat
  ni :: nat
  mai :: nat
  nai :: nat
  wild :: bool

text \<open>\<open>while (*m == '*') m++;\<close>\<close>

function skip_star :: "string \<Rightarrow> nat \<Rightarrow> nat" where
  "skip_star s m = (if m < length s \<and> s ! m = CHR ''*'' then skip_star s (Suc m) else m)"
  by pat_completeness auto
termination
  by (relation "measure (\<lambda>(s, m). length s - m)") auto

declare skip_star.simps [simp del]

text \<open>\<open>for (m--; (m > mask) && (*m == '?'); m--) ;\<close>, from the index after the decrement.\<close>

fun back_q :: "string \<Rightarrow> nat \<Rightarrow> nat" where
  "back_q s 0 = 0"
| "back_q s (Suc m) = (if s ! Suc m = CHR ''?'' then back_q s m else Suc m)"

text \<open>The comparison at the end of the loop body: \<^const>\<open>Inl\<close> returns, \<^const>\<open>Inr\<close> loops.\<close>

definition match_cmp :: "string \<Rightarrow> string \<Rightarrow> mstate \<Rightarrow> bool option + mstate" where
  "match_cmp msk name st =
     (case rd msk (mi st) of None \<Rightarrow> Inl None | Some cm \<Rightarrow>
      case rd name (ni st) of None \<Rightarrow> Inl None | Some cn \<Rightarrow>
        if ToLower cm \<noteq> ToLower cn \<and> cm \<noteq> CHR ''?'' then
          if \<not> wild st then Inl (Some False)
          else Inr (st\<lparr>mi := mai st, ni := Suc (nai st), nai := Suc (nai st)\<rparr>)
        else
          Inr (st\<lparr>mi := (if cm \<noteq> NUL then Suc (mi st) else mi st),
                  ni := (if cn \<noteq> NUL then Suc (ni st) else ni st)\<rparr>))"

definition match_star :: "string \<Rightarrow> mstate \<Rightarrow> mstate" where
  "match_star msk st =
     (if rd msk (mi st) = Some CHR ''*'' then
        let m = skip_star msk (mi st) in st\<lparr>mi := m, mai := m, nai := ni st, wild := True\<rparr>
      else st)"

definition match_rest :: "string \<Rightarrow> string \<Rightarrow> mstate \<Rightarrow> bool option + mstate" where
  "match_rest msk name st =
     (case rd msk (mi st) of None \<Rightarrow> Inl None | Some cm \<Rightarrow>
      case rd name (ni st) of None \<Rightarrow> Inl None | Some cn \<Rightarrow>
        if cm = NUL then
          if cn = NUL then Inl (Some True)
          else
            let j = back_q msk (mi st - 1) in
            if rd msk j = Some CHR ''*'' \<and> 0 < j then Inl (Some True)
            else if \<not> wild st then Inl (Some False)
            else match_cmp msk name (st\<lparr>mi := mai st, ni := Suc (nai st), nai := Suc (nai st)\<rparr>)
        else if cn = NUL then
          Inl (Some (rd msk (skip_star msk (mi st)) = Some NUL))
        else match_cmp msk name st)"

definition match_body :: "string \<Rightarrow> string \<Rightarrow> mstate \<Rightarrow> bool option + mstate" where
  "match_body msk name st = match_rest msk name (match_star msk st)"

fun match_loop :: "nat \<Rightarrow> string \<Rightarrow> string \<Rightarrow> mstate \<Rightarrow> bool option" where
  "match_loop 0 msk name st = Some False"
| "match_loop (Suc calls) msk name st =
     (case match_body msk name st of
        Inl r \<Rightarrow> r
      | Inr st' \<Rightarrow> match_loop calls msk name st')"

definition match_init :: mstate where
  "match_init = \<lparr>mi = 0, ni = 0, mai = 0, nai = 0, wild = False\<rparr>"

definition match_chk :: "string \<Rightarrow> string \<Rightarrow> bool option" where
  "match_chk msk name =
     (if EmptyString msk \<or> EmptyString name then Some False
      else match_loop MATCH_MAX_CALLS msk name match_init)"

text \<open>\<open>match\<close> as its callers see it: the truth value of the \<open>int\<close> it returns.\<close>

definition match :: "string \<Rightarrow> string \<Rightarrow> bool" where
  "match msk name = (match_chk msk name = Some True)"

subsection \<open>Collapsing and comparing\<close>

text \<open>\<open>f\<close> is the flag that the previous character was a star.\<close>

fun collapse_loop :: "bool \<Rightarrow> string \<Rightarrow> string" where
  "collapse_loop f [] = []"
| "collapse_loop f (c # p) =
     (if c = CHR ''*'' then (if f then collapse_loop True p else CHR ''*'' # collapse_loop True p)
      else c # collapse_loop False p)"

definition collapse :: "string \<Rightarrow> string" where
  "collapse p = collapse_loop False p"

definition upper_code :: "char \<Rightarrow> int" where
  "upper_code c = of_char (ToUpper c)"

fun irccmp :: "string \<Rightarrow> string \<Rightarrow> int" where
  "irccmp [] [] = 0"
| "irccmp [] (d # t) = upper_code NUL - upper_code d"
| "irccmp (c # s) [] = upper_code c - upper_code NUL"
| "irccmp (c # s) (d # t) =
     (if upper_code c - upper_code d = 0 then irccmp s t else upper_code c - upper_code d)"

subsection \<open>The meaning of a mask\<close>

text \<open>
  The reference semantics of a mask: a star stands for any run of characters, a question
  mark for any one character, every other character for itself up to case.
\<close>

definition char_match :: "char \<Rightarrow> char \<Rightarrow> bool" where
  "char_match c d \<longleftrightarrow> c = CHR ''?'' \<or> ToLower c = ToLower d"

fun glob :: "string \<Rightarrow> string \<Rightarrow> bool" where
  "glob [] ns = (ns = [])"
| "glob (c # ms) ns =
     (if c = CHR ''*'' then (\<exists>k \<le> length ns. glob ms (drop k ns))
      else (case ns of [] \<Rightarrow> False | d # ns' \<Rightarrow> char_match c d \<and> glob ms ns'))"

fun no_star_pair :: "string \<Rightarrow> bool" where
  "no_star_pair (c # d # s) \<longleftrightarrow> \<not> (c = CHR ''*'' \<and> d = CHR ''*'') \<and> no_star_pair (d # s)"
| "no_star_pair s \<longleftrightarrow> True"

text \<open>Suffix positions: \<open>tail_glob i k\<close> says the mask from \<open>i\<close> on matches the name from \<open>k\<close> on.\<close>

definition tail_glob :: "string \<Rightarrow> string \<Rightarrow> nat \<Rightarrow> nat \<Rightarrow> bool" where
  "tail_glob msk name i k \<longleftrightarrow> glob (drop i msk) (drop k name)"

subsection \<open>The loop invariant\<close>

text \<open>
  The characters between \<open>ma\<close> and \<open>m\<close> hold no star and match the characters between
  \<open>na\<close> and \<open>n\<close>; and whether the mask matches the name is decided by what is left: the
  tails from \<open>m\<close> and \<open>n\<close> before a star was seen, the tail from \<open>ma\<close> at some place from
  \<open>na\<close> on afterwards.
\<close>

definition seg_ok :: "string \<Rightarrow> string \<Rightarrow> nat \<Rightarrow> nat \<Rightarrow> nat \<Rightarrow> bool" where
  "seg_ok msk name a b k \<longleftrightarrow>
     (\<forall>x. a \<le> x \<and> x < b \<longrightarrow> msk ! x \<noteq> CHR ''*'' \<and> k + (x - a) < length name \<and>
        char_match (msk ! x) (name ! (k + (x - a))))"

definition star_free :: "string \<Rightarrow> nat \<Rightarrow> nat \<Rightarrow> bool" where
  "star_free msk a b \<longleftrightarrow> (\<forall>x. a \<le> x \<and> x < b \<longrightarrow> msk ! x \<noteq> CHR ''*'')"

definition match_inv :: "string \<Rightarrow> string \<Rightarrow> mstate \<Rightarrow> bool" where
  "match_inv msk name st \<longleftrightarrow>
     mi st \<le> length msk \<and> ni st \<le> length name \<and> mai st \<le> mi st \<and> nai st \<le> ni st \<and>
     mi st - mai st = ni st - nai st \<and>
     seg_ok msk name (mai st) (mi st) (nai st) \<and>
     (if wild st then
        (mai st < length msk \<longrightarrow> msk ! mai st \<noteq> CHR ''*'') \<and>
        (\<exists>k \<ge> nai st. k \<le> length name \<and> tail_glob msk name (mai st) k) = glob msk name
      else mai st = 0 \<and> tail_glob msk name (mi st) (ni st) = glob msk name)"

definition match_measure :: "string \<Rightarrow> string \<Rightarrow> mstate \<Rightarrow> nat" where
  "match_measure msk name st =
     (length msk - mai st + (length name - nai st)) * (length msk + 1) + (length msk - mi st)"

subsection \<open>Case folding\<close>

lemma ToLowerTab_nth: "i < 256 \<Longrightarrow> ToLowerTab ! i = (if 65 \<le> i \<and> i \<le> 94 then i + 32 else i)"
  by (auto simp: ToLowerTab_def nth_append simp del: upt_rec_numeral)

lemma ToUpperTab_nth: "i < 256 \<Longrightarrow> ToUpperTab ! i = (if 97 \<le> i \<and> i \<le> 126 then i - 32 else i)"
  by (auto simp: ToUpperTab_def nth_append simp del: upt_rec_numeral)

lemma of_char_ToLower:
  "(of_char (ToLower c) :: nat) = (if 65 \<le> (of_char c :: nat) \<and> (of_char c :: nat) \<le> 94 then of_char c + 32 else of_char c)"
  by (simp add: ToLower_def ToLowerTab_nth)

lemma of_char_ToUpper:
  "(of_char (ToUpper c) :: nat) = (if 97 \<le> (of_char c :: nat) \<and> (of_char c :: nat) \<le> 126 then of_char c - 32 else of_char c)"
  using of_char_less [of c] by (auto simp: ToUpper_def ToUpperTab_nth)

lemma char_eq_code: "c = d \<longleftrightarrow> (of_char c :: nat) = of_char d"
  by simp

lemma ToLower_NUL [simp]: "ToLower c = NUL \<longleftrightarrow> c = NUL"
  by (simp only: char_eq_code of_char_ToLower) auto

lemma ToUpper_NUL [simp]: "ToUpper c = NUL \<longleftrightarrow> c = NUL"
  by (simp only: char_eq_code of_char_ToUpper) auto

lemma ToLower_of_NUL [simp]: "ToLower NUL = NUL"
  by simp

lemma ToLower_NUL' [simp]: "NUL = ToLower c \<longleftrightarrow> c = NUL"
  by (metis ToLower_NUL)

lemma ToUpper_eq_iff_ToLower_eq: "ToUpper c = ToUpper d \<longleftrightarrow> ToLower c = ToLower d"
proof -
  have "(if 97 \<le> a \<and> a \<le> 126 then a - 32 else a) = (if 97 \<le> b \<and> b \<le> 126 then b - 32 else b) \<longleftrightarrow>
    (if 65 \<le> a \<and> a \<le> 94 then a + 32 else a) = (if 65 \<le> b \<and> b \<le> 94 then b + 32 else b)" for a b :: nat
    by auto
  then show ?thesis
    by (simp only: char_eq_code of_char_ToLower of_char_ToUpper)
qed

lemma ToLower_idem [simp]: "ToLower (ToLower c) = ToLower c"
  by (simp only: char_eq_code of_char_ToLower) auto

lemma upper_code_eq: "upper_code c = upper_code d \<longleftrightarrow> ToUpper c = ToUpper d"
  by (simp add: upper_code_def)

lemma irccmp_0_iff_lower:
  "cstring s \<Longrightarrow> cstring t \<Longrightarrow> irccmp s t = 0 \<longleftrightarrow> map ToLower s = map ToLower t"
  by (induction s t rule: irccmp.induct)
     (auto simp: upper_code_eq ToUpper_eq_iff_ToLower_eq)

lemma irccmp_antisym: "irccmp s t = - irccmp t s"
  by (induction s t rule: irccmp.induct) auto

subsection \<open>Masks\<close>

lemma glob_star_iff: "glob (CHR ''*'' # ms) ns \<longleftrightarrow> (\<exists>k \<le> length ns. glob ms (drop k ns))"
  by simp

declare glob.simps(2) [simp del]

lemma glob_lit_iff:
  "c \<noteq> CHR ''*'' \<Longrightarrow> glob (c # ms) ns \<longleftrightarrow> (\<exists>d ns'. ns = d # ns' \<and> char_match c d \<and> glob ms ns')"
  by (cases ns) (auto simp: glob.simps(2))

lemma glob_star_star: "glob (CHR ''*'' # CHR ''*'' # ms) ns \<longleftrightarrow> glob (CHR ''*'' # ms) ns"
proof
  assume "glob (CHR ''*'' # CHR ''*'' # ms) ns"
  then obtain k j where "k \<le> length ns" "j \<le> length ns - k" "glob ms (drop (k + j) ns)"
    by (auto simp: glob_star_iff add.commute)
  then show "glob (CHR ''*'' # ms) ns"
    by (auto simp: glob_star_iff intro!: exI [of _ "k + j"])
next
  assume "glob (CHR ''*'' # ms) ns"
  then show "glob (CHR ''*'' # CHR ''*'' # ms) ns"
    by (subst glob_star_iff) (auto intro: exI [of _ 0])
qed

lemma glob_cong_tail: "(\<And>ns. glob ms ns = glob ms' ns) \<Longrightarrow> glob (c # ms) ns = glob (c # ms') ns"
  by (auto simp: glob.simps(2) split: list.splits)

lemma glob_collapse_loop:
  "glob (collapse_loop f p) ns = glob p ns \<or> f"
  "glob (CHR ''*'' # collapse_loop True p) ns = glob (CHR ''*'' # p) ns"
proof (induction p arbitrary: f ns)
  case Nil
  { case 1 show ?case by simp next case 2 show ?case by simp }
next
  case (Cons c p)
  { case 1
    show ?case
      using Cons.IH(2) Cons.IH(1) [of False]
      by (auto simp: glob.simps(2) split: list.splits)
  next
    case 2
    show ?case
    proof (cases "c = CHR ''*''")
      case True
      then show ?thesis using Cons.IH(2) by (simp add: glob_star_star)
    next
      case False
      then show ?thesis
        using Cons.IH(1) [of False] by (auto simp: glob.simps(2) split: list.splits)
    qed }
qed

lemma no_star_pair_Cons:
  "no_star_pair (c # s) \<longleftrightarrow> no_star_pair s \<and> (c = CHR ''*'' \<longrightarrow> s = [] \<or> hd s \<noteq> CHR ''*'')"
  by (cases s) auto

lemma no_star_pair_collapse: "no_star_pair (collapse p)"
proof -
  have "no_star_pair (collapse_loop f p) \<and>
    (f \<longrightarrow> collapse_loop f p = [] \<or> hd (collapse_loop f p) \<noteq> CHR ''*'')" for f
    by (induction p arbitrary: f) (auto simp: no_star_pair_Cons)
  then show ?thesis by (simp add: collapse_def)
qed

lemma glob_collapse: "glob (collapse p) ns = glob p ns"
  using glob_collapse_loop(1) [of False p ns] by (simp add: collapse_def)

subsection \<open>The scanning loops of the matcher\<close>

lemma skip_star_ge: "m \<le> skip_star s m"
  by (induction s m rule: skip_star.induct) (subst skip_star.simps, auto)

lemma skip_star_le: "m \<le> length s \<Longrightarrow> skip_star s m \<le> length s"
  by (induction s m rule: skip_star.induct) (subst skip_star.simps, auto)

lemma skip_star_stop: "skip_star s m < length s \<Longrightarrow> s ! skip_star s m \<noteq> CHR ''*''"
  by (induction s m rule: skip_star.induct) (subst skip_star.simps, subst (asm) skip_star.simps, auto split: if_splits)

lemma skip_star_before: "m \<le> i \<Longrightarrow> i < skip_star s m \<Longrightarrow> i < length s \<and> s ! i = CHR ''*''"
proof (induction s m arbitrary: i rule: skip_star.induct)
  case (1 s m)
  show ?case
  proof (cases "m < length s \<and> s ! m = CHR ''*''")
    case True
    then have eq: "skip_star s m = skip_star s (Suc m)"
      by (simp add: skip_star.simps [of s m])
    show ?thesis
    proof (cases "i = m")
      case True
      with \<open>m < length s \<and> s ! m = CHR ''*''\<close> show ?thesis by simp
    next
      case False
      with "1.prems" eq have "Suc m \<le> i" "i < skip_star s (Suc m)" by auto
      with "1.IH" [OF True] show ?thesis by blast
    qed
  next
    case False
    with "1.prems" show ?thesis by (auto simp: skip_star.simps [of s m])
  qed
qed

lemma back_q_le: "back_q s m \<le> m"
  by (induction s m rule: back_q.induct) auto

lemma back_q_between: "back_q s m < i \<Longrightarrow> i \<le> m \<Longrightarrow> s ! i = CHR ''?''"
  by (induction s m rule: back_q.induct) (auto split: if_splits simp: le_Suc_eq)

lemma tail_glob_end: "tail_glob msk name (length msk) k \<longleftrightarrow> length name \<le> k"
  by (simp add: tail_glob_def)

lemma tail_glob_star:
  assumes "i < length msk" "msk ! i = CHR ''*''" "k \<le> length name"
  shows "tail_glob msk name i k \<longleftrightarrow> (\<exists>j \<ge> k. j \<le> length name \<and> tail_glob msk name (Suc i) j)"
proof -
  have "drop i msk = CHR ''*'' # drop (Suc i) msk"
    using assms(1,2) by (simp add: Cons_nth_drop_Suc [symmetric])
  then have "tail_glob msk name i k \<longleftrightarrow>
      (\<exists>d \<le> length name - k. glob (drop (Suc i) msk) (drop (k + d) name))"
    by (simp add: tail_glob_def glob_star_iff add.commute)
  also have "\<dots> \<longleftrightarrow> (\<exists>j \<ge> k. j \<le> length name \<and> tail_glob msk name (Suc i) j)"
    unfolding tail_glob_def
    by (metis assms(3) le_Suc_ex le_add1 nat_add_left_cancel_le le_add_diff_inverse)
  finally show ?thesis .
qed

lemma tail_glob_lit:
  assumes "i < length msk" "msk ! i \<noteq> CHR ''*''"
  shows "tail_glob msk name i k \<longleftrightarrow>
    k < length name \<and> char_match (msk ! i) (name ! k) \<and> tail_glob msk name (Suc i) (Suc k)"
proof -
  have "drop i msk = msk ! i # drop (Suc i) msk"
    using assms(1) by (simp add: Cons_nth_drop_Suc [symmetric])
  then show ?thesis
    using assms(2)
    by (cases "k < length name")
       (auto simp: tail_glob_def glob_lit_iff Cons_nth_drop_Suc [symmetric])
qed

lemma tail_glob_skip_star:
  assumes "m < length msk" "msk ! m = CHR ''*''" "n \<le> length name"
  shows "tail_glob msk name m n \<longleftrightarrow>
    (\<exists>j \<ge> n. j \<le> length name \<and> tail_glob msk name (skip_star msk m) j)"
  using assms
proof (induction msk m arbitrary: n rule: skip_star.induct)
  case (1 s m)
  then have eq: "skip_star s m = skip_star s (Suc m)"
    by (simp add: skip_star.simps [of s m])
  note star = tail_glob_star [OF "1.prems"]
  show ?case
  proof (cases "Suc m < length s \<and> s ! Suc m = CHR ''*''")
    case True
    with "1.IH" "1.prems" show ?thesis
      unfolding star eq by (meson le_trans order_refl)
  next
    case False
    then have "skip_star s (Suc m) = Suc m"
      by (subst skip_star.simps) auto
    then show ?thesis unfolding star eq by simp
  qed
qed

lemma tail_glob_all_q:
  assumes "i \<le> length msk" "\<forall>x. i \<le> x \<longrightarrow> x < length msk \<longrightarrow> msk ! x = CHR ''?''"
    and "k + (length msk - i) = length name"
  shows "tail_glob msk name i k"
  using assms
proof (induction "length msk - i" arbitrary: i k)
  case 0
  then show ?case by (simp add: tail_glob_def)
next
  case (Suc d)
  then have "i < length msk" "msk ! i = CHR ''?''" by auto
  moreover have "tail_glob msk name (Suc i) (Suc k)"
    using Suc by (intro Suc.hyps(1)) auto
  ultimately show ?case
    using Suc.prems by (subst tail_glob_lit) (auto simp: char_match_def)
qed

subsection \<open>The loop keeps the invariant\<close>

lemma seg_ok_star_free: "seg_ok msk name a b k \<Longrightarrow> star_free msk a b"
  by (simp add: seg_ok_def star_free_def)

lemma seg_ok_empty [simp]: "seg_ok msk name a a k"
  by (auto simp: seg_ok_def)

lemma seg_ok_Suc:
  "a \<le> b \<Longrightarrow> seg_ok msk name a (Suc b) k \<longleftrightarrow> seg_ok msk name a b k \<and> msk ! b \<noteq> CHR ''*'' \<and>
     k + (b - a) < length name \<and> char_match (msk ! b) (name ! (k + (b - a)))"
  by (auto simp: seg_ok_def less_Suc_eq)

lemma tail_glob_seg:
  assumes "a \<le> b" "b \<le> length msk" "star_free msk a b"
  shows "tail_glob msk name a k \<longleftrightarrow> seg_ok msk name a b k \<and> tail_glob msk name b (k + (b - a))"
  using assms
proof (induction b rule: dec_induct)
  case base
  then show ?case by simp
next
  case (step b)
  then have IH: "tail_glob msk name a k \<longleftrightarrow> seg_ok msk name a b k \<and> tail_glob msk name b (k + (b - a))"
    by (auto simp: star_free_def)
  have "msk ! b \<noteq> CHR ''*''" using step by (auto simp: star_free_def)
  with step IH show ?case
    by (simp add: seg_ok_Suc tail_glob_lit Suc_diff_le)
qed

lemma match_inv_seg:
  assumes "match_inv msk name st"
  shows "tail_glob msk name (mai st) k \<longleftrightarrow>
    seg_ok msk name (mai st) (mi st) k \<and> tail_glob msk name (mi st) (k + (mi st - mai st))"
  using assms by (intro tail_glob_seg) (auto simp: match_inv_def intro: seg_ok_star_free)

lemma match_inv_here:
  assumes "match_inv msk name st" "tail_glob msk name (mi st) (ni st)"
  shows "glob msk name"
proof (cases "wild st")
  case True
  have "tail_glob msk name (mai st) (nai st)"
    using assms by (subst match_inv_seg [OF assms(1)]) (auto simp: match_inv_def)
  with True assms(1) show ?thesis by (auto simp: match_inv_def)
next
  case False
  with assms show ?thesis by (auto simp: match_inv_def)
qed

lemma match_inv_init: "match_inv msk name match_init"
  by (simp add: match_inv_def match_init_def tail_glob_def)

lemma match_star_inv:
  assumes inv: "match_inv msk name st" and c: "cstring msk"
  shows "match_inv msk name (match_star msk st)"
    and "mi (match_star msk st) < length msk \<Longrightarrow> msk ! mi (match_star msk st) \<noteq> CHR ''*''"
    and "match_measure msk name (match_star msk st) \<le> match_measure msk name st"
proof -
  show "mi (match_star msk st) < length msk \<Longrightarrow> msk ! mi (match_star msk st) \<noteq> CHR ''*''"
    using skip_star_stop by (auto simp: match_star_def Let_def split: if_splits)
  show "match_inv msk name (match_star msk st)"
  proof (cases "rd msk (mi st) = Some CHR ''*''")
    case True
    then have m: "mi st < length msk" "msk ! mi st = CHR ''*''"
      using inv by (auto simp: match_inv_def rd_def split: if_splits)
    have n: "ni st \<le> length name" using inv by (simp add: match_inv_def)
    note here = tail_glob_skip_star [OF m n]
    have "(\<exists>j \<ge> ni st. j \<le> length name \<and> tail_glob msk name (skip_star msk (mi st)) j) = glob msk name"
    proof (cases "wild st")
      case True
      have "tail_glob msk name (mi st) (ni st)" if "glob msk name"
      proof -
        from that True inv obtain k where k: "k \<ge> nai st" "k \<le> length name" "tail_glob msk name (mai st) k"
          by (auto simp: match_inv_def)
        then have "tail_glob msk name (mi st) (k + (mi st - mai st))"
          by (simp add: match_inv_seg [OF inv])
        moreover have "k + (mi st - mai st) \<ge> ni st"
          using k(1) inv by (auto simp: match_inv_def)
        moreover have "k + (mi st - mai st) \<le> length name"
        proof (cases "mai st = mi st")
          case True then show ?thesis using k by simp
        next
          case False
          from k(3) have "seg_ok msk name (mai st) (mi st) k"
            by (simp add: match_inv_seg [OF inv])
          moreover have "mai st \<le> mi st - 1" "mi st - 1 < mi st"
            using False inv by (auto simp: match_inv_def)
          ultimately have "k + (mi st - 1 - mai st) < length name"
            by (auto simp: seg_ok_def)
          then show ?thesis by linarith
        qed
        ultimately show ?thesis
          by (meson here le_trans tail_glob_skip_star m)
      qed
      with match_inv_here [OF inv] show ?thesis
        unfolding here [symmetric] by blast
    next
      case False
      with inv show ?thesis unfolding here [symmetric] by (simp add: match_inv_def)
    qed
    with True m n show ?thesis
      using skip_star_le [of "mi st" msk] skip_star_stop
      by (simp add: match_inv_def match_star_def Let_def)
  next
    case False
    with inv show ?thesis by (simp add: match_star_def)
  qed
  show "match_measure msk name (match_star msk st) \<le> match_measure msk name st"
  proof (cases "rd msk (mi st) = Some CHR ''*''")
    case True
    have "mai st \<le> skip_star msk (mi st)" "mi st \<le> skip_star msk (mi st)" "nai st \<le> ni st"
      using inv skip_star_ge [of "mi st" msk] by (auto simp: match_inv_def)
    with True show ?thesis
      by (simp add: match_measure_def match_star_def Let_def) (intro add_mono mult_le_mono; simp)
  next
    case False
    then show ?thesis by (simp add: match_star_def)
  qed
qed

lemma match_inv_backtrack:
  assumes inv: "match_inv msk name st" and w: "wild st"
    and no: "\<not> tail_glob msk name (mi st) (ni st)" and n: "nai st < length name"
  shows "match_inv msk name (st\<lparr>mi := mai st, ni := Suc (nai st), nai := Suc (nai st)\<rparr>)"
    and "match_measure msk name (st\<lparr>mi := mai st, ni := Suc (nai st), nai := Suc (nai st)\<rparr>)
      < match_measure msk name st"
proof -
  have "\<not> tail_glob msk name (mai st) (nai st)"
    using no inv by (subst match_inv_seg [OF inv]) (auto simp: match_inv_def)
  then have "(\<exists>k \<ge> nai st. k \<le> length name \<and> tail_glob msk name (mai st) k) \<longleftrightarrow>
      (\<exists>k \<ge> Suc (nai st). k \<le> length name \<and> tail_glob msk name (mai st) k)"
    by (metis Suc_leD not_less_eq_eq le_antisym)
  with inv w n show "match_inv msk name (st\<lparr>mi := mai st, ni := Suc (nai st), nai := Suc (nai st)\<rparr>)"
    by (simp add: match_inv_def)
  have eq: "length name - nai st = Suc (length name - Suc (nai st))" using n by simp
  show "match_measure msk name (st\<lparr>mi := mai st, ni := Suc (nai st), nai := Suc (nai st)\<rparr>)
      < match_measure msk name st"
    by (simp add: match_measure_def eq)
qed

lemma match_cmp_inv:
  assumes inv: "match_inv msk name st" and c: "cstring msk" "cstring name"
    and m: "mi st < length msk \<Longrightarrow> msk ! mi st \<noteq> CHR ''*''"
    and n: "ni st = length name \<Longrightarrow> mi st = length msk"
  shows "case match_cmp msk name st of
      Inl r \<Rightarrow> r = Some (glob msk name)
    | Inr st' \<Rightarrow> match_inv msk name st' \<and>
        (ni st < length name \<longrightarrow> match_measure msk name st' < match_measure msk name st) \<and>
        match_measure msk name st' \<le> match_measure msk name st"
proof -
  have bounds: "mi st \<le> length msk" "ni st \<le> length name" "nai st \<le> ni st" "mai st \<le> mi st"
    using inv by (auto simp: match_inv_def)
  consider (ends) "mi st = length msk" "ni st = length name"
    | (mend) "mi st = length msk" "ni st < length name"
    | (mid) "mi st < length msk" "ni st < length name"
    using bounds n by linarith
  then show ?thesis
  proof cases
    case ends
    with inv show ?thesis by (auto simp: match_cmp_def match_inv_def match_measure_def)
  next
    case mend
    then have no: "\<not> tail_glob msk name (mi st) (ni st)" by (simp add: tail_glob_end)
    have "name ! ni st \<noteq> NUL" using c(2) mend by (simp add: cstring_nth)
    with mend have eq: "match_cmp msk name st = (if wild st then
        Inr (st\<lparr>mi := mai st, ni := Suc (nai st), nai := Suc (nai st)\<rparr>) else Inl (Some False))"
      by (simp add: match_cmp_def)
    show ?thesis
    proof (cases "wild st")
      case True
      with eq match_inv_backtrack [OF inv True no] mend bounds show ?thesis by simp
    next
      case False
      with eq inv no show ?thesis by (simp add: match_inv_def)
    qed
  next
    case mid
    then have lit: "tail_glob msk name (mi st) (ni st) \<longleftrightarrow>
        char_match (msk ! mi st) (name ! ni st) \<and> tail_glob msk name (Suc (mi st)) (Suc (ni st))"
      using m by (simp add: tail_glob_lit)
    have nz: "name ! ni st \<noteq> NUL" "msk ! mi st \<noteq> NUL" using c mid by (simp_all add: cstring_nth)
    show ?thesis
    proof (cases "char_match (msk ! mi st) (name ! ni st)")
      case True
      let ?st' = "st\<lparr>mi := Suc (mi st), ni := Suc (ni st)\<rparr>"
      have eq: "match_cmp msk name st = Inr ?st'"
        using True mid nz by (auto simp: match_cmp_def char_match_def)
      have "ni st = nai st + (mi st - mai st)"
        using inv bounds by (auto simp: match_inv_def)
      then have "match_inv msk name ?st'"
        using inv lit True m mid bounds
        by (cases "wild st") (auto simp: match_inv_def seg_ok_Suc Suc_diff_le)
      moreover have "match_measure msk name ?st' < match_measure msk name st"
        using mid unfolding match_measure_def by (intro add_le_less_mono) auto
      ultimately show ?thesis by (simp add: eq)
    next
      case False
      with lit have no: "\<not> tail_glob msk name (mi st) (ni st)" by simp
      from False mid have eq: "match_cmp msk name st = (if wild st then
          Inr (st\<lparr>mi := mai st, ni := Suc (nai st), nai := Suc (nai st)\<rparr>) else Inl (Some False))"
        by (simp add: match_cmp_def char_match_def)
      show ?thesis
      proof (cases "wild st")
        case True
        with eq match_inv_backtrack [OF inv True no] mid bounds show ?thesis by simp
      next
        case False
        with eq inv no show ?thesis by (simp add: match_inv_def)
      qed
    qed
  qed
qed

lemma match_inv_back_q:
  assumes inv: "match_inv msk name st" and m: "mi st = length msk"
    and j: "rd msk (back_q msk (mi st - 1)) = Some CHR ''*''" "0 < back_q msk (mi st - 1)"
  shows "glob msk name"
proof -
  let ?j = "back_q msk (mi st - 1)"
  have jl: "?j < length msk"
    using j(2) m back_q_le [of msk "mi st - 1"] by (cases "mi st") auto
  then have star: "msk ! ?j = CHR ''*''" using j(1) by simp
  have sf: "star_free msk (mai st) (mi st)"
    using inv by (auto simp: match_inv_def intro: seg_ok_star_free)
  have lt: "?j < mai st"
    using sf star jl m by (metis star_free_def not_less)
  have w: "wild st" using lt inv by (auto simp: match_inv_def split: if_splits)
  have q: "\<forall>x. mai st \<le> x \<longrightarrow> x < length msk \<longrightarrow> msk ! x = CHR ''?''"
    using lt m back_q_between [of msk "mi st - 1"] by auto
  have len: "mi st - mai st \<le> length name - nai st"
    using inv by (auto simp: match_inv_def)
  have "tail_glob msk name (mai st) (length name - (length msk - mai st))"
    using inv m len q by (intro tail_glob_all_q) (auto simp: match_inv_def)
  moreover have "nai st \<le> length name - (length msk - mai st)"
    using inv m by (auto simp: match_inv_def)
  ultimately show ?thesis using inv w by (auto simp: match_inv_def)
qed

lemma match_rest_inv:
  assumes inv: "match_inv msk name st" and c: "cstring msk" "cstring name"
    and m: "mi st < length msk \<Longrightarrow> msk ! mi st \<noteq> CHR ''*''"
  shows "case match_rest msk name st of
      Inl r \<Rightarrow> r = Some (glob msk name)
    | Inr st' \<Rightarrow> match_inv msk name st' \<and> match_measure msk name st' < match_measure msk name st"
proof -
  have bounds: "mi st \<le> length msk" "ni st \<le> length name" "nai st \<le> ni st" "mai st \<le> mi st"
    "mi st - mai st = ni st - nai st"
    using inv by (auto simp: match_inv_def)
  consider (ends) "mi st = length msk" "ni st = length name"
    | (mend) "mi st = length msk" "ni st < length name"
    | (nend) "mi st < length msk" "ni st = length name"
    | (mid) "mi st < length msk" "ni st < length name"
    using bounds by linarith
  then show ?thesis
  proof cases
    case ends
    then have "tail_glob msk name (mi st) (ni st)" by (simp add: tail_glob_end)
    with inv ends match_inv_here show ?thesis by (simp add: match_rest_def)
  next
    case nend
    have "\<not> glob msk name"
    proof
      assume g: "glob msk name"
      show False
      proof (cases "wild st")
        case True
        with inv g obtain k where k: "k \<ge> nai st" "tail_glob msk name (mai st) k"
          by (auto simp: match_inv_def)
        then have "tail_glob msk name (mi st) (k + (mi st - mai st))"
          by (simp add: match_inv_seg [OF inv])
        then have "k + (mi st - mai st) < length name"
          using nend m by (simp add: tail_glob_lit)
        with k(1) nend bounds show False by linarith
      next
        case False
        with inv g nend m show False by (auto simp: match_inv_def tail_glob_lit)
      qed
    qed
    moreover have "skip_star msk (mi st) = mi st"
      using m nend by (subst skip_star.simps) auto
    ultimately show ?thesis
      using nend c by (simp add: match_rest_def cstring_nth)
  next
    case mid
    with c have "match_rest msk name st = match_cmp msk name st"
      by (simp add: match_rest_def cstring_nth)
    with match_cmp_inv [OF inv c m] mid show ?thesis by (auto split: sum.splits)
  next
    case mend
    let ?st' = "st\<lparr>mi := mai st, ni := Suc (nai st), nai := Suc (nai st)\<rparr>"
    have no: "\<not> tail_glob msk name (mi st) (ni st)" using mend by (simp add: tail_glob_end)
    have n: "nai st < length name" using mend bounds by simp
    have nz: "name ! ni st \<noteq> NUL" using c mend by (simp add: cstring_nth)
    show ?thesis
    proof (cases "rd msk (back_q msk (mi st - 1)) = Some CHR ''*'' \<and> 0 < back_q msk (mi st - 1)")
      case True
      with mend nz match_inv_back_q [OF inv] show ?thesis by (simp add: match_rest_def Let_def)
    next
      case False
      show ?thesis
      proof (cases "wild st")
        case w: True
        have inv': "match_inv msk name ?st'" and dec: "match_measure msk name ?st' < match_measure msk name st"
          using match_inv_backtrack [OF inv w no n] by auto
        have "mai st = length msk" if "Suc (nai st) = length name"
          using that mend bounds by linarith
        then have "case match_cmp msk name ?st' of
            Inl r \<Rightarrow> r = Some (glob msk name)
          | Inr st'' \<Rightarrow> match_inv msk name st'' \<and> match_measure msk name st'' \<le> match_measure msk name ?st'"
          using match_cmp_inv [OF inv' c] inv w by (auto simp: match_inv_def split: sum.splits)
        with dec have "case match_cmp msk name ?st' of
            Inl r \<Rightarrow> r = Some (glob msk name)
          | Inr st'' \<Rightarrow> match_inv msk name st'' \<and> match_measure msk name st'' < match_measure msk name st"
          by (auto split: sum.splits)
        with False mend nz w show ?thesis by (auto simp: match_rest_def Let_def)
      next
        case nw: False
        with inv no have "\<not> glob msk name" by (simp add: match_inv_def)
        with False mend nz nw show ?thesis by (auto simp: match_rest_def Let_def)
      qed
    qed
  qed
qed

lemma match_body_inv:
  assumes "match_inv msk name st" "cstring msk" "cstring name"
  shows "case match_body msk name st of
      Inl r \<Rightarrow> r = Some (glob msk name)
    | Inr st' \<Rightarrow> match_inv msk name st' \<and> match_measure msk name st' < match_measure msk name st"
  using match_rest_inv [OF match_star_inv(1) [OF assms(1,2)] assms(2,3) match_star_inv(2) [OF assms(1,2)]]
    match_star_inv(3) [OF assms(1,2)]
  by (auto simp: match_body_def split: sum.splits)

lemma match_loop_result:
  assumes "match_inv msk name st" "cstring msk" "cstring name"
  shows "match_loop calls msk name st = Some (glob msk name) \<or>
    match_loop calls msk name st = Some False \<and> calls \<le> match_measure msk name st"
  using assms
proof (induction calls arbitrary: st)
  case 0
  then show ?case by simp
next
  case (Suc calls)
  show ?case
  proof (cases "match_body msk name st")
    case (Inl r)
    with match_body_inv [OF Suc.prems] show ?thesis by simp
  next
    case (Inr st')
    with match_body_inv [OF Suc.prems]
    have "match_inv msk name st'" and "match_measure msk name st' < match_measure msk name st" by auto
    with Suc.IH [OF _ Suc.prems(2,3)] Inr show ?thesis by fastforce
  qed
qed

lemma match_chk_result:
  assumes "cstring msk" "cstring name" "msk \<noteq> []" "name \<noteq> []"
  shows "match_chk msk name = Some (glob msk name) \<or>
    match_chk msk name = Some False \<and>
      MATCH_MAX_CALLS \<le> (length msk + length name) * (length msk + 1) + length msk"
proof -
  have "match_measure msk name match_init = (length msk + length name) * (length msk + 1) + length msk"
    by (simp add: match_measure_def match_init_def)
  with match_loop_result [OF match_inv_init assms(1,2), of MATCH_MAX_CALLS] assms(3,4)
  show ?thesis by (simp only: match_chk_def EmptyString_def) auto
qed

subsection \<open>Properties\<close>

text \<open>
  C30. The wildcard matcher is sound: whenever \<open>match\<close> answers yes, the name is matched by
  the mask in the sense of \<open>glob\<close> (star, question mark, IRC case folding), for strings of
  any length.
\<close>

theorem match_sound:
  assumes "cstring msk" "cstring name" "match msk name"
  shows "glob msk name"
  using match_chk_result [OF assms(1,2)] assms(3)
  by (cases "msk = [] \<or> name = []") (auto simp: match_def match_chk_def EmptyString_def)

theorem match_sound_witness: "glob ''n?c*.[H]'' ''nickx.{h}''"
proof -
  have "cstring ''n?c*.[H]''" and "cstring ''nickx.{h}''" by (simp_all add: cstring_def)
  moreover have "match ''n?c*.[H]'' ''nickx.{h}''" by code_simp
  ultimately show ?thesis by (rule match_sound)
qed

text \<open>
  C7. The matcher is exact on strings short enough for its iteration bound: with a mask of
  length \<open>M\<close> and a name of length \<open>N\<close>, both non-empty, and \<open>(M + N) * (M + 1) + M\<close> below
  \<open>MATCH_MAX_CALLS\<close>, the loop always returns before the bound stops it and its answer is
  \<open>glob\<close>.
\<close>

theorem match_exact:
  assumes "cstring msk" "cstring name" "msk \<noteq> []" "name \<noteq> []"
    and "(length msk + length name) * (length msk + 1) + length msk < MATCH_MAX_CALLS"
  shows "match msk name \<longleftrightarrow> glob msk name"
  using match_chk_result [OF assms(1-4)] assms(5) by (auto simp: match_def)

theorem match_exact_witness: "match ''*!*@host'' ''n!u@hosts'' \<longleftrightarrow> glob ''*!*@host'' ''n!u@hosts''"
  by (rule match_exact) (simp_all add: cstring_def)

text \<open>
  C31. Memory safety of the matcher: no step of \<open>match\<close> reads past the terminating zero byte
  of the mask or of the name (the result is never the out-of-bounds read \<^const>\<open>None\<close>).
\<close>

theorem match_no_overread:
  assumes "cstring msk" "cstring name"
  shows "match_chk msk name \<noteq> None"
  using match_chk_result [OF assms]
  by (cases "msk = [] \<or> name = []") (auto simp: match_chk_def EmptyString_def)

theorem match_no_overread_witness: "match_chk ''a*b?'' ''axxbbc'' \<noteq> None"
  by (rule match_no_overread) (simp_all add: cstring_def)

text \<open>
  C32. \<open>collapse\<close> removes runs of stars without changing the meaning of the mask: the result
  has no two stars in a row and matches exactly the same names.
\<close>

theorem collapse_correct: "no_star_pair (collapse p) \<and> glob (collapse p) ns = glob p ns"
  by (simp add: no_star_pair_collapse glob_collapse)

text \<open>
  \<open>irccmp\<close> decides equality up to IRC case folding, and the two case tables agree on it:
  it returns zero (though it folds upwards with \<open>ToUpperTab\<close>) exactly when the lower-case
  forms of the strings are equal, and swapping its arguments negates its result.
\<close>

theorem irccmp_correct:
  assumes "cstring s" "cstring t"
  shows "(irccmp s t = 0 \<longleftrightarrow> map ToLower s = map ToLower t) \<and> irccmp s t = - irccmp t s"
  using irccmp_0_iff_lower [OF assms] irccmp_antisym [of s t] by blast

theorem irccmp_correct_witness: "irccmp ''Nick[1]'' ''nICK{1}'' = 0"
proof -
  have "map ToLower ''Nick[1]'' = map ToLower ''nICK{1}''" by code_simp
  with irccmp_correct [of "''Nick[1]''" "''nICK{1}''"] show ?thesis by (simp add: cstring_def)
qed

end
