(* ===== verification/Libratbox.thy ===== *)
theory Libratbox
  imports Prelude
begin

section \<open>Libratbox: the interface of the support library\<close>

text \<open>
  ratbox-services is built on libratbox (\<open>ratbox_lib.h\<close>), whose sources are not part of the
  repository. The functions of it that the modelled code calls are therefore parameters: a
  record \<open>rblib\<close> that every definition using them takes as its first argument. What the
  code relies on is the locale \<open>rblib_ok\<close>, the documented behaviour of the library:
  \<^item> \<open>rb_strlcpy dst src size\<close> leaves the first \<open>size - 1\<close> characters of the source in the
    destination;
  \<^item> a doubly linked list \<open>rb_dlink_list\<close> is the sequence of the data pointers that
    \<open>RB_DLINK_FOREACH\<close> visits; adding puts one more element into it, adding at the tail puts it
    last, deleting takes one occurrence out, moving a list adds its elements to another,
    \<open>rb_dlinkFind\<close> decides membership.
  Where an element that is added not at the tail goes is left open: no result of the development
  rests on it. \<open>rb_dlink_node\<close>s are not modelled: each intrusive node belongs to one list and stands
  for the object it is embedded in.
\<close>

type_synonym addr = nat

record 'a dlink =
  dlinkAdd :: "'a \<Rightarrow> 'a list \<Rightarrow> 'a list"
  dlinkAddTail :: "'a \<Rightarrow> 'a list \<Rightarrow> 'a list"
  dlinkDelete :: "'a \<Rightarrow> 'a list \<Rightarrow> 'a list"
  dlinkMoveList :: "'a list \<Rightarrow> 'a list \<Rightarrow> 'a list"
  dlinkFind :: "'a \<Rightarrow> 'a list \<Rightarrow> bool"

record rblib =
  rb_strlcpy :: "string \<Rightarrow> nat \<Rightarrow> string"
  rb_ptrs :: "addr dlink"
  rb_strs :: "string dlink"

subsection \<open>The laws\<close>

locale dlink_ok =
  fixes D :: "'a dlink"
  assumes mset_Add: "mset (dlinkAdd D x xs) = add_mset x (mset xs)"
    and AddTail_append: "dlinkAddTail D x xs = xs @ [x]"
    and mset_Delete: "mset (dlinkDelete D x xs) = mset xs - {#x#}"
    and mset_MoveList: "mset (dlinkMoveList D xs ys) = mset xs + mset ys"
    and Find_iff: "dlinkFind D x xs \<longleftrightarrow> x \<in> set xs"
begin

lemma set_Add [simp]: "set (dlinkAdd D x xs) = insert x (set xs)"
  by (metis mset_Add set_mset_add_mset_insert set_mset_mset)

lemma set_AddTail [simp]: "set (dlinkAddTail D x xs) = insert x (set xs)"
  by (simp add: AddTail_append)

lemma set_MoveList [simp]: "set (dlinkMoveList D xs ys) = set xs \<union> set ys"
  by (metis mset_MoveList set_mset_mset set_mset_union)

lemma length_Add [simp]: "length (dlinkAdd D x xs) = Suc (length xs)"
  by (metis mset_Add size_add_mset size_mset)

lemma distinct_Add [simp]: "distinct (dlinkAdd D x xs) \<longleftrightarrow> x \<notin> set xs \<and> distinct xs"
  using mset_Add [of x xs] by (metis distinct.simps(2) mset.simps(2) mset_eq_imp_distinct_iff)

lemma distinct_MoveList:
  "distinct (dlinkMoveList D xs ys) \<longleftrightarrow> distinct (xs @ ys)"
  using mset_MoveList [of xs ys] by (metis mset_append mset_eq_imp_distinct_iff)

lemma mset_Delete_remove1: "mset (dlinkDelete D x xs) = mset (remove1 x xs)"
  by (simp add: mset_Delete)

lemma distinct_Delete [simp]: "distinct xs \<Longrightarrow> distinct (dlinkDelete D x xs)"
  by (metis distinct_remove1 mset_Delete_remove1 mset_eq_imp_distinct_iff)

lemma set_Delete [simp]: "distinct xs \<Longrightarrow> set (dlinkDelete D x xs) = set xs - {x}"
  by (metis mset_Delete_remove1 set_remove1_eq mset_eq_setD)

end

locale rblib_ok =
  fixes L :: rblib
  assumes strlcpy_take: "0 < n \<Longrightarrow> rb_strlcpy L s n = take (n - 1) s"
    and ptrs_ok: "dlink_ok (rb_ptrs L)"
    and strs_ok: "dlink_ok (rb_strs L)"

sublocale rblib_ok \<subseteq> ptrs: dlink_ok "rb_ptrs L"
  by (rule ptrs_ok)

sublocale rblib_ok \<subseteq> strs: dlink_ok "rb_strs L"
  by (rule strs_ok)

context rblib_ok
begin

lemma strlcpy_id: "length s < n \<Longrightarrow> rb_strlcpy L s n = s"
  by (simp add: strlcpy_take)

lemma strlcpy_length: "0 < n \<Longrightarrow> length (rb_strlcpy L s n) < n"
  by (simp add: strlcpy_take)

lemma strlcpy_cstring: "0 < n \<Longrightarrow> cstring s \<Longrightarrow> cstring (rb_strlcpy L s n)"
  by (auto simp: strlcpy_take cstring_def dest: in_set_takeD)

end

subsection \<open>An instance\<close>

text \<open>Lists extended at their head satisfy the laws; the examples are evaluated on them.\<close>

definition list_dlink :: "'a dlink" where
  "list_dlink = \<lparr>dlinkAdd = Cons, dlinkAddTail = (\<lambda>x xs. xs @ [x]), dlinkDelete = remove1,
     dlinkMoveList = append, dlinkFind = (\<lambda>x xs. x \<in> set xs)\<rparr>"

definition list_rblib :: rblib where
  "list_rblib = \<lparr>rb_strlcpy = (\<lambda>s n. take (n - 1) s), rb_ptrs = list_dlink, rb_strs = list_dlink\<rparr>"

interpretation list_dl: dlink_ok "list_dlink :: 'a dlink"
  by unfold_locales (simp_all add: list_dlink_def)

interpretation list_rb: rblib_ok list_rblib
  by unfold_locales (simp_all add: list_rblib_def list_dlink_def)

lemma list_rblib_simps [simp]:
  "rb_strlcpy list_rblib = (\<lambda>s n. take (n - 1) s)"
  "dlinkAdd (rb_ptrs list_rblib) = Cons" "dlinkAdd (rb_strs list_rblib) = Cons"
  "dlinkAddTail (rb_strs list_rblib) = (\<lambda>x xs. xs @ [x])"
  "dlinkDelete (rb_ptrs list_rblib) = remove1" "dlinkDelete (rb_strs list_rblib) = remove1"
  "dlinkMoveList (rb_ptrs list_rblib) = append"
  "dlinkFind (rb_ptrs list_rblib) = (\<lambda>x xs. x \<in> set xs)"
  by (simp_all add: list_rblib_def list_dlink_def)

end
