(* ===== verification/Cidr.thy ===== *)
theory Cidr
  imports Match Libratbox
begin

section \<open>Cidr: address masks (src/cidr.c)\<close>

text \<open>
  \<open>comp_with_mask\<close>, the address parsers \<open>inet_pton4\<close> and \<open>inet_pton6\<close>, and the matchers
  \<open>match_ips\<close> and \<open>match_cidr\<close>. An address is its list of bytes; a failed parse is
  \<^const>\<open>None\<close>. The matchers return \<^const>\<open>None\<close> where the C code compares bytes outside
  its sixteen-byte arrays.
\<close>

type_synonym byte = "8 word"

text \<open>Lengths of \<open>include/client.h\<close>; \<open>NICKLEN\<close> is the default of \<open>configure\<close>.\<close>

abbreviation NICKLEN :: nat where "NICKLEN \<equiv> 10"
abbreviation USERLEN :: nat where "USERLEN \<equiv> 10"
abbreviation HOSTLEN :: nat where "HOSTLEN \<equiv> 63"

subsection \<open>Comparing a prefix\<close>

definition comp_with_mask :: "byte list \<Rightarrow> byte list \<Rightarrow> u32 \<Rightarrow> bool option" where
  "comp_with_mask addr dest msk =
     (let n = unat msk div 8; r = unat msk mod 8 in
      if length addr < n \<or> length dest < n then None
      else if take n addr \<noteq> take n dest then Some False
      else if r = 0 then Some True
      else if length addr \<le> n \<or> length dest \<le> n then None
      else let m = push_bit (8 - r) (- 1) in Some (addr ! n AND m = dest ! n AND m))"

subsection \<open>Parsing an IPv4 address\<close>

text \<open>\<open>tmp\<close> holds the octets up to \<open>tp\<close>, the current one first.\<close>

fun pton4_loop :: "string \<Rightarrow> bool \<Rightarrow> nat \<Rightarrow> nat list \<Rightarrow> nat list option" where
  "pton4_loop [] saw_digit octets tmp = (if octets < 4 then None else Some (rev tmp))"
| "pton4_loop (ch # src) saw_digit octets tmp =
     (if isdigit ch then
        let new = hd tmp * 10 + digit_val ch in
        if new > 255 then None
        else if \<not> saw_digit then
          if Suc octets > 4 then None else pton4_loop src True (Suc octets) (new # tl tmp)
        else pton4_loop src saw_digit octets (new # tl tmp)
      else if ch = CHR ''.'' \<and> saw_digit then
        if octets = 4 then None else pton4_loop src False octets (0 # tmp)
      else None)"

definition inet_pton4 :: "string \<Rightarrow> byte list option" where
  "inet_pton4 src = map_option (map of_nat) (pton4_loop src False 0 [0])"

subsection \<open>Parsing an IPv6 address\<close>

text \<open>The C library's \<open>tolower\<close>, and \<open>strchr(xdigits, ch)\<close> as the digit's value.\<close>

definition tolower :: "char \<Rightarrow> char" where
  "tolower c = (if 65 \<le> (of_char c :: nat) \<and> (of_char c :: nat) \<le> 90 then char_of (of_char c + 32 :: nat) else c)"

definition xdigit :: "char \<Rightarrow> nat option" where
  "xdigit c =
     (if isdigit c then Some (digit_val c)
      else if 97 \<le> (of_char c :: nat) \<and> (of_char c :: nat) \<le> 102 then Some (of_char c - 87)
      else None)"

text \<open>The variables of the loop: \<open>curtok\<close>, \<open>saw_xdigit\<close>, \<open>val\<close>, the bytes written so far
  (\<open>tp\<close> is their number) and \<open>colonp\<close> as an index.\<close>

record pton6_state =
  curtok :: string
  saw_xdigit :: bool
  val :: nat
  tmp :: "byte list"
  colonp :: "nat option"

abbreviation IN6ADDRSZ :: nat where "IN6ADDRSZ \<equiv> 16"

definition put16 :: "pton6_state \<Rightarrow> pton6_state" where
  "put16 st = st\<lparr>tmp := tmp st @ [of_nat (val st div 256), of_nat (val st mod 256)]\<rparr>"

fun pton6_loop :: "string \<Rightarrow> pton6_state \<Rightarrow> pton6_state option" where
  "pton6_loop [] st = Some st"
| "pton6_loop (c # src) st =
     (let ch = tolower c in
      case xdigit ch of
        Some d \<Rightarrow>
          let v = 16 * val st + d in
          if v > 0xffff then None else pton6_loop src (st\<lparr>val := v, saw_xdigit := True\<rparr>)
      | None \<Rightarrow>
          if ch = CHR '':'' then
            let st = st\<lparr>curtok := src\<rparr> in
            if \<not> saw_xdigit st then
              if colonp st \<noteq> None then None
              else pton6_loop src (st\<lparr>colonp := Some (length (tmp st))\<rparr>)
            else if src = [] then None
            else if length (tmp st) + 2 > IN6ADDRSZ then None
            else pton6_loop src ((put16 st)\<lparr>saw_xdigit := False, val := 0\<rparr>)
          else if src \<noteq> [] \<and> ch = CHR ''.'' then
            if length (tmp st) + 4 \<le> IN6ADDRSZ then
              case inet_pton4 (curtok st) of
                Some bs \<Rightarrow> Some (st\<lparr>tmp := tmp st @ bs, saw_xdigit := False\<rparr>)
              | None \<Rightarrow> None
            else None
          else pton6_loop src st)"

text \<open>The shift by hand: \<open>for(i = 1; i <= n; i++) { endp[-i] = colonp[n - i]; colonp[n - i] = 0; }\<close>\<close>

function shift_loop :: "nat \<Rightarrow> nat \<Rightarrow> nat \<Rightarrow> byte list \<Rightarrow> byte list" where
  "shift_loop i n c t =
     (if i \<le> n then shift_loop (Suc i) n c (t[IN6ADDRSZ - i := t ! (c + n - i), c + n - i := 0]) else t)"
  by pat_completeness auto
termination
  by (relation "measure (\<lambda>(i, n, c, t). Suc n - i)") auto

declare shift_loop.simps [simp del]

definition pton6_finish :: "pton6_state \<Rightarrow> byte list option" where
  "pton6_finish st =
     (if saw_xdigit st \<and> length (tmp st) + 2 > IN6ADDRSZ then None
      else
        let t = tmp (if saw_xdigit st then put16 st else st); tp = length t in
        case colonp st of
          None \<Rightarrow> if tp \<noteq> IN6ADDRSZ then None else Some t
        | Some c \<Rightarrow>
            if tp = IN6ADDRSZ then None
            else Some (shift_loop 1 (tp - c) c (t @ replicate (IN6ADDRSZ - tp) 0)))"

definition inet_pton6 :: "string \<Rightarrow> byte list option" where
  "inet_pton6 s =
     (let start = (case s of
          [] \<Rightarrow> Some s
        | c # r \<Rightarrow> if c = CHR '':'' then (if r \<noteq> [] \<and> hd r = CHR '':'' then Some r else None) else Some s)
      in case start of
           None \<Rightarrow> None
         | Some src \<Rightarrow>
             (case pton6_loop src \<lparr>curtok = src, saw_xdigit = False, val = 0, tmp = [], colonp = None\<rparr> of
                None \<Rightarrow> None
              | Some st \<Rightarrow> pton6_finish st))"

subsection \<open>The matchers\<close>

text \<open>\<open>p = strrchr(s, c); *p++ = 0\<close>: the parts before and after the last \<open>c\<close>.\<close>

definition strrchr_split :: "char \<Rightarrow> string \<Rightarrow> (string \<times> string) option" where
  "strrchr_split c s =
     (if c \<in> set s then
        Some (rev (tl (dropWhile (\<lambda>x. x \<noteq> c) (rev s))), rev (takeWhile (\<lambda>x. x \<noteq> c) (rev s)))
      else None)"

definition compare_addrs :: "(string \<Rightarrow> byte list option) \<Rightarrow> string \<Rightarrow> string \<Rightarrow> int \<Rightarrow> bool option" where
  "compare_addrs pton ip ipmask cidrlen =
     (case pton ip of None \<Rightarrow> Some False | Some ipaddr \<Rightarrow>
      case pton ipmask of None \<Rightarrow> Some False | Some maskaddr \<Rightarrow>
        comp_with_mask (ipaddr @ replicate (IN6ADDRSZ - length ipaddr) 0)
          (maskaddr @ replicate (IN6ADDRSZ - length maskaddr) 0) (word_of_int cidrlen))"

text \<open>\<open>match_ips\<close> returns 0 for a match; the model returns \<open>Some True\<close> there.\<close>

definition match_ips :: "rblib \<Rightarrow> string \<Rightarrow> string \<Rightarrow> bool option" where
  "match_ips L s1 s2 =
     (let ip = rb_strlcpy L s2 (HOSTLEN + 1) in
      case strrchr_split CHR ''/'' (rb_strlcpy L s1 BUFSIZE) of
        None \<Rightarrow> Some False
      | Some (ipmask, len) \<Rightarrow>
          let cidrlen = atoi len in
          if cidrlen = 0 then Some False
          else if CHR '':'' \<in> set ip \<and> CHR '':'' \<in> set ipmask then
            if cidrlen > 128 then Some False else compare_addrs inet_pton6 ip ipmask cidrlen
          else if CHR '':'' \<notin> set ip \<and> CHR '':'' \<notin> set ipmask then
            if cidrlen > 32 then Some False else compare_addrs inet_pton4 ip ipmask cidrlen
          else Some False)"

definition match_cidr :: "rblib \<Rightarrow> string \<Rightarrow> string \<Rightarrow> bool option" where
  "match_cidr L s1 s2 =
     (case strrchr_split CHR ''@'' (rb_strlcpy L s1 BUFSIZE) of None \<Rightarrow> Some False | Some (msk, rest) \<Rightarrow>
      case strrchr_split CHR ''@'' (rb_strlcpy L s2 (NICKLEN + USERLEN + HOSTLEN + 6)) of
        None \<Rightarrow> Some False | Some (address, ip) \<Rightarrow>
      case strrchr_split CHR ''/'' rest of None \<Rightarrow> Some False | Some (ipmask, len) \<Rightarrow>
        let cidrlen = atoi len in
        if cidrlen = 0 then Some False
        else if CHR '':'' \<in> set ip \<and> CHR '':'' \<in> set ipmask then
          if cidrlen > 128 then Some False
          else map_option (\<lambda>b. b \<and> match msk address) (compare_addrs inet_pton6 ip ipmask cidrlen)
        else if CHR '':'' \<notin> set ip \<and> CHR '':'' \<notin> set ipmask then
          if cidrlen > 32 then Some False
          else map_option (\<lambda>b. b \<and> match msk address) (compare_addrs inet_pton4 ip ipmask cidrlen)
        else Some True)"

subsection \<open>Bits, printed addresses and the parser invariant\<close>

text \<open>Bit \<open>i\<close> of an address, counted from its most significant bit.\<close>

definition addr_bit :: "byte list \<Rightarrow> nat \<Rightarrow> bool" where
  "addr_bit bs i = bit (bs ! (i div 8)) (7 - i mod 8)"

definition dotted :: "nat \<Rightarrow> nat \<Rightarrow> nat \<Rightarrow> nat \<Rightarrow> string" where
  "dotted a b c d = nat_to_dec a @ ''.'' @ nat_to_dec b @ ''.'' @ nat_to_dec c @ ''.'' @ nat_to_dec d"

definition pton6_ok :: "pton6_state \<Rightarrow> bool" where
  "pton6_ok st \<longleftrightarrow> length (tmp st) \<le> 16 \<and> (\<forall>c. colonp st = Some c \<longrightarrow> c \<le> length (tmp st))"

subsection \<open>Lemmas\<close>

lemma byte_eq_iff_bits: "(a :: byte) = b \<longleftrightarrow> (\<forall>k < 8. bit a (7 - k) = bit b (7 - k))"
proof
  assume h: "\<forall>k < 8. bit a (7 - k) = bit b (7 - k)"
  show "a = b"
  proof (rule bit_word_eqI)
    fix k assume "k < LENGTH(8)"
    then show "bit a k = bit b k" using h [rule_format, of "7 - k"] by simp
  qed
qed simp

lemma and_push_bit_eq_iff:
  assumes "r \<le> 8"
  shows "(a :: byte) AND push_bit (8 - r) (- 1) = b AND push_bit (8 - r) (- 1) \<longleftrightarrow>
    (\<forall>k < r. bit a (7 - k) = bit b (7 - k))"
proof -
  have "(a AND push_bit (8 - r) (- 1) = b AND push_bit (8 - r) (- 1)) \<longleftrightarrow>
      (\<forall>k < 8. 8 - r \<le> 7 - k \<longrightarrow> bit a (7 - k) = bit b (7 - k))"
    unfolding byte_eq_iff_bits by (auto simp: bit_and_iff bit_not_iff bit_mask_iff)
  also have "\<dots> \<longleftrightarrow> (\<forall>k < r. bit a (7 - k) = bit b (7 - k))"
    using assms by (auto simp: le_diff_conv2)
  finally show ?thesis .
qed

lemma all_less_add: "(\<forall>i < m + r. P i) \<longleftrightarrow> (\<forall>i < m. P i) \<and> (\<forall>k < r. P (m + k))" for m r :: nat
  by (metis add_less_cancel_left le_Suc_ex not_less trans_less_add1)

lemma all_less_blocks: "(\<forall>i < 8 * n. P i) \<longleftrightarrow> (\<forall>j < n. \<forall>k < 8. P (8 * j + k))" for n :: nat
proof (induction n)
  case (Suc n)
  have "(\<forall>i < 8 * Suc n. P i) \<longleftrightarrow> (\<forall>i < 8 * n + 8. P i)" by (simp add: add.commute)
  then show ?case using Suc by (simp only: all_less_add) (auto simp: less_Suc_eq)
qed simp

lemma comp_with_mask_bits:
  assumes "length addr = length dest" "unat msk \<le> 8 * length addr"
  shows "comp_with_mask addr dest msk = Some (\<forall>i < unat msk. addr_bit addr i = addr_bit dest i)"
proof -
  define n r where "n = unat msk div 8" and "r = unat msk mod 8"
  have msk: "unat msk = 8 * n + r" and r: "r < 8" by (simp_all add: n_def r_def)
  have n: "n \<le> length addr" and n': "r = 0 \<or> n < length addr" using assms(2) msk by linarith+
  have "take n addr = take n dest \<longleftrightarrow> (\<forall>j < n. addr ! j = dest ! j)"
    using n assms(1) by (auto simp: list_eq_iff_nth_eq)
  then have whole: "take n addr = take n dest \<longleftrightarrow>
      (\<forall>j < n. \<forall>k < 8. addr_bit addr (8 * j + k) = addr_bit dest (8 * j + k))"
    by (simp add: byte_eq_iff_bits addr_bit_def)
  have part: "addr ! n AND push_bit (8 - r) (- 1) = dest ! n AND push_bit (8 - r) (- 1) \<longleftrightarrow>
      (\<forall>k < r. addr_bit addr (8 * n + k) = addr_bit dest (8 * n + k))"
    using r by (subst and_push_bit_eq_iff) (auto simp: addr_bit_def)
  show ?thesis
    unfolding comp_with_mask_def Let_def n_def [symmetric] r_def [symmetric]
    using n' n assms(1) part by (elim disjE) (simp_all add: msk all_less_add all_less_blocks whole)
qed

lemma pton4_loop_number:
  assumes "n \<le> 255" "saw \<or> octets < 4"
  shows "pton4_loop (nat_to_dec n @ rest) saw octets (0 # t) =
    pton4_loop rest True (if saw then octets else Suc octets) (n # t)"
  using assms
proof (induction n arbitrary: rest rule: nat_to_dec.induct)
  case (1 n)
  show ?case
  proof (cases "n < 10")
    case True
    with "1.prems" show ?thesis by (subst nat_to_dec.simps) auto
  next
    case False
    have "n div 10 * 10 + n mod 10 = n" by simp
    with False "1.IH" [OF False, of "char_of (48 + n mod 10) # rest"] "1.prems" show ?thesis
      by (subst nat_to_dec.simps) auto
  qed
qed

lemma inet_pton4_dotted:
  assumes "a \<le> 255" "b \<le> 255" "c \<le> 255" "d \<le> 255"
  shows "inet_pton4 (dotted a b c d) = Some [of_nat a, of_nat b, of_nat c, of_nat d]"
  using assms pton4_loop_number [of d False "Suc (Suc (Suc 0))" "[]" "[c, b, a]"]
  by (simp add: inet_pton4_def dotted_def pton4_loop_number isdigit_def)

lemma pton4_loop_length:
  "pton4_loop s saw octets t = Some r \<Longrightarrow> length t = (if saw then octets else Suc octets) \<Longrightarrow>
   octets \<le> 4 \<Longrightarrow> (\<not> saw \<longrightarrow> octets < 4) \<Longrightarrow> (saw \<longrightarrow> 0 < octets) \<Longrightarrow> length r = 4"
proof (induction s saw octets t arbitrary: r rule: pton4_loop.induct)
  case (1 saw octets t)
  then show ?case by (auto split: if_splits)
next
  case (2 ch src saw octets t)
  then show ?case by (cases t) (auto simp: Let_def split: if_splits)
qed

lemma inet_pton4_length: "inet_pton4 s = Some bs \<Longrightarrow> length bs = 4"
  by (auto simp: inet_pton4_def dest!: pton4_loop_length)

lemma pton6_ok_simps [simp]:
  "pton6_ok (st\<lparr>curtok := t\<rparr>) = pton6_ok st"
  "pton6_ok (st\<lparr>val := v, saw_xdigit := b\<rparr>) = pton6_ok st"
  "pton6_ok (st\<lparr>saw_xdigit := b, val := v\<rparr>) = pton6_ok st"
  "pton6_ok st \<Longrightarrow> pton6_ok (st\<lparr>curtok := t, colonp := Some (length (tmp st))\<rparr>)"
  by (auto simp: pton6_ok_def)

lemma pton6_ok_put16: "pton6_ok st \<Longrightarrow> length (tmp st) + 2 \<le> 16 \<Longrightarrow> pton6_ok (put16 st)"
  by (force simp: pton6_ok_def put16_def)

lemma pton6_ok_put4:
  "pton6_ok st \<Longrightarrow> length (tmp st) + 4 \<le> 16 \<Longrightarrow> inet_pton4 s = Some bs \<Longrightarrow>
   pton6_ok (st\<lparr>tmp := tmp st @ bs, saw_xdigit := False\<rparr>)"
  by (force simp: pton6_ok_def dest: inet_pton4_length)

lemma pton6_loop_ok: "pton6_loop s st = Some st' \<Longrightarrow> pton6_ok st \<Longrightarrow> pton6_ok st'"
proof (induction s arbitrary: st)
  case (Cons c src)
  have colon: "pton6_ok st'" if "tolower c = CHR '':''"
  proof (cases "saw_xdigit st")
    case True
    with that Cons.prems have
        l: "pton6_loop src ((put16 (st\<lparr>curtok := src\<rparr>))\<lparr>saw_xdigit := False, val := 0\<rparr>) = Some st'"
      and len: "length (tmp (st\<lparr>curtok := src\<rparr>)) + 2 \<le> 16"
      by (auto simp: Let_def xdigit_def isdigit_def split: if_splits)
    have "pton6_ok (put16 (st\<lparr>curtok := src\<rparr>))"
      using Cons.prems(2) len by (intro pton6_ok_put16) simp_all
    then show ?thesis by (intro Cons.IH [OF l]) simp
  next
    case False
    with that Cons.prems show ?thesis
      by (auto simp: Let_def xdigit_def isdigit_def split: if_splits intro: Cons.IH)
  qed
  show ?case
  proof (cases "xdigit (tolower c)")
    case (Some d)
    with Cons.prems show ?thesis by (auto simp: Let_def split: if_splits intro: Cons.IH)
  next
    case None
    with Cons.prems colon show ?thesis
      by (auto simp: Let_def split: if_splits option.splits intro: Cons.IH pton6_ok_put4)
  qed
qed simp

lemma shift_loop_eq:
  assumes "c = length a" "n = length b1 + length b2" "i = Suc (length b2)"
    "length a + n + z = 16" "0 < z"
  shows "shift_loop i n c (a @ b1 @ replicate z 0 @ b2) = a @ replicate z 0 @ b1 @ b2"
  using assms
proof (induction b1 arbitrary: b2 i rule: rev_induct)
  case Nil
  then show ?case by (simp add: shift_loop.simps)
next
  case (snoc x b1)
  obtain y where z: "z = Suc y" using snoc.prems(5) by (cases z) auto
  let ?t = "a @ (b1 @ [x]) @ replicate z 0 @ b2"
  have src: "c + n - i = length (a @ b1)" and dst: "16 - i = length (a @ b1 @ [x] @ replicate y (0::byte))"
    using snoc.prems z by auto
  have t: "?t = (a @ b1 @ [x] @ replicate y 0) @ 0 # b2"
    using z by (simp add: replicate_app_Cons_same)
  have "?t ! (c + n - i) = x" unfolding src by (simp add: nth_append)
  moreover have "?t[16 - i := x] = (a @ b1) @ x # replicate y 0 @ x # b2"
    unfolding dst t list_update_length by simp
  ultimately have "?t[16 - i := ?t ! (c + n - i), c + n - i := 0] = a @ b1 @ replicate z 0 @ (x # b2)"
    unfolding src z by (simp add: list_update_length [of "a @ b1", simplified] replicate_app_Cons_same)
  moreover have "i \<le> n" using snoc.prems by simp
  ultimately have "shift_loop i n c (a @ (b1 @ [x]) @ replicate z 0 @ b2) =
      shift_loop (Suc i) n c (a @ b1 @ replicate z 0 @ (x # b2))"
    by (subst shift_loop.simps) simp
  also have "\<dots> = a @ replicate z 0 @ b1 @ x # b2"
    using snoc.prems by (intro snoc.IH) auto
  finally show ?case by simp
qed

lemma pton6_shift:
  assumes "c \<le> length t" "length t < 16"
  shows "shift_loop 1 (length t - c) c (t @ replicate (16 - length t) 0) =
    take c t @ replicate (16 - length t) 0 @ drop c t"
proof -
  have eq: "t @ replicate (16 - length t) 0 = take c t @ drop c t @ replicate (16 - length t) (0::byte) @ []"
    by (metis append_Nil2 append_assoc append_take_drop_id)
  show ?thesis
    unfolding eq using assms by (subst shift_loop_eq) auto
qed

lemma pton6_finish_length:
  assumes "pton6_ok st"
    and "pton6_finish st = Some bs"
  shows "length bs = 16"
proof -
  let ?t = "tmp (if saw_xdigit st then put16 st else st)"
  have t: "length ?t \<le> 16" and c: "colonp st = Some c \<Longrightarrow> c \<le> length ?t" for c
    using assms by (force simp: pton6_ok_def pton6_finish_def put16_def split: if_splits)+
  show ?thesis
  proof (cases "colonp st")
    case None
    with assms(2) show ?thesis by (auto simp: pton6_finish_def Let_def split: if_splits)
  next
    case (Some c)
    with assms(2) t have lt: "length ?t < 16"
      and bs: "bs = shift_loop 1 (length ?t - c) c (?t @ replicate (16 - length ?t) 0)"
      by (auto simp: pton6_finish_def Let_def split: if_splits)
    with c [OF Some] show ?thesis by (simp only: bs pton6_shift) simp
  qed
qed

lemma inet_pton6_length: "inet_pton6 s = Some bs \<Longrightarrow> length bs = 16"
  by (auto simp: inet_pton6_def Let_def pton6_ok_def
      dest!: pton6_loop_ok intro!: pton6_finish_length split: option.splits)

subsection \<open>Splitting and numbers\<close>

lemma strrchr_split_append: "c \<notin> set t \<Longrightarrow> strrchr_split c (s @ c # t) = Some (s, t)"
proof -
  assume "c \<notin> set t"
  then have "dropWhile (\<lambda>x. x \<noteq> c) (rev t @ c # rev s) = c # rev s"
    and "takeWhile (\<lambda>x. x \<noteq> c) (rev t @ c # rev s) = rev t"
    by (subst dropWhile_append2, auto, subst takeWhile_append2, auto)
  then show ?thesis by (simp add: strrchr_split_def)
qed

lemma dotted_chars: "c \<in> set (dotted a b d e) \<Longrightarrow> isdigit c \<or> c = CHR ''.''"
  by (auto simp: dotted_def dest: set_nat_to_dec)

lemma dotted_avoids [simp]:
  "CHR '':'' \<notin> set (dotted a b c d)" "CHR ''/'' \<notin> set (dotted a b c d)" "CHR ''@'' \<notin> set (dotted a b c d)"
  by (auto dest!: dotted_chars)

lemma dotted_length:
  "a \<le> 255 \<Longrightarrow> b \<le> 255 \<Longrightarrow> c \<le> 255 \<Longrightarrow> d \<le> 255 \<Longrightarrow> length (dotted a b c d) \<le> 15"
  using length_nat_to_dec_3 [of a] length_nat_to_dec_3 [of b] length_nat_to_dec_3 [of c] length_nat_to_dec_3 [of d]
  by (simp add: dotted_def)

lemma unat_word_of_int_nonneg: "0 \<le> i \<Longrightarrow> i \<le> 128 \<Longrightarrow> unat (word_of_int i :: u32) = nat i"
  by (simp add: unat_eq_nat_uint uint_word_of_int)

lemma compare_addrs_defined:
  assumes "\<And>s bs. pton s = Some bs \<Longrightarrow> length bs \<le> 16" "0 \<le> len" "len \<le> 128"
  shows "compare_addrs pton ip ipmask len \<noteq> None"
  using assms by (auto simp: compare_addrs_def comp_with_mask_bits unat_word_of_int_nonneg nat_le_iff
      split: option.splits)

lemma compare_addrs4_defined: "0 \<le> len \<Longrightarrow> len \<le> 128 \<Longrightarrow> compare_addrs inet_pton4 ip ipmask len \<noteq> None"
  by (rule compare_addrs_defined) (auto dest: inet_pton4_length)

lemma compare_addrs6_defined: "0 \<le> len \<Longrightarrow> len \<le> 128 \<Longrightarrow> compare_addrs inet_pton6 ip ipmask len \<noteq> None"
  by (rule compare_addrs_defined) (auto dest: inet_pton6_length)

lemma comp_with_mask_negative:
  assumes "length a \<le> 16" "- (2 ^ 31) \<le> len" "len < 0"
  shows "comp_with_mask a b (word_of_int len) = None"
proof -
  have "len mod 2 ^ 32 = (len + 2 ^ 32) mod 2 ^ 32" by simp
  also have "\<dots> = len + 2 ^ 32" using assms(2,3) by (intro mod_pos_pos_trivial) simp_all
  finally have "uint (word_of_int len :: u32) = len + 2 ^ 32"
    by (simp add: uint_word_of_int take_bit_eq_mod)
  then have "unat (word_of_int len :: u32) \<ge> 2 ^ 31" using assms(2) by (simp add: unat_eq_nat_uint nat_le_iff)
  then have "2 ^ 28 \<le> unat (word_of_int len :: u32) div 8" by simp
  then have "length a < unat (word_of_int len :: u32) div 8" using assms(1) by simp
  then show ?thesis by (simp add: comp_with_mask_def Let_def)
qed

lemma match_cidr_negative:
  assumes "strrchr_split CHR ''@'' (rb_strlcpy L s1 BUFSIZE) = Some (msk, rest)"
    and "strrchr_split CHR ''@'' (rb_strlcpy L s2 (NICKLEN + USERLEN + HOSTLEN + 6)) = Some (address, ip)"
    and "strrchr_split CHR ''/'' rest = Some (ipmask, len)" "atoi len < 0"
    and "CHR '':'' \<notin> set ip" "CHR '':'' \<notin> set ipmask"
    and "inet_pton4 ip = Some ia" "inet_pton4 ipmask = Some ma"
  shows "match_cidr L s1 s2 = None"
proof -
  have "length (ia @ replicate (IN6ADDRSZ - length ia) 0) \<le> 16"
    using inet_pton4_length [OF assms(7)] by simp
  with assms atoi_bounds(1) [of len] show ?thesis
    by (simp add: match_cidr_def compare_addrs_def comp_with_mask_negative)
qed

lemma negative_example: "match_cidr list_rblib ''*!*@10.0.0.0/-8'' ''n!u@10.0.0.1'' = None"
proof (rule match_cidr_negative)
  show "strrchr_split CHR ''@'' (rb_strlcpy list_rblib ''*!*@10.0.0.0/-8'' BUFSIZE) = Some (''*!*'', ''10.0.0.0/-8'')"
    by code_simp
  show "strrchr_split CHR ''@'' (rb_strlcpy list_rblib ''n!u@10.0.0.1'' (NICKLEN + USERLEN + HOSTLEN + 6)) =
      Some (''n!u'', ''10.0.0.1'')" by code_simp
  show "strrchr_split CHR ''/'' ''10.0.0.0/-8'' = Some (''10.0.0.0'', ''-8'')" by code_simp
  show "atoi ''-8'' < 0" by code_simp
  show "inet_pton4 ''10.0.0.1'' = Some [10, 0, 0, 1]" by code_simp
  show "inet_pton4 ''10.0.0.0'' = Some [10, 0, 0, 0]" by code_simp
qed simp_all

subsection \<open>Properties\<close>

text \<open>
  C23. \<open>comp_with_mask\<close> compares exactly the first \<open>mask\<close> bits of the two addresses, counted
  from the most significant bit of the first byte, and reads no byte outside them when the
  prefix is no longer than the addresses.
\<close>

theorem comp_with_mask_correct:
  assumes "length addr = length dest" "unat msk \<le> 8 * length addr"
  shows "comp_with_mask addr dest msk = Some (\<forall>i < unat msk. addr_bit addr i = addr_bit dest i)"
  by (rule comp_with_mask_bits [OF assms])

theorem comp_with_mask_correct_witness:
  "comp_with_mask [10, 1, 128, 0] [10, 1, 255, 7] 17 =
     Some (\<forall>i < unat (17 :: u32). addr_bit [10, 1, 128, 0] i = addr_bit [10, 1, 255, 7] i)"
  by (rule comp_with_mask_correct) simp_all

text \<open>
  C33. Parsing undoes printing for IPv4: \<open>inet_pton4\<close> maps the dotted decimal form of four
  octets back to these octets.
\<close>

theorem inet_pton4_roundtrip:
  assumes "a \<le> 255" "b \<le> 255" "c \<le> 255" "d \<le> 255"
  shows "inet_pton4 (dotted a b c d) = Some [of_nat a, of_nat b, of_nat c, of_nat d]"
  by (rule inet_pton4_dotted [OF assms])

theorem inet_pton4_roundtrip_witness:
  "inet_pton4 (dotted 192 168 0 255) = Some [of_nat 192, of_nat 168, of_nat 0, of_nat 255]"
  by (rule inet_pton4_roundtrip) simp_all

text \<open>
  The byte-by-byte shift at the end of \<open>inet_pton6\<close> inserts the zeros that \<open>::\<close> stands
  for: the bytes before the double colon stay, the bytes after it move to the end of the
  address, the gap between them is zero.
\<close>

theorem shift_loop_correct:
  assumes "c \<le> length t" "length t < IN6ADDRSZ"
  shows "shift_loop 1 (length t - c) c (t @ replicate (IN6ADDRSZ - length t) 0) =
    take c t @ replicate (IN6ADDRSZ - length t) 0 @ drop c t"
  by (rule pton6_shift [OF assms])

theorem shift_loop_correct_witness:
  "shift_loop 1 (length [1, 2, 3, 4 :: byte] - 2) 2 ([1, 2, 3, 4] @ replicate (IN6ADDRSZ - length [1, 2, 3, 4 :: byte]) 0) =
     take 2 [1, 2, 3, 4] @ replicate (IN6ADDRSZ - length [1, 2, 3, 4 :: byte]) 0 @ drop 2 [1, 2, 3, 4 :: byte]"
  by (rule shift_loop_correct) simp_all

text \<open>
  \<open>match_cidr\<close> on IPv4: for a mask \<open>m@a.b.c.d/len\<close> with \<open>1 \<le> len \<le> 32\<close> and a user
  \<open>n@a'.b'.c'.d'\<close> that fit its buffers, it answers yes exactly when the first \<open>len\<close> bits of
  the addresses agree and \<open>match\<close> accepts the parts before the \<open>@\<close>.
\<close>

theorem match_cidr_ipv4:
  assumes lib: "rblib_ok L" and len: "1 \<le> len" "len \<le> 32"
    and fit: "length mu \<le> 400" "length au \<le> 72"
    and m: "a \<le> 255" "b \<le> 255" "c \<le> 255" "d \<le> 255"
    and u: "a' \<le> 255" "b' \<le> 255" "c' \<le> 255" "d' \<le> 255"
  shows "match_cidr L (mu @ ''@'' @ dotted a b c d @ ''/'' @ nat_to_dec len) (au @ ''@'' @ dotted a' b' c' d') =
    Some ((\<forall>i < len. addr_bit (map of_nat [a', b', c', d']) i = addr_bit (map of_nat [a, b, c, d]) i) \<and>
      match mu au)"
proof -
  have dl: "length (dotted a b c d) \<le> 15" "length (dotted a' b' c' d') \<le> 15"
    using m u by (simp_all add: dotted_length)
  have ll: "length (nat_to_dec len) \<le> 3" using len by (simp add: length_nat_to_dec_3)
  have slash: "CHR ''@'' \<notin> set (nat_to_dec len)" "CHR ''/'' \<notin> set (nat_to_dec len)"
    using set_nat_to_dec by fastforce+
  have c1: "rb_strlcpy L (mu @ ''@'' @ dotted a b c d @ ''/'' @ nat_to_dec len) BUFSIZE =
      mu @ CHR ''@'' # (dotted a b c d @ CHR ''/'' # nat_to_dec len)"
    using rblib_ok.strlcpy_id [OF lib] fit dl ll by simp
  have c2: "rb_strlcpy L (au @ ''@'' @ dotted a' b' c' d') (NICKLEN + USERLEN + HOSTLEN + 6) =
      au @ CHR ''@'' # dotted a' b' c' d'"
    using rblib_ok.strlcpy_id [OF lib] fit dl by simp
  have bits: "addr_bit (xs @ replicate 12 0) i = addr_bit xs i" if "i < 32" "length xs = 4" for xs i
  proof -
    have "i div 8 < length xs" using that by auto
    then show ?thesis by (simp add: addr_bit_def nth_append)
  qed
  define X Y where "X = map (of_nat :: nat \<Rightarrow> byte) [a', b', c', d']" and "Y = map (of_nat :: nat \<Rightarrow> byte) [a, b, c, d]"
  have XY: "length X = 4" "length Y = 4" by (simp_all add: X_def Y_def)
  have "inet_pton4 (dotted a' b' c' d') = Some X" "inet_pton4 (dotted a b c d) = Some Y"
    using m u by (simp_all add: X_def Y_def inet_pton4_dotted)
  moreover have "unat (word_of_int (int len) :: u32) = len"
    using len unat_word_of_int_nonneg [of "int len"] by simp
  ultimately have "compare_addrs inet_pton4 (dotted a' b' c' d') (dotted a b c d) (int len) =
      Some (\<forall>i < len. addr_bit (X @ replicate 12 0) i = addr_bit (Y @ replicate 12 0) i)"
    using len XY by (subst compare_addrs_def) (simp add: comp_with_mask_bits del: of_int_of_nat_eq)
  also have "\<dots> = Some (\<forall>i < len. addr_bit X i = addr_bit Y i)"
    using len XY by (auto simp: bits)
  finally have "compare_addrs inet_pton4 (dotted a' b' c' d') (dotted a b c d) (int len) =
      Some (\<forall>i < len. addr_bit X i = addr_bit Y i)" .
  moreover note c1 [THEN arg_cong, of "strrchr_split CHR ''@''"] c2 [THEN arg_cong, of "strrchr_split CHR ''@''"]
  ultimately show ?thesis
    using len slash unfolding match_cidr_def X_def [symmetric] Y_def [symmetric]
    by (simp only: strrchr_split_append option.case prod.case set_append set_simps dotted_avoids
        Un_iff insert_iff if_False char.inject simp_thms) (simp add: strrchr_split_append atoi_nat_to_dec)
qed

theorem match_cidr_ipv4_witness:
  "match_cidr list_rblib (''*!*'' @ ''@'' @ dotted 10 1 0 0 @ ''/'' @ nat_to_dec 16) (''n!u'' @ ''@'' @ dotted 10 1 9 9) =
    Some ((\<forall>i < 16. addr_bit (map of_nat [10, 1, 9, 9]) i = addr_bit (map of_nat [10, 1, 0, 0]) i) \<and>
      match ''*!*'' ''n!u'')"
  by (rule match_cidr_ipv4 [OF list_rb.rblib_ok_axioms]) simp_all

text \<open>
  Memory safety of \<open>match_cidr\<close> up to the sign of the prefix length: the comparison
  leaves its sixteen-byte arrays only when the number after the slash is negative.
\<close>

theorem match_cidr_overread_negative:
  assumes "match_cidr L s1 s2 = None"
  shows "\<exists>msk rest ipmask len. strrchr_split CHR ''@'' (rb_strlcpy L s1 BUFSIZE) = Some (msk, rest) \<and>
    strrchr_split CHR ''/'' rest = Some (ipmask, len) \<and> atoi len < 0"
proof -
  from assms obtain msk rest where 1: "strrchr_split CHR ''@'' (rb_strlcpy L s1 BUFSIZE) = Some (msk, rest)"
    by (auto simp: match_cidr_def split: option.splits)
  from assms 1 obtain address ip where
    2: "strrchr_split CHR ''@'' (rb_strlcpy L s2 (NICKLEN + USERLEN + HOSTLEN + 6)) = Some (address, ip)"
    by (auto simp: match_cidr_def split: option.splits)
  from assms 1 2 obtain ipmask len where 3: "strrchr_split CHR ''/'' rest = Some (ipmask, len)"
    by (auto simp: match_cidr_def split: option.splits)
  have "atoi len < 0"
  proof (rule ccontr)
    assume "\<not> atoi len < 0"
    with assms 1 2 3 compare_addrs4_defined [of "atoi len" ip ipmask] compare_addrs6_defined [of "atoi len" ip ipmask]
    show False by (auto simp: match_cidr_def Let_def split: if_splits)
  qed
  with 1 3 show ?thesis by blast
qed

theorem match_cidr_overread_negative_witness:
  "\<exists>msk rest ipmask len. strrchr_split CHR ''@'' (rb_strlcpy list_rblib ''*!*@10.0.0.0/-8'' BUFSIZE) = Some (msk, rest) \<and>
    strrchr_split CHR ''/'' rest = Some (ipmask, len) \<and> atoi len < 0"
  by (rule match_cidr_overread_negative [OF negative_example])

text \<open>
  A negative prefix length is not rejected: on two well-formed IPv4 addresses every
  negative number after the slash makes \<open>match_cidr\<close> compare bytes outside its arrays.
\<close>

theorem match_cidr_negative_prefix:
  assumes "strrchr_split CHR ''@'' (rb_strlcpy L s1 BUFSIZE) = Some (msk, rest)"
    and "strrchr_split CHR ''@'' (rb_strlcpy L s2 (NICKLEN + USERLEN + HOSTLEN + 6)) = Some (address, ip)"
    and "strrchr_split CHR ''/'' rest = Some (ipmask, len)" "atoi len < 0"
    and "CHR '':'' \<notin> set ip" "CHR '':'' \<notin> set ipmask"
    and "inet_pton4 ip = Some ia" "inet_pton4 ipmask = Some ma"
  shows "match_cidr L s1 s2 = None"
  by (rule match_cidr_negative [OF assms])

theorem match_cidr_negative_prefix_witness:
  "match_cidr list_rblib ''*!*@10.0.0.0/-8'' ''n!u@10.0.0.1'' = None"
proof (rule match_cidr_negative_prefix)
  show "strrchr_split CHR ''@'' (rb_strlcpy list_rblib ''*!*@10.0.0.0/-8'' BUFSIZE) = Some (''*!*'', ''10.0.0.0/-8'')"
    by code_simp
  show "strrchr_split CHR ''@'' (rb_strlcpy list_rblib ''n!u@10.0.0.1'' (NICKLEN + USERLEN + HOSTLEN + 6)) =
      Some (''n!u'', ''10.0.0.1'')" by code_simp
  show "strrchr_split CHR ''/'' ''10.0.0.0/-8'' = Some (''10.0.0.0'', ''-8'')" by code_simp
  show "atoi ''-8'' < 0" by code_simp
  show "inet_pton4 ''10.0.0.1'' = Some [10, 0, 0, 1]" by code_simp
  show "inet_pton4 ''10.0.0.0'' = Some [10, 0, 0, 0]" by code_simp
qed simp_all

text \<open>
  A mask and an address of different families always match: with an IPv4 mask and an
  IPv6 user (or the other way round) and a non-zero prefix length, \<open>match_cidr\<close> answers yes
  whatever the nick, user and addresses are.
\<close>

theorem match_cidr_mixed_family:
  assumes "strrchr_split CHR ''@'' (rb_strlcpy L s1 BUFSIZE) = Some (msk, rest)"
    and "strrchr_split CHR ''@'' (rb_strlcpy L s2 (NICKLEN + USERLEN + HOSTLEN + 6)) = Some (address, ip)"
    and "strrchr_split CHR ''/'' rest = Some (ipmask, len)" "atoi len \<noteq> 0"
    and "(CHR '':'' \<in> set ip) \<noteq> (CHR '':'' \<in> set ipmask)"
  shows "match_cidr L s1 s2 = Some True"
  using assms by (auto simp: match_cidr_def)

theorem match_cidr_mixed_family_witness:
  "match_cidr list_rblib ''bad!bad@10.0.0.0/8'' ''good!user@2001:db8::1'' = Some True"
proof (rule match_cidr_mixed_family)
  show "strrchr_split CHR ''@'' (rb_strlcpy list_rblib ''bad!bad@10.0.0.0/8'' BUFSIZE) = Some (''bad!bad'', ''10.0.0.0/8'')"
    by code_simp
  show "strrchr_split CHR ''@'' (rb_strlcpy list_rblib ''good!user@2001:db8::1'' (NICKLEN + USERLEN + HOSTLEN + 6)) =
      Some (''good!user'', ''2001:db8::1'')" by code_simp
  show "strrchr_split CHR ''/'' ''10.0.0.0/8'' = Some (''10.0.0.0'', ''8'')" by code_simp
  show "atoi ''8'' \<noteq> 0" by code_simp
qed simp

end
