(* ===== verification/Tools.thy ===== *)
theory Tools
  imports Match
begin

section \<open>Tools: durations, case conversion and name checks (src/tools.c, src/rserv.c)\<close>

text \<open>
  \<open>get_duration\<close>, \<open>get_short_duration\<close>, \<open>get_temp_time\<close>, \<open>lcase\<close>, \<open>ucase\<close> and
  \<open>strip_tabs\<close> of \<open>src/tools.c\<close>, and the checks \<open>valid_servername\<close> and \<open>valid_sid\<close> of
  \<open>src/rserv.c\<close>. A \<open>time_t\<close> is a 64-bit signed integer; \<open>get_temp_time\<close> relies on its
  wrap-around, which is written out with \<open>s64\<close>.
\<close>

subsection \<open>Integers of the C program\<close>

definition s64 :: "int \<Rightarrow> int" where
  "s64 i = signed_take_bit 63 i"

definition s32 :: "int \<Rightarrow> int" where
  "s32 i = signed_take_bit 31 i"

text \<open>C division and remainder truncate towards zero.\<close>

definition cdiv :: "int \<Rightarrow> int \<Rightarrow> int" where
  "cdiv a b = sgn a * sgn b * (\<bar>a\<bar> div \<bar>b\<bar>)"

definition cmod :: "int \<Rightarrow> int \<Rightarrow> int" where
  "cmod a b = a - b * cdiv a b"

subsection \<open>Durations\<close>

text \<open>The local variables \<open>days\<close>, \<open>hours\<close>, \<open>minutes\<close> and the remaining \<open>seconds\<close>.\<close>

definition duration_fields :: "int \<Rightarrow> int \<times> int \<times> int \<times> int" where
  "duration_fields seconds =
     (let days = s32 (cdiv seconds 86400);
          seconds = cmod seconds 86400;
          hours = s32 (cdiv seconds 3600);
          seconds = cmod seconds 3600;
          minutes = s32 (cdiv seconds 60);
          seconds = cmod seconds 60
      in (days, hours, minutes, seconds))"

definition pad2 :: "string \<Rightarrow> string" where
  "pad2 s = (if length s < 2 then replicate (2 - length s) CHR ''0'' @ s else s)"

definition get_duration :: "int \<Rightarrow> string" where
  "get_duration seconds =
     (let (days, hours, minutes, secs) = duration_fields seconds
      in take (BUFSIZE - 1) (int_to_dec days @ '' day'' @ (if days = 1 then '''' else ''s'') @ '', '' @
           int_to_dec hours @ '':'' @ pad2 (int_to_dec minutes) @ '':'' @
           pad2 (nat_to_dec (nat (secs mod 2 ^ 64)))))"

definition get_short_duration :: "int \<Rightarrow> string" where
  "get_short_duration seconds =
     (let (days, hours, minutes, _) = duration_fields seconds
      in take (BUFSIZE - 1) (int_to_dec days @ ''d'' @ int_to_dec hours @ ''h'' @ int_to_dec minutes @ ''m''))"

text \<open>The loop of \<open>get_temp_time\<close>: \<^const>\<open>None\<close> is \<open>return 0\<close> from inside it;
  \<open>(*duration) & 0xF\<close> is the code modulo 16.\<close>

fun temp_time_loop :: "string \<Rightarrow> int \<Rightarrow> int option" where
  "temp_time_loop [] result = Some result"
| "temp_time_loop (c # duration) result =
     (if IsDigit c then temp_time_loop duration (s64 (s64 (result * 10) + int (of_char c mod 16)))
      else if result = 0 \<or> duration \<noteq> [] then None
      else if c = CHR ''h'' \<or> c = CHR ''H'' then temp_time_loop duration (s64 (result * 60))
      else if c = CHR ''d'' \<or> c = CHR ''D'' then temp_time_loop duration (s64 (result * 1440))
      else if c = CHR ''w'' \<or> c = CHR ''W'' then temp_time_loop duration (s64 (result * 10080))
      else None)"

abbreviation MAX_TEMP_MINUTES :: int where
  "MAX_TEMP_MINUTES \<equiv> 60 * 24 * 7 * 52"

definition get_temp_time :: "string \<Rightarrow> int" where
  "get_temp_time duration =
     (case temp_time_loop duration 0 of
        None \<Rightarrow> 0
      | Some result \<Rightarrow>
          let result = (if result > MAX_TEMP_MINUTES \<or> result < 0 then MAX_TEMP_MINUTES else result)
          in result * 60)"

subsection \<open>Strings\<close>

fun case_loop :: "(char \<Rightarrow> char) \<Rightarrow> string \<Rightarrow> nat \<Rightarrow> string" where
  "case_loop f [] i = []"
| "case_loop f (c # text) i = (if i < BUFSIZE - 1 then f c # case_loop f text (Suc i) else [])"

definition lcase :: "string \<Rightarrow> string" where
  "lcase text = case_loop ToLower text 0"

definition ucase :: "string \<Rightarrow> string" where
  "ucase text = case_loop ToUpper text 0"

fun strip_tabs :: "string \<Rightarrow> nat \<Rightarrow> string" where
  "strip_tabs [] len = []"
| "strip_tabs (c # src) len =
     (if len > 0 then (if c = CHR 0x09 then CHR '' '' else c) # strip_tabs src (len - 1) else [])"

subsection \<open>Names\<close>

fun servername_loop :: "string \<Rightarrow> nat \<Rightarrow> nat option" where
  "servername_loop [] dots = Some dots"
| "servername_loop (c # name) dots =
     (if \<not> IsServChar c then None
      else servername_loop name (if c = CHR ''.'' then Suc dots else dots))"

definition valid_servername :: "string \<Rightarrow> bool" where
  "valid_servername name =
     (if name \<noteq> [] \<and> IsDigit (hd name) then False
      else case servername_loop name 0 of None \<Rightarrow> False | Some dots \<Rightarrow> dots \<noteq> 0)"

definition valid_sid :: "string \<Rightarrow> bool" where
  "valid_sid name =
     (case name of
        [a, b, c] \<Rightarrow> IsDigit a \<and> (IsDigit b \<or> IsLetter b) \<and> (IsDigit c \<or> IsLetter c)
      | _ \<Rightarrow> False)"

subsection \<open>Lemmas\<close>

lemma CharAttrs_digit: "list_all (\<lambda>i. (CharAttrs ! i AND DIGIT_C \<noteq> 0) = (48 \<le> i \<and> i \<le> 57)) [0..<256]"
  by code_simp

lemma IsDigit_isdigit: "IsDigit c \<longleftrightarrow> isdigit c"
proof -
  have "(of_char c :: nat) \<in> set [0..<256]" by simp
  with CharAttrs_digit have "(CharAttrs ! of_char c AND DIGIT_C \<noteq> 0) = (48 \<le> (of_char c :: nat) \<and> (of_char c :: nat) \<le> 57)"
    by (simp add: list_all_iff del: set_upt upt_rec_numeral)
  then show ?thesis by (simp add: has_attr_def isdigit_def)
qed

lemma s64_id: "- (2 ^ 63) \<le> i \<Longrightarrow> i < 2 ^ 63 \<Longrightarrow> s64 i = i"
  by (simp add: s64_def signed_take_bit_int_eq_self)

lemma s32_id: "- (2 ^ 31) \<le> i \<Longrightarrow> i < 2 ^ 31 \<Longrightarrow> s32 i = i"
  by (simp add: s32_def signed_take_bit_int_eq_self)

lemma cdiv_nonneg: "0 \<le> a \<Longrightarrow> 0 < b \<Longrightarrow> cdiv a b = a div b"
  by (cases "a = 0") (simp_all add: cdiv_def)

lemma cmod_nonneg: "0 \<le> a \<Longrightarrow> 0 < b \<Longrightarrow> cmod a b = a mod b"
  by (simp add: cmod_def cdiv_nonneg minus_mult_div_eq_mod)

lemma digit_low_nibble: "isdigit c \<Longrightarrow> of_char c mod 16 = digit_val c"
proof -
  assume "isdigit c"
  then have "48 \<le> (of_char c :: nat)" "(of_char c :: nat) \<le> 57" by (simp_all add: isdigit_def)
  then show ?thesis unfolding digit_val_def by presburger
qed

lemma digits_val_mono: "a \<le> digits_val a xs"
proof (induction xs arbitrary: a)
  case (Cons c xs)
  have "a \<le> 10 * a + digit_val c" by simp
  also have "\<dots> \<le> digits_val (10 * a + digit_val c) xs" by (rule Cons.IH)
  finally show ?case by simp
qed simp

lemma temp_time_loop_digits:
  assumes "\<forall>c \<in> set ds. isdigit c" "int (digits_val acc ds) < 2 ^ 63"
  shows "temp_time_loop (ds @ rest) (int acc) = temp_time_loop rest (int (digits_val acc ds))"
  using assms
proof (induction ds arbitrary: acc)
  case Nil
  then show ?case by simp
next
  case (Cons c ds)
  from Cons.prems have d: "isdigit c" by simp
  with Cons.prems(2) digits_val_mono [of "10 * acc + digit_val c" ds] have b: "int (10 * acc + digit_val c) < 2 ^ 63"
    by simp
  with d have "s64 (s64 (int acc * 10) + int (of_char c mod 16)) = int (10 * acc + digit_val c)"
    by (simp add: digit_low_nibble s64_id)
  with Cons d show ?case by (simp add: IsDigit_isdigit del: of_nat_add of_nat_mult)
qed

lemma temp_time_number:
  "int n < 2 ^ 63 \<Longrightarrow> temp_time_loop (nat_to_dec n @ rest) 0 = temp_time_loop rest (int n)"
  using temp_time_loop_digits [of "nat_to_dec n" 0 rest] by (simp add: digits_val_nat_to_dec set_nat_to_dec)

lemma not_isdigit_units [simp]: "\<not> isdigit CHR ''h''" "\<not> isdigit CHR ''d''" "\<not> isdigit CHR ''w''"
  by (simp_all add: isdigit_def)

lemma case_loop_take: "case_loop f s i = map f (take (BUFSIZE - 1 - i) s)"
proof (induction f s i rule: case_loop.induct)
  case (2 f c s i)
  show ?case
  proof (cases "i < BUFSIZE - 1")
    case True
    then have "BUFSIZE - 1 - i = Suc (BUFSIZE - 1 - Suc i)" by simp
    with 2 True show ?thesis by (simp only: case_loop.simps take_Suc_Cons list.map if_True)
  qed simp
qed simp

lemma lcase_take: "lcase s = map ToLower (take (BUFSIZE - 1) s)"
  by (simp add: lcase_def case_loop_take)

subsection \<open>Properties\<close>

text \<open>
  \<open>get_temp_time\<close> never leaves the range from zero to one year (52 weeks), whatever
  string it is given, overflowing ones included.
\<close>

theorem get_temp_time_bounds: "0 \<le> get_temp_time s \<and> get_temp_time s \<le> MAX_TEMP_MINUTES * 60"
  by (auto simp: get_temp_time_def Let_def split: option.splits)

text \<open>
  \<open>get_temp_time\<close> reads a number of minutes, hours, days or weeks exactly, up to the cap
  of one year, as long as the number of minutes fits a signed 64-bit integer.
\<close>

theorem get_temp_time_value:
  assumes "(u, k) \<in> {('''', 1), (''h'', 60), (''d'', 1440), (''w'', 10080)}" "int n * k < 2 ^ 63"
  shows "get_temp_time (nat_to_dec n @ u) = min (int n * k) MAX_TEMP_MINUTES * 60"
proof -
  have n: "int n < 2 ^ 63" using assms by auto
  have s: "s64 (int n * k) = int n * k" using assms by (intro s64_id) auto
  show ?thesis
    using assms(1) n s
    by (auto simp: get_temp_time_def temp_time_number IsDigit_isdigit Let_def min_def)
qed

theorem get_temp_time_value_witness:
  "get_temp_time (nat_to_dec 3 @ ''d'') = min (int 3 * 1440) MAX_TEMP_MINUTES * 60"
  by (rule get_temp_time_value) simp_all

text \<open>
  The overflow check of \<open>get_temp_time\<close> only sees a wrap-around to a negative number:
  a duration of \<open>2 ^ 64 + n\<close> minutes with a small \<open>n\<close> is read as \<open>n\<close> minutes and not capped.
\<close>

theorem get_temp_time_wraps: "get_temp_time ''18446744073709551617'' = 60"
  by code_simp

text \<open>
  The fields that \<open>get_duration\<close> and \<open>get_short_duration\<close> print are the duration in mixed
  radix: they add up to it and the hours, minutes and seconds are in range.
\<close>

theorem duration_fields_correct:
  assumes "0 \<le> secs" "secs < 2 ^ 31 * 86400" "duration_fields secs = (d, h, m, s)"
  shows "d * 86400 + h * 3600 + m * 60 + s = secs \<and> 0 \<le> d \<and> 0 \<le> h \<and> h < 24 \<and> 0 \<le> m \<and> m < 60 \<and> 0 \<le> s \<and> s < 60"
proof -
  have d: "d = secs div 86400" and h: "h = secs mod 86400 div 3600"
    and m: "m = secs mod 86400 mod 3600 div 60" and s: "s = secs mod 86400 mod 3600 mod 60"
    using assms by (auto simp: duration_fields_def Let_def cdiv_nonneg cmod_nonneg s32_id)
  have "secs mod 86400 < 86400" "secs mod 86400 mod 3600 < 3600" by simp_all
  then show ?thesis unfolding d h m s using assms(1) by (simp add: pos_imp_zdiv_nonneg_iff) linarith
qed

theorem duration_fields_correct_witness:
  "1 * 86400 + 1 * 3600 + 1 * 60 + 1 = (90061 :: int) \<and> duration_fields 90061 = (1, 1, 1, 1)"
proof -
  have f: "duration_fields 90061 = (1, 1, 1, 1)" by code_simp
  with duration_fields_correct [of 90061 1 1 1 1] show ?thesis by simp
qed

end
