(* ===== verification/Chmode.thy ===== *)
theory Chmode
  imports Cidr Tools
begin

section \<open>Chmode: channel modes and their strings (src/c_mode.c, src/channel.c)\<close>

text \<open>
  The mode record \<open>struct chmode\<close> and \<open>chmode_table\<close>, printing (\<open>chmode_to_string\<close>,
  \<open>chmode_to_string_simple\<close>), parsing (\<open>valid_key\<close>, \<open>parse_simple_mode\<close>), the check of a
  ban mask (\<open>valid_ban\<close>), the ban lists (\<open>add_ban\<close>, \<open>del_ban\<close>) and the user modes of
  \<open>src/client.c\<close> (\<open>string_to_umode\<close>, \<open>umode_to_string\<close>). A ban is the string it points to:
  \<open>add_ban\<close> keeps the masks of a list distinct up to case, so the string determines the
  pointer.
\<close>

subsection \<open>Modes\<close>

abbreviation MODE_INVITEONLY :: u32 where "MODE_INVITEONLY \<equiv> 0x0001"
abbreviation MODE_MODERATED :: u32 where "MODE_MODERATED \<equiv> 0x0002"
abbreviation MODE_NOEXTERNAL :: u32 where "MODE_NOEXTERNAL \<equiv> 0x0004"
abbreviation MODE_PRIVATE :: u32 where "MODE_PRIVATE \<equiv> 0x0008"
abbreviation MODE_SECRET :: u32 where "MODE_SECRET \<equiv> 0x0010"
abbreviation MODE_TOPIC :: u32 where "MODE_TOPIC \<equiv> 0x0020"
abbreviation MODE_LIMIT :: u32 where "MODE_LIMIT \<equiv> 0x0040"
abbreviation MODE_KEY :: u32 where "MODE_KEY \<equiv> 0x0080"
abbreviation MODE_REGONLY :: u32 where "MODE_REGONLY \<equiv> 0x0100"
abbreviation MODE_SSLONLY :: u32 where "MODE_SSLONLY \<equiv> 0x0200"

abbreviation KEYLEN :: nat where "KEYLEN \<equiv> 24"

record chmode =
  mode :: u32
  key :: string
  limit :: int

definition no_mode :: chmode where
  "no_mode = \<lparr>mode = 0, key = [], limit = 0\<rparr>"

text \<open>\<open>chmode_table\<close>: mode bit, mode character, whether the mode prevents users joining.\<close>

definition chmode_table :: "(u32 \<times> char \<times> bool) list" where
  "chmode_table =
     [(MODE_INVITEONLY, CHR ''i'', True), (MODE_MODERATED, CHR ''m'', False),
      (MODE_NOEXTERNAL, CHR ''n'', False), (MODE_PRIVATE, CHR ''p'', False),
      (MODE_SECRET, CHR ''s'', False), (MODE_TOPIC, CHR ''t'', False),
      (MODE_REGONLY, CHR ''r'', True), (MODE_SSLONLY, CHR ''S'', True)]"

definition mode_letters :: "u32 \<Rightarrow> string" where
  "mode_letters m = map (\<lambda>(b, c, p). c) (filter (\<lambda>(b, c, p). m AND b \<noteq> 0) chmode_table)"

definition chmode_to_string :: "chmode \<Rightarrow> string" where
  "chmode_to_string m =
     CHR ''+'' # mode_letters (mode m) @
     (if limit m \<noteq> 0 \<and> key m \<noteq> [] then ''lk '' @ int_to_dec (limit m) @ '' '' @ key m
      else if limit m \<noteq> 0 then ''l '' @ int_to_dec (limit m)
      else if key m \<noteq> [] then ''k '' @ key m
      else [])"

definition chmode_to_string_simple :: "chmode \<Rightarrow> string" where
  "chmode_to_string_simple m =
     CHR ''+'' # mode_letters (mode m) @ (if limit m \<noteq> 0 then ''l'' else []) @ (if key m \<noteq> [] then ''k'' else [])"

definition has_prevent_join_mode :: "chmode \<Rightarrow> bool" where
  "has_prevent_join_mode m \<longleftrightarrow>
     list_ex (\<lambda>(b, c, p). p \<and> mode m AND b \<noteq> 0) chmode_table \<or> key m \<noteq> [] \<or> limit m \<noteq> 0"

subsection \<open>Parsing\<close>

text \<open>\<open>valid_key\<close>: each character loses its top bit; a colon or anything up to the space
  makes the key invalid.\<close>

fun fix_key :: "string \<Rightarrow> string option" where
  "fix_key [] = Some []"
| "fix_key (s # buf) =
     (let c = (char_of ((of_char s :: nat) mod 128) :: char) in
      if c = CHR '':'' \<or> (of_char c :: nat) \<le> of_char CHR '' '' then None
      else map_option (Cons c) (fix_key buf))"

definition valid_key :: "rblib \<Rightarrow> string \<Rightarrow> string option" where
  "valid_key L data = fix_key (rb_strlcpy L data (KEYLEN + 1))"

definition set_bits :: "bool \<Rightarrow> u32 \<Rightarrow> chmode \<Rightarrow> chmode" where
  "set_bits dir b m = m\<lparr>mode := (if dir then mode m OR b else mode m AND NOT b)\<rparr>"

text \<open>The loop of \<open>parse_simple_mode\<close>: it returns the index after the last parameter used,
  or 0 for an invalid mode, together with the mode it has built so far.\<close>

fun simple_mode_loop :: "rblib \<Rightarrow> bool \<Rightarrow> parv \<Rightarrow> string \<Rightarrow> bool \<Rightarrow> nat \<Rightarrow> chmode \<Rightarrow> nat \<times> chmode" where
  "simple_mode_loop L allow_sslonly ps [] dir start m = (start, m)"
| "simple_mode_loop L allow_sslonly ps (p # str) dir start m =
     (if p = CHR ''+'' then simple_mode_loop L allow_sslonly ps str True start m
      else if p = CHR ''-'' then simple_mode_loop L allow_sslonly ps str False start m
      else if p = CHR ''i'' then simple_mode_loop L allow_sslonly ps str dir start (set_bits dir MODE_INVITEONLY m)
      else if p = CHR ''m'' then simple_mode_loop L allow_sslonly ps str dir start (set_bits dir MODE_MODERATED m)
      else if p = CHR ''n'' then simple_mode_loop L allow_sslonly ps str dir start (set_bits dir MODE_NOEXTERNAL m)
      else if p = CHR ''p'' then simple_mode_loop L allow_sslonly ps str dir start (set_bits dir MODE_PRIVATE m)
      else if p = CHR ''s'' then simple_mode_loop L allow_sslonly ps str dir start (set_bits dir MODE_SECRET m)
      else if p = CHR ''t'' then simple_mode_loop L allow_sslonly ps str dir start (set_bits dir MODE_TOPIC m)
      else if p = CHR ''r'' then simple_mode_loop L allow_sslonly ps str dir start (set_bits dir MODE_REGONLY m)
      else if p = CHR ''S'' then
        (if allow_sslonly then simple_mode_loop L allow_sslonly ps str dir start (set_bits dir MODE_SSLONLY m)
         else (0, m))
      else if p = CHR ''k'' then
        (if EmptyString (arg ps start) then (0, m)
         else if dir then
           (case valid_key L (arg ps start) of
              None \<Rightarrow> (0, m)
            | Some fixed \<Rightarrow>
                simple_mode_loop L allow_sslonly ps str dir (Suc start)
                  ((set_bits True MODE_KEY m)\<lparr>key := rb_strlcpy L fixed (KEYLEN + 1)\<rparr>))
         else simple_mode_loop L allow_sslonly ps str dir (Suc start) ((set_bits False MODE_KEY m)\<lparr>key := []\<rparr>))
      else if p = CHR ''l'' then
        (if dir then
           (if EmptyString (arg ps start) then (0, m)
            else simple_mode_loop L allow_sslonly ps str dir (Suc start)
                   ((set_bits True MODE_LIMIT m)\<lparr>limit := atoi (arg ps start)\<rparr>))
         else simple_mode_loop L allow_sslonly ps str dir start ((set_bits False MODE_LIMIT m)\<lparr>limit := 0\<rparr>))
      else (0, m))"

definition parse_simple_mode :: "rblib \<Rightarrow> chmode \<Rightarrow> parv \<Rightarrow> nat \<Rightarrow> nat \<Rightarrow> bool \<Rightarrow> nat \<times> chmode" where
  "parse_simple_mode L m ps parc start allow_sslonly =
     (if parc \<le> start then (0, m)
      else simple_mode_loop L allow_sslonly ps (arg ps start) True (Suc start) m)"

subsection \<open>Bans\<close>

text \<open>\<open>p = strchr(s, c); *p++ = 0\<close>: the parts before and after the first \<open>c\<close>.\<close>

definition strchr_split :: "char \<Rightarrow> string \<Rightarrow> (string \<times> string) option" where
  "strchr_split c s =
     (if c \<in> set s then Some (takeWhile (\<lambda>x. x \<noteq> c) s, tl (dropWhile (\<lambda>x. x \<noteq> c) s)) else None)"

definition valid_ban :: "string \<Rightarrow> bool" where
  "valid_ban banstr =
     (if \<not> list_all IsBanChar banstr then False
      else case strchr_split CHR ''!'' banstr of None \<Rightarrow> False | Some (nick, rest) \<Rightarrow>
           case strchr_split CHR ''@'' rest of None \<Rightarrow> False | Some (user, host) \<Rightarrow>
             if EmptyString nick \<or> EmptyString user \<or> EmptyString host then False
             else if length nick > NICKLEN \<or> length user > USERLEN \<or> length host > HOSTLEN then False
             else True)"

definition add_ban :: "rblib \<Rightarrow> string \<Rightarrow> string list \<Rightarrow> string option \<times> string list" where
  "add_ban L banstr list =
     (if list_ex (\<lambda>b. irccmp b banstr = 0) list then (None, list)
      else (Some banstr, dlinkAdd (rb_strs L) banstr list))"

definition del_ban :: "rblib \<Rightarrow> string \<Rightarrow> string list \<Rightarrow> string option \<times> string list" where
  "del_ban L banstr list =
     (case find (\<lambda>b. irccmp banstr b = 0) list of
        Some b \<Rightarrow> (Some b, dlinkDelete (rb_strs L) b list)
      | None \<Rightarrow> (None, list))"

subsection \<open>User modes\<close>

abbreviation CLIENT_INVIS :: u32 where "CLIENT_INVIS \<equiv> 0x001"
abbreviation CLIENT_OPER :: u32 where "CLIENT_OPER \<equiv> 0x002"
abbreviation CLIENT_ADMIN :: u32 where "CLIENT_ADMIN \<equiv> 0x004"

definition upd_flag :: "bool \<Rightarrow> u32 \<Rightarrow> u32 \<Rightarrow> u32" where
  "upd_flag dir b m = (if dir then m OR b else m AND NOT b)"

fun umode_loop :: "string \<Rightarrow> bool \<Rightarrow> u32 \<Rightarrow> u32" where
  "umode_loop [] dir umode = umode"
| "umode_loop (p # str) dir umode =
     (if p = CHR ''+'' then umode_loop str True umode
      else if p = CHR ''-'' then umode_loop str False umode
      else if p = CHR ''a'' then umode_loop str dir (upd_flag dir CLIENT_ADMIN umode)
      else if p = CHR ''i'' then umode_loop str dir (upd_flag dir CLIENT_INVIS umode)
      else if p = CHR ''o'' then umode_loop str dir (upd_flag dir CLIENT_OPER umode)
      else umode_loop str dir umode)"

definition string_to_umode :: "string \<Rightarrow> u32 \<Rightarrow> u32" where
  "string_to_umode p current_umode = umode_loop p True current_umode"

definition umode_to_string :: "u32 \<Rightarrow> string" where
  "umode_to_string umode =
     ''+'' @ (if umode AND CLIENT_ADMIN \<noteq> 0 then ''a'' else []) @
     (if umode AND CLIENT_INVIS \<noteq> 0 then ''i'' else []) @
     (if umode AND CLIENT_OPER \<noteq> 0 then ''o'' else [])"

subsection \<open>Well-formed modes\<close>

definition key_char :: "char \<Rightarrow> bool" where
  "key_char c \<longleftrightarrow> 32 < (of_char c :: nat) \<and> (of_char c :: nat) < 128 \<and> c \<noteq> CHR '':''"

text \<open>The key field and its mode bit agree, and the key is one that \<open>valid_key\<close> accepts.\<close>

definition key_ok :: "chmode \<Rightarrow> bool" where
  "key_ok m \<longleftrightarrow> (mode m AND MODE_KEY \<noteq> 0 \<longleftrightarrow> key m \<noteq> []) \<and> length (key m) \<le> KEYLEN \<and> list_all key_char (key m)"

definition wf_chmode :: "chmode \<Rightarrow> bool" where
  "wf_chmode m \<longleftrightarrow> key_ok m \<and> mode m AND NOT 0x3FF = 0 \<and>
     (mode m AND MODE_LIMIT \<noteq> 0 \<longleftrightarrow> limit m \<noteq> 0) \<and> 0 \<le> limit m \<and> limit m < 2 ^ 31"

text \<open>The parameters that \<open>chmode_to_string\<close> writes, separated by spaces.\<close>

definition chmode_words :: "chmode \<Rightarrow> string list" where
  "chmode_words m =
     (CHR ''+'' # mode_letters (mode m) @ (if limit m \<noteq> 0 then ''l'' else []) @ (if key m \<noteq> [] then ''k'' else [])) #
     (if limit m \<noteq> 0 then [int_to_dec (limit m)] else []) @ (if key m \<noteq> [] then [key m] else [])"

fun unwords :: "string list \<Rightarrow> string" where
  "unwords [] = []"
| "unwords [w] = w"
| "unwords (w # ws) = w @ '' '' @ unwords ws"

definition tbl_bits :: "u32 \<Rightarrow> (u32 \<times> char \<times> bool) list \<Rightarrow> u32" where
  "tbl_bits x tbl = foldr (\<lambda>(b, c, p) acc. (if x AND b \<noteq> 0 then b else 0) OR acc) tbl 0"

fun ban_distinct :: "string list \<Rightarrow> bool" where
  "ban_distinct [] \<longleftrightarrow> True"
| "ban_distinct (b # bs) \<longleftrightarrow> (\<forall>b' \<in> set bs. irccmp b b' \<noteq> 0) \<and> ban_distinct bs"

subsection \<open>Lemmas\<close>

lemma and_single_bit: "(if x AND push_bit k 1 \<noteq> 0 then push_bit k 1 else 0) = x AND push_bit k (1 :: u32)"
  by (rule bit_eqI) (auto simp: bit_simps and_exp_eq_0_iff_not_bit [of x k] push_bit_eq_mult)

lemma and_single_bits [flag_simps]:
  "(if x AND 0x1 \<noteq> 0 then 0x1 else 0) = x AND (0x1 :: u32)"
  "(if x AND 0x2 \<noteq> 0 then 0x2 else 0) = x AND (0x2 :: u32)"
  "(if x AND 0x4 \<noteq> 0 then 0x4 else 0) = x AND (0x4 :: u32)"
  "(if x AND 0x8 \<noteq> 0 then 0x8 else 0) = x AND (0x8 :: u32)"
  "(if x AND 0x10 \<noteq> 0 then 0x10 else 0) = x AND (0x10 :: u32)"
  "(if x AND 0x20 \<noteq> 0 then 0x20 else 0) = x AND (0x20 :: u32)"
  "(if x AND 0x40 \<noteq> 0 then 0x40 else 0) = x AND (0x40 :: u32)"
  "(if x AND 0x80 \<noteq> 0 then 0x80 else 0) = x AND (0x80 :: u32)"
  "(if x AND 0x100 \<noteq> 0 then 0x100 else 0) = x AND (0x100 :: u32)"
  "(if x AND 0x200 \<noteq> 0 then 0x200 else 0) = x AND (0x200 :: u32)"
  using and_single_bit [of x 0] and_single_bit [of x 1] and_single_bit [of x 2] and_single_bit [of x 3] and_single_bit [of x 4] and_single_bit [of x 5] and_single_bit [of x 6] and_single_bit [of x 7] and_single_bit [of x 8] and_single_bit [of x 9]
  by (simp_all add: push_bit_eq_mult cong: if_cong)

lemma tbl_bits_chmode_table: "tbl_bits x chmode_table = x AND 0x33F"
proof -
  have "tbl_bits x chmode_table = (x AND 0x1) OR (x AND 0x2) OR (x AND 0x4) OR (x AND 0x8) OR (x AND 0x10) OR
      (x AND 0x20) OR (x AND 0x100) OR (x AND 0x200)"
    by (simp only: tbl_bits_def chmode_table_def foldr.simps comp_apply prod.case and_single_bits id_apply or.right_neutral)
  also have "\<dots> = x AND 0x33F"
    by (simp add: bit.conj_disj_distrib [symmetric])
  finally show ?thesis .
qed

lemma simple_mode_loop_flag:
  assumes "(b, c, p) \<in> set chmode_table"
  shows "simple_mode_loop L True ps (c # str) True start m = simple_mode_loop L True ps str True start (set_bits True b m)"
  using assms by (auto simp: chmode_table_def)

lemma simple_mode_loop_letters:
  assumes "set tbl \<subseteq> set chmode_table"
  shows "simple_mode_loop L True ps (map (\<lambda>(b, c, p). c) (filter (\<lambda>(b, c, p). x AND b \<noteq> 0) tbl) @ rest) True start m =
    simple_mode_loop L True ps rest True start (m\<lparr>mode := mode m OR tbl_bits x tbl\<rparr>)"
  using assms
proof (induction tbl arbitrary: m)
  case Nil
  then show ?case by (simp add: tbl_bits_def)
next
  case (Cons t tbl)
  obtain b c p where t: "t = (b, c, p)" by (cases t) auto
  with Cons.prems have mem: "(b, c, p) \<in> set chmode_table" by simp
  show ?case
    using Cons.IH Cons.prems t
    by (simp del: simple_mode_loop.simps add: simple_mode_loop_flag [OF mem] set_bits_def tbl_bits_def or.assoc)
qed

lemma simple_mode_loop_mode_letters:
  "simple_mode_loop L True ps (mode_letters x @ rest) True start m =
    simple_mode_loop L True ps rest True start (m\<lparr>mode := mode m OR (x AND 0x33F)\<rparr>)"
  using simple_mode_loop_letters [of chmode_table L ps x rest start m]
  by (simp add: mode_letters_def tbl_bits_chmode_table)

lemma fix_key_id: "list_all key_char s \<Longrightarrow> fix_key s = Some s"
  by (induction s) (auto simp: key_char_def Let_def)

lemma fix_key_ok: "fix_key s = Some t \<Longrightarrow> list_all key_char t \<and> length t = length s"
proof (induction s arbitrary: t)
  case (Cons c s)
  then show ?case by (auto simp: Let_def key_char_def split: if_splits)
qed simp

context rblib_ok
begin

lemma valid_key_id: "list_all key_char k \<Longrightarrow> length k \<le> KEYLEN \<Longrightarrow> valid_key L k = Some k"
  by (simp add: valid_key_def strlcpy_id fix_key_id)

lemma valid_key_ok:
  "valid_key L d = Some k \<Longrightarrow> d \<noteq> [] \<Longrightarrow> list_all key_char k \<and> length k \<le> KEYLEN \<and> k \<noteq> []"
  by (auto simp: valid_key_def strlcpy_take min_def dest!: fix_key_ok split: if_splits)

end

lemma set_bits_simps [simp]:
  "key (set_bits d b m) = key m" "limit (set_bits d b m) = limit m"
  "mode (set_bits d b m) = (if d then mode m OR b else mode m AND NOT b)"
  by (simp_all add: set_bits_def)

lemma int_to_dec_not_Nil [simp]: "int_to_dec i \<noteq> []"
  by (simp add: int_to_dec_def)

lemma atoi_int_to_dec: "0 \<le> i \<Longrightarrow> i < 2 ^ 31 \<Longrightarrow> atoi (int_to_dec i) = i"
  using atoi_nat_to_dec [of "nat i"] by (simp add: int_to_dec_def nat_less_iff)

lemma unwords_chmode_words: "unwords (chmode_words m) = chmode_to_string m"
  by (simp add: chmode_words_def chmode_to_string_def)

lemma wf_mode_split:
  assumes "x AND NOT 0x3FF = (0 :: u32)"
  shows "(x AND 0x33F) OR (x AND MODE_LIMIT) OR (x AND MODE_KEY) = x"
proof -
  have "x = x AND (0x33F OR (MODE_LIMIT OR (MODE_KEY OR NOT 0x3FF)))" by simp
  also have "\<dots> = (x AND 0x33F) OR (x AND MODE_LIMIT) OR (x AND MODE_KEY) OR (x AND NOT 0x3FF)"
    by (simp only: bit.conj_disj_distrib or.assoc)
  finally show ?thesis using assms by simp
qed

subsection \<open>Correctness\<close>

context rblib_ok
begin

lemma simple_mode_loop_key_limit:
  assumes "mode m0 = x AND 0x33F" "key m0 = []" "limit m0 = 0"
    and "list_all key_char k" "length k \<le> KEYLEN" "0 \<le> l" "l < 2 ^ 31"
    and "ps = w # (if l \<noteq> 0 then [int_to_dec l] else []) @ (if k \<noteq> [] then [k] else [])"
  shows "simple_mode_loop L True ps ((if l \<noteq> 0 then ''l'' else []) @ (if k \<noteq> [] then ''k'' else [])) True 1 m0 =
    (length ps, \<lparr>mode = (x AND 0x33F) OR (if l \<noteq> 0 then MODE_LIMIT else 0) OR (if k \<noteq> [] then MODE_KEY else 0),
       key = k, limit = l\<rparr>)"
  using assms
  by (auto simp: arg_def EmptyString_def valid_key_id strlcpy_id atoi_int_to_dec set_bits_def or.assoc)

end

lemma and_MODE_LIMIT: "x AND MODE_LIMIT = (if x AND MODE_LIMIT \<noteq> 0 then MODE_LIMIT else 0)"
  by (rule and_single_bits(7) [symmetric])

lemma and_MODE_KEY: "x AND MODE_KEY = (if x AND MODE_KEY \<noteq> 0 then MODE_KEY else 0)"
  by (rule and_single_bits(8) [symmetric])

text \<open>
  C22. The mode string that \<open>chmode_to_string\<close> writes for a channel, split into its words, is
  read back by \<open>parse_simple_mode\<close> as the very same mode (bits, key and limit), and every word
  is consumed.
\<close>

theorem chmode_roundtrip:
  assumes "rblib_ok L" and "wf_chmode m"
  shows "unwords (chmode_words m) = chmode_to_string m \<and>
    parse_simple_mode L no_mode (chmode_words m) (length (chmode_words m)) 0 True = (length (chmode_words m), m)"
proof (rule conjI [OF unwords_chmode_words])
  let ?ps = "chmode_words m"
  let ?kl = "(if limit m \<noteq> 0 then ''l'' else []) @ (if key m \<noteq> [] then ''k'' else [])"
  have "parse_simple_mode L no_mode ?ps (length ?ps) 0 True =
      simple_mode_loop L True ?ps (mode_letters (mode m) @ ?kl) True 1 no_mode"
    by (simp add: parse_simple_mode_def chmode_words_def arg_def)
  also have "\<dots> = simple_mode_loop L True ?ps ?kl True 1 (no_mode\<lparr>mode := mode m AND 0x33F\<rparr>)"
    by (simp only: simple_mode_loop_mode_letters) (simp add: no_mode_def)
  also have "\<dots> = (length ?ps, \<lparr>mode = (mode m AND 0x33F) OR (if limit m \<noteq> 0 then MODE_LIMIT else 0) OR
       (if key m \<noteq> [] then MODE_KEY else 0), key = key m, limit = limit m\<rparr>)"
    using assms by (intro rblib_ok.simple_mode_loop_key_limit)
      (auto simp: wf_chmode_def key_ok_def no_mode_def chmode_words_def)
  also have "(mode m AND 0x33F) OR (if limit m \<noteq> 0 then MODE_LIMIT else 0) OR
       (if key m \<noteq> [] then MODE_KEY else 0) = mode m"
    using assms(2) wf_mode_split [of "mode m"] and_MODE_LIMIT [of "mode m"] and_MODE_KEY [of "mode m"]
    by (auto simp: wf_chmode_def key_ok_def)
  finally show "parse_simple_mode L no_mode ?ps (length ?ps) 0 True = (length ?ps, m)" by simp
qed

theorem chmode_roundtrip_witness:
  "chmode_to_string \<lparr>mode = 0xE1, key = ''sesame'', limit = 42\<rparr> = ''+itlk 42 sesame'' \<and>
   parse_simple_mode list_rblib no_mode [''+itlk'', ''42'', ''sesame''] 3 0 True =
     (3, \<lparr>mode = 0xE1, key = ''sesame'', limit = 42\<rparr>)"
proof -
  let ?m = "\<lparr>mode = 0xE1, key = ''sesame'', limit = 42\<rparr> :: chmode"
  have wf: "wf_chmode ?m" by (simp add: wf_chmode_def key_ok_def key_char_def)
  have w: "chmode_words ?m = [''+itlk'', ''42'', ''sesame'']"
    by (simp add: chmode_words_def mode_letters_def chmode_table_def int_to_dec_def nat_to_dec.simps) code_simp
  show ?thesis
    using chmode_roundtrip [OF list_rb.rblib_ok_axioms wf] by (simp add: w numeral_3_eq_3)
qed

lemma key_ok_set_bits: "b AND MODE_KEY = 0 \<Longrightarrow> key_ok (set_bits d b m) \<longleftrightarrow> key_ok m"
proof -
  assume b: "b AND MODE_KEY = 0"
  then have "(mode m OR b) AND MODE_KEY = mode m AND MODE_KEY"
    by (simp add: bit.conj_disj_distrib2)
  moreover have "(mode m AND NOT b) AND MODE_KEY = mode m AND MODE_KEY"
  proof -
    have "NOT b AND MODE_KEY = (b AND MODE_KEY) OR (NOT b AND MODE_KEY)" using b by simp
    also have "\<dots> = (b OR NOT b) AND MODE_KEY" by (simp only: bit.conj_disj_distrib2)
    finally show ?thesis by (simp add: and.assoc)
  qed
  ultimately show ?thesis by (simp add: key_ok_def)
qed

lemma key_ok_limit: "key_ok (m\<lparr>limit := l\<rparr>) \<longleftrightarrow> key_ok m"
  by (simp add: key_ok_def)

context rblib_ok
begin

lemma key_ok_set_key:
  "valid_key L d = Some k \<Longrightarrow> d \<noteq> [] \<Longrightarrow> key_ok ((set_bits True MODE_KEY m)\<lparr>key := rb_strlcpy L k (KEYLEN + 1)\<rparr>)"
  by (frule (1) valid_key_ok) (simp add: key_ok_def strlcpy_id bit.conj_disj_distrib2)

lemma key_ok_clear_key: "key_ok ((set_bits False MODE_KEY m)\<lparr>key := []\<rparr>)"
  by (simp add: key_ok_def and.assoc)

lemma simple_mode_loop_key_ok:
  "key_ok m \<Longrightarrow> key_ok (snd (simple_mode_loop L s ps str dir start m))"
proof (induction str arbitrary: dir start m)
  case (Cons p str)
  then show ?case
    by (cases s) (auto simp: key_ok_set_bits key_ok_limit key_ok_clear_key EmptyString_def
        intro!: Cons.IH key_ok_set_key [simplified] split: option.split)
qed simp

end

text \<open>
  The key a channel records is always a valid one: when the mode bit for the key and the
  key field agree before \<open>parse_simple_mode\<close>, they agree after it, on the error paths too, and
  the key fits its buffer and holds only printable characters other than space and colon.
\<close>

theorem parse_simple_mode_key:
  assumes "rblib_ok L" and "key_ok m"
  shows "key_ok (snd (parse_simple_mode L m ps parc start allow_sslonly))"
  using assms rblib_ok.simple_mode_loop_key_ok by (simp add: parse_simple_mode_def)

theorem parse_simple_mode_key_witness:
  "parse_simple_mode list_rblib no_mode [''+k-z'', ''se:same''] 2 0 True = (0, no_mode) \<and>
   key_ok (snd (parse_simple_mode list_rblib no_mode [''+kz'', ''sesame''] 2 0 True))"
proof
  show "parse_simple_mode list_rblib no_mode [''+k-z'', ''se:same''] 2 0 True = (0, no_mode)" by code_simp
  show "key_ok (snd (parse_simple_mode list_rblib no_mode [''+kz'', ''sesame''] 2 0 True))"
    by (rule parse_simple_mode_key [OF list_rb.rblib_ok_axioms]) (simp add: key_ok_def no_mode_def)
qed

subsection \<open>Ban lists\<close>

lemma irccmp_0_sym: "irccmp a b = 0 \<longleftrightarrow> irccmp b a = 0"
  using irccmp_antisym [of a b] by auto

lemma ban_distinct_alt:
  "list_all cstring bs \<Longrightarrow> ban_distinct bs \<longleftrightarrow> distinct (map (map ToLower) bs)"
  by (induction bs) (auto simp: irccmp_0_iff_lower list_all_iff)

lemma list_all_mset: "mset xs = mset ys \<Longrightarrow> list_all P xs \<longleftrightarrow> list_all P ys"
  by (metis list_all_iff mset_eq_setD)

lemma ban_distinct_mset:
  "mset xs = mset ys \<Longrightarrow> list_all cstring ys \<Longrightarrow> ban_distinct xs \<longleftrightarrow> ban_distinct ys"
  using list_all_mset [of xs ys cstring] by (metis ban_distinct_alt mset_eq_imp_distinct_iff mset_map)

lemma ban_distinct_find:
  assumes "ban_distinct bs" "b \<in> set bs" "irccmp s b = 0" "list_all cstring bs" "cstring s"
  shows "find (\<lambda>x. irccmp s x = 0) bs = Some b"
  using assms by (induction bs) (auto simp: irccmp_0_iff_lower list_all_iff)

lemma ban_distinct_remove1: "ban_distinct bs \<Longrightarrow> ban_distinct (remove1 b bs)"
  by (induction bs) (auto dest: notin_set_remove1 set_remove1_subset [THEN subsetD])

lemma list_all_remove1: "list_all P bs \<Longrightarrow> list_all P (remove1 b bs)"
  by (induction bs) auto

text \<open>
  C34. The ban, exception and invex lists of a channel hold no two masks that are equal up to
  case. \<open>add_ban\<close> refuses a mask exactly when the list has it already, otherwise adds it and keeps
  the list free of duplicates; \<open>del_ban\<close> of that mask, in whatever case it is spelt, then takes
  the added mask out and leaves the bans there were before.
\<close>

theorem ban_list_correct:
  assumes "rblib_ok L" and "ban_distinct bans" and "irccmp banstr2 banstr = 0"
    and "list_all cstring (banstr # banstr2 # bans)"
  shows "(fst (add_ban L banstr bans) = None \<longleftrightarrow> (\<exists>b. b \<in> set bans \<and> irccmp b banstr = 0)) \<and>
    ban_distinct (snd (add_ban L banstr bans)) \<and>
    ban_distinct (snd (del_ban L banstr2 bans)) \<and>
    (fst (add_ban L banstr bans) = Some banstr \<longrightarrow>
       fst (del_ban L banstr2 (snd (add_ban L banstr bans))) = Some banstr \<and>
       mset (snd (del_ban L banstr2 (snd (add_ban L banstr bans)))) = mset bans)"
proof -
  note D = rblib_ok.strs_ok [OF assms(1)]
  have add: "ban_distinct (dlinkAdd (rb_strs L) banstr bans)" if "\<not> list_ex (\<lambda>b. irccmp b banstr = 0) bans"
    using that assms(2) ban_distinct_mset [of "dlinkAdd (rb_strs L) banstr bans" "banstr # bans"] assms(4)
    by (auto simp: dlink_ok.mset_Add [OF D] list_ex_iff irccmp_0_sym)
  have "mset (dlinkDelete (rb_strs L) b bans) = mset (remove1 b bans)" for b
    by (rule dlink_ok.mset_Delete_remove1 [OF D])
  then have del: "ban_distinct (dlinkDelete (rb_strs L) b bans)" for b
    using ban_distinct_mset [of "dlinkDelete (rb_strs L) b bans" "remove1 b bans"] assms(2, 4)
    by (metis ban_distinct_remove1 list.pred_inject(2) list_all_remove1)
  have found: "find (\<lambda>b. irccmp banstr2 b = 0) (dlinkAdd (rb_strs L) banstr bans) = Some banstr"
    if "\<not> list_ex (\<lambda>b. irccmp b banstr = 0) bans"
    using add [OF that] assms(3, 4) by (intro ban_distinct_find) (auto simp: dlink_ok.set_Add [OF D] list_all_iff)
  show ?thesis
    using add del found
    by (auto simp: add_ban_def del_ban_def list_ex_iff dlink_ok.mset_Delete [OF D] dlink_ok.mset_Add [OF D]
        assms(2) split: option.split)
qed

theorem ban_list_correct_witness:
  "del_ban list_rblib ''X!*@*'' (snd (add_ban list_rblib ''x!*@*'' [''a!*@*''])) = (Some ''x!*@*'', [''a!*@*'']) \<and>
   mset (snd (del_ban list_rblib ''X!*@*'' (snd (add_ban list_rblib ''x!*@*'' [''a!*@*''])))) = mset [''a!*@*'']"
proof
  show "del_ban list_rblib ''X!*@*'' (snd (add_ban list_rblib ''x!*@*'' [''a!*@*''])) = (Some ''x!*@*'', [''a!*@*''])"
    by code_simp
  have "irccmp ''X!*@*'' ''x!*@*'' = 0" by code_simp
  moreover have "fst (add_ban list_rblib ''x!*@*'' [''a!*@*'']) = Some ''x!*@*''" by code_simp
  moreover have "list_all cstring [''x!*@*'', ''X!*@*'', ''a!*@*'']" by code_simp
  ultimately show "mset (snd (del_ban list_rblib ''X!*@*'' (snd (add_ban list_rblib ''x!*@*'' [''a!*@*''])))) =
      mset [''a!*@*'']"
    using ban_list_correct [OF list_rb.rblib_ok_axioms, of "[''a!*@*'']" "''X!*@*''" "''x!*@*''"] by simp
qed

subsection \<open>User modes\<close>

lemma umode_loop_letters:
  "umode_loop (''+'' @ (if adm then ''a'' else []) @ (if ivs then ''i'' else []) @ (if opr then ''o'' else [])) True cur =
     cur OR ((if ivs then CLIENT_INVIS else 0) OR (if opr then CLIENT_OPER else 0) OR (if adm then CLIENT_ADMIN else 0))"
  by (cases adm; cases ivs; cases opr) (simp_all add: upd_flag_def or.assoc)

text \<open>
  C35. User modes survive printing and reading: applying the string of a mode word to any
  current mode sets exactly the three flags a string can carry and changes no other flag.
\<close>

theorem umode_roundtrip:
  "string_to_umode (umode_to_string umode) current = current OR (umode AND 0x7)"
proof -
  have "umode AND 0x7 = (umode AND 0x1) OR (umode AND 0x2) OR (umode AND 0x4)"
    by (simp add: bit.conj_disj_distrib [symmetric])
  also have "\<dots> = (if umode AND 0x1 \<noteq> 0 then 0x1 else 0) OR (if umode AND 0x2 \<noteq> 0 then 0x2 else 0) OR
      (if umode AND 0x4 \<noteq> 0 then 0x4 else 0)"
    by (simp only: and_single_bits)
  finally show ?thesis
    by (simp only: string_to_umode_def umode_to_string_def umode_loop_letters)
qed

subsection \<open>Ban masks\<close>

lemma strchr_split_Cons:
  "strchr_split c (x # s) = (if x = c then Some ([], s) else map_option (\<lambda>(a, b). (x # a, b)) (strchr_split c s))"
  by (simp add: strchr_split_def)

lemma strchr_split_iff: "strchr_split c s = Some (a, b) \<longleftrightarrow> s = a @ c # b \<and> c \<notin> set a"
proof (induction s arbitrary: a)
  case (Cons x s)
  note IH = Cons.IH
  show ?case
  proof (cases a)
    case Nil
    then show ?thesis by (auto simp: strchr_split_Cons)
  next
    case (Cons y a')
    then show ?thesis using IH [of a'] by (auto simp: strchr_split_Cons)
  qed
qed (simp add: strchr_split_def)

lemma strchr_split_None: "strchr_split c s = None \<longleftrightarrow> c \<notin> set s"
  by (simp add: strchr_split_def)

text \<open>
  \<open>valid_ban\<close> accepts exactly the masks of the form nick!user\<open>@\<close>host made of ban
  characters, each part non-empty and no longer than its field of a client record; the nick
  ends at the first exclamation mark and the user at the first at sign after it.
\<close>

theorem valid_ban_iff:
  "valid_ban banstr \<longleftrightarrow> list_all IsBanChar banstr \<and>
    (\<exists>nick user host. banstr = nick @ CHR ''!'' # user @ CHR ''@'' # host \<and>
      CHR ''!'' \<notin> set nick \<and> CHR ''@'' \<notin> set user \<and>
      0 < length nick \<and> length nick \<le> NICKLEN \<and> 0 < length user \<and> length user \<le> USERLEN \<and>
      0 < length host \<and> length host \<le> HOSTLEN)" (is "_ \<longleftrightarrow> ?chars \<and> ?shape")
proof
  assume v: "valid_ban banstr"
  then obtain nick rest where 1: "strchr_split CHR ''!'' banstr = Some (nick, rest)"
    by (auto simp: valid_ban_def split: if_splits option.splits)
  with v obtain user host where 2: "strchr_split CHR ''@'' rest = Some (user, host)"
    by (auto simp: valid_ban_def split: if_splits option.splits)
  have "list_all IsBanChar banstr" and "nick \<noteq> []" "length nick \<le> NICKLEN" "user \<noteq> []" "length user \<le> USERLEN"
    "host \<noteq> []" "length host \<le> HOSTLEN"
    using v 1 2 by (auto simp: valid_ban_def EmptyString_def split: if_splits)
  then show "?chars \<and> ?shape"
    using 1 2 by (auto simp: list_all_iff strchr_split_iff)
next
  assume r: "?chars \<and> ?shape"
  then obtain nick user host where s: "strchr_split CHR ''!'' banstr = Some (nick, user @ CHR ''@'' # host)"
    "strchr_split CHR ''@'' (user @ CHR ''@'' # host) = Some (user, host)"
    and l: "0 < length nick" "length nick \<le> NICKLEN" "0 < length user" "length user \<le> USERLEN"
      "0 < length host" "length host \<le> HOSTLEN"
    by (auto simp: strchr_split_iff)
  then show "valid_ban banstr" using r by (auto simp: valid_ban_def EmptyString_def list_all_iff)
qed

end
