(* ===== verification/Modebuild.thy ===== *)
theory Modebuild
  imports Chmode
begin

section \<open>Modebuild: lines of channel modes and kicks (src/modebuild.c)\<close>

text \<open>
  Services change modes and kick through a builder that gathers several changes into as few lines
  as fit. The static buffers and counters are the record \<open>mbuild\<close>; a function returns the lines
  it hands to \<open>sendto_server\<close>. \<open>strcat\<close> is concatenation; that the buffers of \<open>BUFSIZE\<close>
  characters are never overrun is proved. \<open>modebuild_lines\<close> is the specification: the changes are
  cut into chunks and each chunk is one rendered line.
\<close>

abbreviation MAX_MODES :: nat where "MAX_MODES \<equiv> 8"
abbreviation DIR_NONE :: int where "DIR_NONE \<equiv> - 1"
abbreviation DIR_ADD :: int where "DIR_ADD \<equiv> 1"
abbreviation DIR_DEL :: int where "DIR_DEL \<equiv> 0"

record mbuild =
  modebuf :: string
  parabuf :: string
  modedir :: int
  modecount :: nat
  mlen :: nat
  plen :: nat
  cur_len :: nat

definition no_mbuild :: mbuild where
  "no_mbuild = \<lparr>modebuf = [], parabuf = [], modedir = 0, modecount = 0, mlen = 0, plen = 0, cur_len = 0\<rparr>"

definition modebuild_init :: "mbuild \<Rightarrow> mbuild" where
  "modebuild_init m = m\<lparr>cur_len := mlen m, plen := 0, parabuf := [], modedir := DIR_NONE, modecount := 0\<rparr>"

text \<open>The start of a line, \<open>:uid TMODE ts channel \<close> or \<open>:name MODE channel \<close>, is written by
  \<open>snprintf\<close>, which cuts it at the buffer and returns the length it would have had.\<close>

definition modebuild_start :: "string \<Rightarrow> mbuild \<Rightarrow> mbuild" where
  "modebuild_start pfx m = modebuild_init (m\<lparr>modebuf := take (BUFSIZE - 1) pfx, mlen := length pfx\<rparr>)"

definition mode_line :: "mbuild \<Rightarrow> string" where
  "mode_line m = modebuf m @ '' '' @ parabuf m"

definition dir_sign :: "int \<Rightarrow> string" where
  "dir_sign dir = (if dir = DIR_ADD then ''+'' else ''-'')"

definition modebuild_flush :: "nat \<Rightarrow> mbuild \<Rightarrow> string list \<times> mbuild" where
  "modebuild_flush len m =
     (if cur_len m + plen m + len + 4 > BUFSIZE - 3 \<or> modecount m \<ge> MAX_MODES
      then ([mode_line m], modebuild_init (m\<lparr>modebuf := take (mlen m) (modebuf m)\<rparr>))
      else ([], m))"

definition modebuild_append :: "int \<Rightarrow> string \<Rightarrow> string option \<Rightarrow> mbuild \<Rightarrow> mbuild" where
  "modebuild_append dir ltr para m =
     (let m = (if modedir m \<noteq> dir then m\<lparr>modebuf := modebuf m @ dir_sign dir, cur_len := cur_len m + 1\<rparr> else m);
          m = m\<lparr>modebuf := modebuf m @ ltr\<rparr>;
          m = (case para of
                 None \<Rightarrow> m
               | Some a \<Rightarrow> m\<lparr>parabuf := parabuf m @ a @ '' '', modecount := modecount m + 1, plen := plen m + (length a + 1)\<rparr>)
      in m\<lparr>cur_len := cur_len m + 1\<rparr>)"

definition modebuild_add :: "int \<Rightarrow> string \<Rightarrow> string option \<Rightarrow> mbuild \<Rightarrow> string list \<times> mbuild" where
  "modebuild_add dir ltr para m =
     (let len = (case para of None \<Rightarrow> 0 | Some a \<Rightarrow> length a);
          (out, m) = modebuild_flush len m
      in (out, modebuild_append dir ltr para m))"

definition modebuild_finish :: "mbuild \<Rightarrow> string list" where
  "modebuild_finish m = (if cur_len m \<noteq> mlen m then [mode_line m] else [])"

subsection \<open>Kicks\<close>

record kickbuild =
  kickbuild_list :: "string list"
  kickbuildr_list :: "string list"

definition kickbuild_start :: "kickbuild \<Rightarrow> kickbuild" where
  "kickbuild_start k = k\<lparr>kickbuild_list := [], kickbuildr_list := []\<rparr>"

definition kickbuild_add :: "rblib \<Rightarrow> string \<Rightarrow> string \<Rightarrow> kickbuild \<Rightarrow> kickbuild" where
  "kickbuild_add L nick reason k =
     k\<lparr>kickbuild_list := dlinkAddTail (rb_strs L) nick (kickbuild_list k),
       kickbuildr_list := dlinkAddTail (rb_strs L) reason (kickbuildr_list k)\<rparr>"

text \<open>The loop takes the head of the list of reasons for each nick; an empty list of reasons is a
  NULL pointer read. \<open>src\<close> and \<open>chan\<close> are the uid of the service and the name of the channel.\<close>

fun kickbuild_loop :: "string \<Rightarrow> string \<Rightarrow> string list \<Rightarrow> string list \<Rightarrow> string list option" where
  "kickbuild_loop src chan [] rs = Some []"
| "kickbuild_loop src chan (n # ns) [] = None"
| "kickbuild_loop src chan (n # ns) (r # rs) =
     map_option (Cons ('':'' @ src @ '' KICK '' @ chan @ '' '' @ n @ '' :'' @ r)) (kickbuild_loop src chan ns rs)"

definition kickbuild_finish :: "string \<Rightarrow> string \<Rightarrow> kickbuild \<Rightarrow> (string list \<times> kickbuild) option" where
  "kickbuild_finish src chan k =
     map_option (\<lambda>out. (out, k\<lparr>kickbuild_list := [], kickbuildr_list := drop (length (kickbuild_list k)) (kickbuildr_list k)\<rparr>))
       (kickbuild_loop src chan (kickbuild_list k) (kickbuildr_list k))"

subsection \<open>What the builder promises\<close>

text \<open>A mode change: direction, mode letter and argument.\<close>

type_synonym change = "int \<times> string \<times> string option"

definition change_args :: "change list \<Rightarrow> nat" where
  "change_args cs = length (filter (\<lambda>(d, l, a). a \<noteq> None) cs)"

definition render :: "string \<Rightarrow> change list \<Rightarrow> string" where
  "render pfx cs = pfx @ concat (map (\<lambda>(d, l, a). dir_sign d @ l) cs) @ '' '' @
     concat (map (\<lambda>(d, l, a). case a of None \<Rightarrow> [] | Some x \<Rightarrow> x @ '' '') cs)"

text \<open>The run of a builder over a list of changes.\<close>

fun modebuild_run :: "change list \<Rightarrow> mbuild \<Rightarrow> string list" where
  "modebuild_run [] m = modebuild_finish m"
| "modebuild_run ((d, l, a) # cs) m = (let (out, m) = modebuild_add d l a m in out @ modebuild_run cs m)"

definition change_ok :: "string \<Rightarrow> change \<Rightarrow> bool" where
  "change_ok pfx c = (case c of (d, l, a) \<Rightarrow> d \<noteq> DIR_NONE \<and> length l = 1 \<and>
     length pfx + (case a of None \<Rightarrow> 0 | Some x \<Rightarrow> length x) + 7 \<le> BUFSIZE)"

text \<open>The builder holds the chunk \<open>cs\<close>.\<close>

definition mb_holds :: "string \<Rightarrow> change list \<Rightarrow> mbuild \<Rightarrow> bool" where
  "mb_holds pfx cs m \<longleftrightarrow> mode_line m = render pfx cs \<and> mlen m = length pfx \<and> take (mlen m) (modebuf m) = pfx \<and>
     cur_len m = length (modebuf m) \<and> plen m = length (parabuf m) \<and> modedir m = DIR_NONE \<and>
     modebuf m = pfx @ concat (map (\<lambda>(d, l, a). dir_sign d @ l) cs) \<and>
     modecount m = change_args cs \<and> change_args cs \<le> MAX_MODES \<and> cur_len m + plen m \<le> BUFSIZE - 4"


subsection \<open>Correctness\<close>

lemma mb_holds_start: "length pfx + 7 \<le> BUFSIZE \<Longrightarrow> mb_holds pfx [] (modebuild_start pfx m)"
  by (simp add: mb_holds_def modebuild_start_def modebuild_init_def mode_line_def render_def change_args_def)

lemma mb_holds_init:
  assumes "mb_holds pfx cs m" "length pfx + 7 \<le> BUFSIZE"
  shows "mb_holds pfx [] (modebuild_init (m\<lparr>modebuf := take (mlen m) (modebuf m)\<rparr>))"
  using assms by (auto simp: mb_holds_def modebuild_init_def mode_line_def render_def change_args_def)

lemma mb_holds_append:
  assumes "mb_holds pfx cs m" "change_ok pfx (d, l, a)" "change_args cs < MAX_MODES"
    and "cur_len m + plen m + (case a of None \<Rightarrow> 0 | Some x \<Rightarrow> length x) + 4 \<le> BUFSIZE - 3"
  shows "mb_holds pfx (cs @ [(d, l, a)]) (modebuild_append d l a m)"
  using assms
  by (auto simp: mb_holds_def modebuild_append_def mode_line_def render_def change_args_def change_ok_def dir_sign_def
      Let_def split: option.splits)

lemma modebuild_add_cases:
  assumes "mb_holds pfx pend m" "change_ok pfx (d, l, a)"
  obtains m' where "modebuild_add d l a m = ([], m')" "mb_holds pfx (pend @ [(d, l, a)]) m'"
  | m' where "modebuild_add d l a m = ([render pfx pend], m')" "pend \<noteq> []" "mb_holds pfx [(d, l, a)] m'"
proof (cases "cur_len m + plen m + (case a of None \<Rightarrow> 0 | Some x \<Rightarrow> length x) + 4 > BUFSIZE - 3 \<or> modecount m \<ge> MAX_MODES")
  case True
  let ?m = "modebuild_init (m\<lparr>modebuf := take (mlen m) (modebuf m)\<rparr>)"
  have eq: "modebuild_add d l a m = ([render pfx pend], modebuild_append d l a ?m)"
  proof -
    have "modebuild_flush (case a of None \<Rightarrow> 0 | Some x \<Rightarrow> length x) m = ([mode_line m], ?m)"
      using True by (simp only: modebuild_flush_def if_True)
    then show ?thesis using assms(1) by (simp add: modebuild_add_def mb_holds_def)
  qed
  have "length pfx + 7 \<le> BUFSIZE" using assms(2) by (auto simp: change_ok_def)
  then have "mb_holds pfx [] ?m" using mb_holds_init [OF assms(1)] by simp
  then have "mb_holds pfx ([] @ [(d, l, a)]) (modebuild_append d l a ?m)"
    using assms(2) by (intro mb_holds_append) (auto simp: mb_holds_def modebuild_init_def change_args_def change_ok_def split: option.splits)
  moreover have "pend \<noteq> []"
    using True assms by (auto simp: mb_holds_def change_args_def change_ok_def mode_line_def render_def split: option.splits)
  ultimately show thesis using eq that(2) by simp
next
  case False
  then have "modebuild_add d l a m = ([], modebuild_append d l a m)"
    by (simp add: modebuild_add_def modebuild_flush_def)
  moreover have "mb_holds pfx (pend @ [(d, l, a)]) (modebuild_append d l a m)"
    using False assms by (intro mb_holds_append) (auto simp: mb_holds_def)
  ultimately show thesis using that(1) by blast
qed

lemma mb_holds_line:
  assumes "mb_holds pfx cs m"
  shows "length (render pfx cs) \<le> BUFSIZE - 3 \<and> change_args cs \<le> MAX_MODES"
proof -
  have "length (render pfx cs) = cur_len m + 1 + plen m" "cur_len m + plen m \<le> BUFSIZE - 4" "change_args cs \<le> MAX_MODES"
    using assms unfolding mb_holds_def mode_line_def
    by (metis One_nat_def Suc_eq_plus1 add.assoc length_append list.size(3,4) plus_1_eq_Suc, blast+)
  then show ?thesis by simp
qed

lemma mb_holds_empty: "mb_holds pfx cs m \<Longrightarrow> list_all (change_ok pfx) cs \<Longrightarrow> cur_len m = mlen m \<longleftrightarrow> cs = []"
  by (cases cs) (auto simp: mb_holds_def change_ok_def)

lemma modebuild_run_chunks:
  assumes "mb_holds pfx pend m" "list_all (change_ok pfx) (pend @ cs)"
  shows "\<exists>chunks. modebuild_run cs m = map (render pfx) chunks \<and> concat chunks = pend @ cs \<and>
    list_all (\<lambda>k. k \<noteq> [] \<and> change_args k \<le> MAX_MODES \<and> length (render pfx k) \<le> BUFSIZE - 3) chunks"
  using assms
proof (induction cs arbitrary: pend m)
  case Nil
  show ?case
  proof (cases "pend = []")
    case True
    then show ?thesis using Nil mb_holds_empty [of pfx pend m] by (intro exI [of _ "[]"]) (simp add: modebuild_finish_def)
  next
    case False
    then have "modebuild_run [] m = map (render pfx) [pend]"
      using Nil mb_holds_empty [of pfx pend m] by (simp add: modebuild_finish_def) (simp add: mb_holds_def)
    then show ?thesis using False mb_holds_line [OF Nil(1)] by (intro exI [of _ "[pend]"]) simp
  qed
next
  case (Cons c cs)
  obtain d l a where c: "c = (d, l, a)" by (cases c) auto
  then have ok: "change_ok pfx (d, l, a)" using Cons.prems(2) by simp
  from Cons.prems(1) ok show ?case
  proof (cases rule: modebuild_add_cases)
    case (1 m')
    then show ?thesis using Cons.IH [of "pend @ [c]" m'] Cons.prems(2) c by simp
  next
    case (2 m')
    have "list_all (change_ok pfx) ([c] @ cs)" using Cons.prems(2) by simp
    then obtain chunks where "modebuild_run cs m' = map (render pfx) chunks" "concat chunks = [c] @ cs"
      "list_all (\<lambda>k. k \<noteq> [] \<and> change_args k \<le> MAX_MODES \<and> length (render pfx k) \<le> BUFSIZE - 3) chunks"
      using Cons.IH [of "[c]" m'] 2(3) c by auto
    then show ?thesis using 2 c mb_holds_line [OF Cons.prems(1)]
      by (intro exI [of _ "pend # chunks"]) simp
  qed
qed

text \<open>
  C21. The mode builder loses nothing and never overruns its buffers: whatever changes are added
  between \<open>modebuild_start\<close> and \<open>modebuild_finish\<close>, the lines sent are exactly the changes in
  order, cut into non-empty chunks of at most \<open>MAX_MODES\<close> parameters, each rendered with the
  start of the line in at most \<open>BUFSIZE - 3\<close> characters, provided one change fits on a line.
\<close>

theorem modebuild_complete:
  assumes "length pfx + 7 \<le> BUFSIZE" and "list_all (change_ok pfx) cs"
  shows "\<exists>chunks. modebuild_run cs (modebuild_start pfx m) = map (render pfx) chunks \<and> concat chunks = cs \<and>
    list_all (\<lambda>k. k \<noteq> [] \<and> change_args k \<le> MAX_MODES \<and> length (render pfx k) \<le> BUFSIZE - 3) chunks"
  using modebuild_run_chunks [OF mb_holds_start [OF assms(1), of m], of cs] assms(2) by simp

theorem modebuild_complete_witness:
  "modebuild_run [(DIR_ADD, ''o'', Some ''alice''), (DIR_ADD, ''o'', Some ''bob''), (DIR_DEL, ''i'', None)]
     (modebuild_start '':srv MODE #c '' no_mbuild) = ['':srv MODE #c +o+o-i alice bob ''] \<and>
   (\<exists>chunks. concat chunks = [(DIR_ADD, ''o'', Some ''alice''), (DIR_ADD, ''o'', Some ''bob''), (DIR_DEL, ''i'', None)] \<and>
     ['':srv MODE #c +o+o-i alice bob ''] = map (render '':srv MODE #c '') chunks)"
proof -
  let ?cs = "[(DIR_ADD, ''o'', Some ''alice''), (DIR_ADD, ''o'', Some ''bob''), (DIR_DEL, ''i'', None)]"
  have run: "modebuild_run ?cs (modebuild_start '':srv MODE #c '' no_mbuild) = ['':srv MODE #c +o+o-i alice bob '']"
    by code_simp
  have "list_all (change_ok '':srv MODE #c '') ?cs" by (simp add: change_ok_def)
  then show ?thesis using run modebuild_complete [of "'':srv MODE #c ''" ?cs no_mbuild] by auto
qed

text \<open>
  A kick builder sends one KICK per nick added, in order, each with its own reason, and is
  empty afterwards; the list of reasons never runs out before the list of nicks.
\<close>

theorem kickbuild_complete:
  assumes "rblib_ok L"
  shows "kickbuild_finish src chan (fold (\<lambda>(n, r). kickbuild_add L n r) kicks (kickbuild_start k)) =
    Some (map (\<lambda>(n, r). '':'' @ src @ '' KICK '' @ chan @ '' '' @ n @ '' :'' @ r) kicks, kickbuild_start k)"
proof -
  have add: "kickbuild_add L n r k' =
      k'\<lparr>kickbuild_list := kickbuild_list k' @ [n], kickbuildr_list := kickbuildr_list k' @ [r]\<rparr>" for n r k'
    by (simp add: kickbuild_add_def dlink_ok.AddTail_append [OF rblib_ok.strs_ok [OF assms]])
  have "fold (\<lambda>(n, r). kickbuild_add L n r) kicks k' =
      k'\<lparr>kickbuild_list := kickbuild_list k' @ map fst kicks, kickbuildr_list := kickbuildr_list k' @ map snd kicks\<rparr>" for k'
    by (induction kicks arbitrary: k') (auto simp: add)
  moreover have "kickbuild_loop src chan (map fst kicks) (map snd kicks) =
      Some (map (\<lambda>(n, r). '':'' @ src @ '' KICK '' @ chan @ '' '' @ n @ '' :'' @ r) kicks)"
    by (induction kicks) auto
  ultimately show ?thesis by (simp add: kickbuild_finish_def kickbuild_start_def)
qed

theorem kickbuild_complete_witness:
  "kickbuild_finish ''1ABAAAAAA'' ''#c''
     (kickbuild_add list_rblib ''bob'' ''no'' (kickbuild_start \<lparr>kickbuild_list = [], kickbuildr_list = []\<rparr>)) =
   Some (['':1ABAAAAAA KICK #c bob :no''], \<lparr>kickbuild_list = [], kickbuildr_list = []\<rparr>)"
  using kickbuild_complete [OF list_rb.rblib_ok_axioms, of "''1ABAAAAAA''" "''#c''" "[(''bob'', ''no'')]"
      "\<lparr>kickbuild_list = [], kickbuildr_list = []\<rparr>"]
  by (simp add: kickbuild_start_def)

end
