(* ===== verification/Network.thy ===== *)
theory Network
  imports Modebuild "HOL-Library.Monad_Syntax"
begin

section \<open>Network: the shared state, hooks and output\<close>

text \<open>
  The state that the handlers share: the objects \<open>struct client\<close>, \<open>struct channel\<close>,
  \<open>struct chmember\<close>, \<open>struct conf_oper\<close> and the registered users in stores from addresses
  to records, the hash tables and global lists as lists of addresses, the connection to the
  uplink (\<open>server_p\<close>) and the lines handed to \<open>sendto_server\<close>. An address is the number of
  the allocation that made the object; a freed object is taken out of its store.

  A handler is a function \<open>net \<Rightarrow> net option\<close>. \<^const>\<open>None\<close> is undefined behaviour: a NULL or
  dangling pointer dereferenced, or a node deleted from a list it is not in. \<open>die\<close> ends the
  program and leaves its message in \<open>died\<close>.

  \<open>src/hook.c\<close>: services register functions on events. They are a field of the environment,
  next to the support library and the configuration.
\<close>

subsection \<open>Objects\<close>

record user =
  username :: string
  host :: string
  ip :: "string option"
  servername :: string
  usermask :: string
  umode :: u32
  tsinfo :: int
  flood_count :: u32
  flood_time :: int
  user_reg :: "addr option"
  oper :: "addr option"
  channels :: "addr list"

record server =
  server_users :: "addr list"
  servers :: "addr list"
  hops :: int

record service_command =
  cmd :: string
  minparc :: nat
  help_penalty :: int
  helpfile :: bool
  cmd_use :: nat
  userreg :: bool
  operonly :: bool
  operflags :: "64 word"

record service =
  svc_username :: string
  svc_host :: string
  svc_id :: string
  status :: u32
  svc_flags :: u32
  svc_channels :: "addr list"
  flood :: int
  flood_max :: int
  flood_grace :: int
  command :: "service_command list option"
  help_count :: nat
  ehelp_count :: nat
  paced_count :: nat
  ignored_count :: nat

record client =
  name :: string
  info :: string
  uid :: string
  flags :: u32
  server :: "server option"
  user :: "user option"
  service :: "service option"
  uplink :: "addr option"

record channel =
  chname :: string
  topic :: string
  topicwho :: string
  ch_tsinfo :: int
  topic_tsinfo :: int
  users :: "addr list"
  users_opped :: "addr list"
  users_unopped :: "addr list"
  services :: "addr list"
  bans :: "string list"
  excepts :: "string list"
  invites :: "string list"
  cmode :: chmode

record chmember =
  chptr :: addr
  mclient :: addr
  mflags :: u32

record conf_oper =
  op_name :: string
  op_username :: string
  op_host :: string
  op_pass :: string
  op_server :: string
  op_flags :: "64 word"
  op_sflags :: "64 word"
  refcount :: int

record user_reg =
  reg_name :: string
  last_time :: int
  reg_flags :: u32
  reg_users :: "addr list"

record client_oper =
  co_uid :: string
  co_username :: string
  co_host :: string
  co_sid :: string
  co_oper :: addr
  timestamp :: int

record lconn =
  conn_name :: string
  sid :: string
  pass :: string
  conn_flags :: u32
  conn_client :: "addr option"
  first_time :: int
  conn_last_time :: int

subsection \<open>The state\<close>

record net =
  clients :: "addr \<Rightarrow> client option"
  chans :: "addr \<Rightarrow> channel option"
  members :: "addr \<Rightarrow> chmember option"
  conf_opers :: "addr \<Rightarrow> conf_oper option"
  user_regs :: "addr \<Rightarrow> user_reg option"
  next_addr :: addr
  name_table :: "nat \<Rightarrow> addr list"
  uid_table :: "nat \<Rightarrow> addr list"
  channel_table :: "nat \<Rightarrow> addr list"
  channel_list :: "addr list"
  user_list :: "addr list"
  server_list :: "addr list"
  exited_list :: "addr list"
  service_list :: "addr list"
  oper_list :: "addr list"
  conf_oper_list :: "addr list"
  client_oper_list :: "client_oper list"
  ignore_list :: "string list"
  server_p :: "lconn option"
  opped_list :: "addr list"
  voiced_list :: "addr list"
  deopped_list :: "addr list"
  ban_list :: "string list"
  mb :: mbuild
  first_kill :: int
  num_kill :: int
  now :: int
  sendq :: "string list"
  died :: "string option"

definition empty_net :: net where
  "empty_net = \<lparr>clients = (\<lambda>_. None), chans = (\<lambda>_. None), members = (\<lambda>_. None), conf_opers = (\<lambda>_. None),
     user_regs = (\<lambda>_. None), next_addr = 0, name_table = (\<lambda>_. []), uid_table = (\<lambda>_. []),
     channel_table = (\<lambda>_. []), channel_list = [], user_list = [], server_list = [], exited_list = [],
     service_list = [], oper_list = [], conf_oper_list = [], client_oper_list = [], ignore_list = [],
     server_p = None, opped_list = [], voiced_list = [], deopped_list = [], ban_list = [], mb = no_mbuild,
     first_kill = 0, num_kill = 0, now = 0, sendq = [], died = None\<rparr>"

subsection \<open>The environment\<close>

datatype harg = ArgNull | ArgClient addr | ArgChannel addr | ArgStr string | ArgMembers "addr list" | ArgBans "string list"

type_synonym hook_func = "harg \<Rightarrow> harg \<Rightarrow> net \<Rightarrow> (int \<times> net) option"

record config =
  conf_name :: string
  conf_sid :: string
  gecos :: string
  ratbox :: bool
  min_servers :: int
  min_users :: int
  split_oper_time :: int
  client_flood_time :: int
  client_flood_max :: u32
  client_flood_max_ignore :: u32
  ping_time :: int

record env =
  lib :: rblib
  coper_lib :: "client_oper dlink"
  config_file :: config
  hooks :: "nat \<Rightarrow> hook_func list"

abbreviation HOOK_CHANNEL_JOIN :: nat where "HOOK_CHANNEL_JOIN \<equiv> 4"
abbreviation HOOK_CHANNEL_SJOIN_LOWERTS :: nat where "HOOK_CHANNEL_SJOIN_LOWERTS \<equiv> 6"
abbreviation HOOK_CHANNEL_MODE_OP :: nat where "HOOK_CHANNEL_MODE_OP \<equiv> 8"
abbreviation HOOK_CHANNEL_MODE_VOICE :: nat where "HOOK_CHANNEL_MODE_VOICE \<equiv> 10"
abbreviation HOOK_CHANNEL_MODE_BAN :: nat where "HOOK_CHANNEL_MODE_BAN \<equiv> 12"
abbreviation HOOK_CHANNEL_MODE_SIMPLE :: nat where "HOOK_CHANNEL_MODE_SIMPLE \<equiv> 14"
abbreviation HOOK_CHANNEL_OPLESS :: nat where "HOOK_CHANNEL_OPLESS \<equiv> 15"
abbreviation HOOK_CHANNEL_DESTROY :: nat where "HOOK_CHANNEL_DESTROY \<equiv> 16"
abbreviation HOOK_CHANNEL_TOPIC :: nat where "HOOK_CHANNEL_TOPIC \<equiv> 17"
abbreviation HOOK_EOB_UPLINK :: nat where "HOOK_EOB_UPLINK \<equiv> 18"
abbreviation HOOK_EOB_SERVER :: nat where "HOOK_EOB_SERVER \<equiv> 20"
abbreviation HOOK_CLIENT_CONNECT :: nat where "HOOK_CLIENT_CONNECT \<equiv> 22"
abbreviation HOOK_CLIENT_CONNECT_BURST :: nat where "HOOK_CLIENT_CONNECT_BURST \<equiv> 24"
abbreviation HOOK_CLIENT_NICKCHANGE :: nat where "HOOK_CLIENT_NICKCHANGE \<equiv> 26"
abbreviation HOOK_CLIENT_EXIT :: nat where "HOOK_CLIENT_EXIT \<equiv> 28"
abbreviation HOOK_CLIENT_EXIT_SPLIT :: nat where "HOOK_CLIENT_EXIT_SPLIT \<equiv> 29"
abbreviation HOOK_SERVER_EXIT :: nat where "HOOK_SERVER_EXIT \<equiv> 30"
abbreviation HOOK_SERVER_EXIT_WARNING :: nat where "HOOK_SERVER_EXIT_WARNING \<equiv> 31"
abbreviation HOOK_USERSERV_LOGIN_BURST :: nat where "HOOK_USERSERV_LOGIN_BURST \<equiv> 34"
abbreviation HOOK_PROTO_SQUIT_UNKNOWN :: nat where "HOOK_PROTO_SQUIT_UNKNOWN \<equiv> 36"
abbreviation HOOK_LAST_HOOK :: nat where "HOOK_LAST_HOOK \<equiv> 40"

text \<open>\<open>hook_add\<close> registers at the end of the list; \<open>hook_call\<close> stops at the first function
  that returns a negative value.\<close>

definition hook_add :: "hook_func \<Rightarrow> nat \<Rightarrow> env \<Rightarrow> env" where
  "hook_add func hook E =
     (if HOOK_LAST_HOOK \<le> hook then E else E\<lparr>hooks := (hooks E)(hook := hooks E hook @ [func])\<rparr>)"

fun run_hooks :: "hook_func list \<Rightarrow> harg \<Rightarrow> harg \<Rightarrow> net \<Rightarrow> (int \<times> net) option" where
  "run_hooks [] a b s = Some (0, s)"
| "run_hooks (func # fs) a b s = do {
     (r, s) \<leftarrow> func a b s;
     if r < 0 then Some (- 1, s) else run_hooks fs a b s
   }"

definition hook_call :: "env \<Rightarrow> nat \<Rightarrow> harg \<Rightarrow> harg \<Rightarrow> net \<Rightarrow> (int \<times> net) option" where
  "hook_call E hook a b s = (if HOOK_LAST_HOOK \<le> hook then Some (0, s) else run_hooks (hooks E hook) a b s)"

text \<open>A call whose result is not looked at.\<close>

definition hook_do :: "env \<Rightarrow> nat \<Rightarrow> harg \<Rightarrow> harg \<Rightarrow> net \<Rightarrow> net option" where
  "hook_do E hook a b s = map_option snd (hook_call E hook a b s)"

subsection \<open>Pointers and loops\<close>

definition upd_client :: "addr \<Rightarrow> (client \<Rightarrow> client) \<Rightarrow> net \<Rightarrow> net option" where
  "upd_client a f s = do { c \<leftarrow> clients s a; Some (s\<lparr>clients := (clients s)(a \<mapsto> f c)\<rparr>) }"

definition get_user :: "addr \<Rightarrow> net \<Rightarrow> user option" where
  "get_user a s = do { c \<leftarrow> clients s a; user c }"

definition upd_user :: "addr \<Rightarrow> (user \<Rightarrow> user) \<Rightarrow> net \<Rightarrow> net option" where
  "upd_user a f s = do { u \<leftarrow> get_user a s; upd_client a (\<lambda>c. c\<lparr>user := Some (f u)\<rparr>) s }"

definition get_server :: "addr \<Rightarrow> net \<Rightarrow> server option" where
  "get_server a s = do { c \<leftarrow> clients s a; server c }"

definition upd_server :: "addr \<Rightarrow> (server \<Rightarrow> server) \<Rightarrow> net \<Rightarrow> net option" where
  "upd_server a f s = do { v \<leftarrow> get_server a s; upd_client a (\<lambda>c. c\<lparr>server := Some (f v)\<rparr>) s }"

definition get_service :: "addr \<Rightarrow> net \<Rightarrow> service option" where
  "get_service a s = do { c \<leftarrow> clients s a; service c }"

definition upd_service :: "addr \<Rightarrow> (service \<Rightarrow> service) \<Rightarrow> net \<Rightarrow> net option" where
  "upd_service a f s = do { v \<leftarrow> get_service a s; upd_client a (\<lambda>c. c\<lparr>service := Some (f v)\<rparr>) s }"

definition upd_chan :: "addr \<Rightarrow> (channel \<Rightarrow> channel) \<Rightarrow> net \<Rightarrow> net option" where
  "upd_chan c f s = do { ch \<leftarrow> chans s c; Some (s\<lparr>chans := (chans s)(c \<mapsto> f ch)\<rparr>) }"

definition upd_member :: "addr \<Rightarrow> (chmember \<Rightarrow> chmember) \<Rightarrow> net \<Rightarrow> net option" where
  "upd_member m f s = do { mp \<leftarrow> members s m; Some (s\<lparr>members := (members s)(m \<mapsto> f mp)\<rparr>) }"

text \<open>\<open>rb_dlinkDelete\<close> of a node that is not in the list breaks the list: undefined.\<close>

definition dl_delete :: "rblib \<Rightarrow> addr \<Rightarrow> addr list \<Rightarrow> addr list option" where
  "dl_delete L x xs = (if x \<in> set xs then Some (dlinkDelete (rb_ptrs L) x xs) else None)"

text \<open>\<open>RB_DLINK_FOREACH\<close> and \<open>RB_DLINK_FOREACH_SAFE\<close> over the elements that the list has when
  the loop starts.\<close>

fun foreach :: "('a \<Rightarrow> net \<Rightarrow> net option) \<Rightarrow> 'a list \<Rightarrow> net \<Rightarrow> net option" where
  "foreach body [] s = Some s"
| "foreach body (x # xs) s = do { s \<leftarrow> body x s; foreach body xs s }"

lemma runs_foreach:
  assumes "I s" "\<And>x s. x \<in> set xs \<Longrightarrow> I s \<Longrightarrow> runs (f x s) I"
  shows "runs (foreach f xs s) I"
  using assms
proof (induction xs arbitrary: s)
  case (Cons x xs)
  have "runs (f x s) I" using Cons.prems by simp
  moreover have "runs (foreach f xs t) I" if "I t" for t by (rule Cons.IH [OF that]) (use Cons.prems in auto)
  ultimately show ?case by (auto elim: runs_mono)
qed simp

text \<open>A search through a bucket: \<open>Some None\<close> is the NULL that the search returns.\<close>

fun hunt :: "(addr \<Rightarrow> bool option) \<Rightarrow> addr list \<Rightarrow> addr option option" where
  "hunt p [] = Some None"
| "hunt p (a # as) = do { b \<leftarrow> p a; if b then Some (Some a) else hunt p as }"

subsection \<open>Output\<close>

abbreviation CONN_HANDSHAKE :: u32 where "CONN_HANDSHAKE \<equiv> 0x0008"
abbreviation CONN_DEAD :: u32 where "CONN_DEAD \<equiv> 0x0010"
abbreviation CONN_TS :: u32 where "CONN_TS \<equiv> 0x0040"
abbreviation CONN_CAP_SERVICE :: u32 where "CONN_CAP_SERVICE \<equiv> 0x0080"
abbreviation CONN_CAP_RSFNC :: u32 where "CONN_CAP_RSFNC \<equiv> 0x0100"
abbreviation CONN_CAP_TB :: u32 where "CONN_CAP_TB \<equiv> 0x0200"
abbreviation CONN_FLAGS_EOB :: u32 where "CONN_FLAGS_EOB \<equiv> 0x02000"
abbreviation CONN_FLAGS_SENTBURST :: u32 where "CONN_FLAGS_SENTBURST \<equiv> 0x04000"

definition sendto_server :: "string list \<Rightarrow> net \<Rightarrow> net" where
  "sendto_server parts s =
     (case server_p s of
        None \<Rightarrow> s
      | Some conn \<Rightarrow> if conn_flags conn AND CONN_DEAD \<noteq> 0 then s else s\<lparr>sendq := sendq s @ [concat parts]\<rparr>)"

definition ts6 :: "net \<Rightarrow> bool" where
  "ts6 s \<longleftrightarrow> (case server_p s of None \<Rightarrow> False | Some conn \<Rightarrow> \<not> EmptyString (sid conn))"

definition MYUID :: "env \<Rightarrow> net \<Rightarrow> string" where
  "MYUID E s = (if ts6 s then conf_sid (config_file E) else conf_name (config_file E))"

definition SVC_UID :: "client \<Rightarrow> net \<Rightarrow> string" where
  "SVC_UID c s = (if ts6 s then uid c else name c)"

definition UID :: "client \<Rightarrow> string" where
  "UID c = (if EmptyString (uid c) then name c else uid c)"

definition conn_has :: "u32 \<Rightarrow> net \<Rightarrow> bool" where
  "conn_has flag s \<longleftrightarrow> (case server_p s of None \<Rightarrow> False | Some conn \<Rightarrow> conn_flags conn AND flag \<noteq> 0)"

abbreviation sent_burst :: "net \<Rightarrow> bool" where
  "sent_burst \<equiv> conn_has CONN_FLAGS_SENTBURST"

abbreviation finished_bursting :: "net \<Rightarrow> bool" where
  "finished_bursting \<equiv> conn_has CONN_FLAGS_EOB"

text \<open>\<open>%lu\<close> of a \<open>time_t\<close> cast to \<open>unsigned long\<close>.\<close>

definition lu :: "int \<Rightarrow> string" where
  "lu i = nat_to_dec (nat (i mod 2 ^ 64))"

definition die :: "string \<Rightarrow> net \<Rightarrow> net option" where
  "die msg s = Some (s\<lparr>died := Some msg\<rparr>)"


text \<open>\<open>modebuild_start\<close>, \<open>modebuild_add\<close> and \<open>modebuild_finish\<close> on the builder of the state.\<close>

definition send_lines :: "string list \<Rightarrow> net \<Rightarrow> net" where
  "send_lines = fold (\<lambda>l. sendto_server [l])"

definition mode_prefix :: "client \<Rightarrow> channel \<Rightarrow> net \<Rightarrow> string" where
  "mode_prefix c ch s =
     (if ts6 s then '':'' @ uid c @ '' TMODE '' @ lu (ch_tsinfo ch) @ '' '' @ chname ch @ '' ''
      else '':'' @ name c @ '' MODE '' @ chname ch @ '' '')"

definition mb_start :: "addr \<Rightarrow> addr \<Rightarrow> net \<Rightarrow> net option" where
  "mb_start source_p c s = do {
     cl \<leftarrow> clients s source_p;
     ch \<leftarrow> chans s c;
     Some (s\<lparr>mb := modebuild_start (mode_prefix cl ch s) (mb s)\<rparr>)
   }"

definition mb_add :: "int \<Rightarrow> string \<Rightarrow> string option \<Rightarrow> net \<Rightarrow> net" where
  "mb_add dir ltr para s = (let (out, m) = modebuild_add dir ltr para (mb s) in send_lines out (s\<lparr>mb := m\<rparr>))"

definition mb_finish :: "net \<Rightarrow> net" where
  "mb_finish s = send_lines (modebuild_finish (mb s)) s"

end
