(* ===== verification/Hash.thy ===== *)
theory Hash
  imports Network
begin

section \<open>Hash: the hash functions of the tables (src/client.c, src/channel.c, src/scommand.c)\<close>

text \<open>
  The tables are searched in the bucket of the name looked for and compared with a comparison
  that ignores case, so a name must hash to the same bucket however it is spelt. \<open>strcasecmp\<close> is
  that of the C locale.
\<close>

abbreviation MAX_NAME_HASH :: nat where "MAX_NAME_HASH \<equiv> 65536"
abbreviation MAX_HOST_HASH :: nat where "MAX_HOST_HASH \<equiv> 65536"
abbreviation MAX_CHANNEL_TABLE :: nat where "MAX_CHANNEL_TABLE \<equiv> 16384"
abbreviation MAX_SCOMMAND_HASH :: nat where "MAX_SCOMMAND_HASH \<equiv> 100"

definition hash_step :: "u32 \<Rightarrow> char \<Rightarrow> u32" where
  "hash_step h c = push_bit 4 h - (h + of_nat (of_char (ToLower c)))"

fun hash_loop :: "u32 \<Rightarrow> string \<Rightarrow> u32" where
  "hash_loop h [] = h"
| "hash_loop h (c # p) = hash_loop (hash_step h c) p"

definition hash_name :: "string \<Rightarrow> nat" where
  "hash_name p = unat (hash_loop 0 p AND 0xFFFF)"

definition hash_host :: "string \<Rightarrow> nat" where
  "hash_host p = unat (hash_loop 0 p AND 0xFFFF)"

text \<open>\<open>while(*p && --i)\<close>: the counter starts at 30 and is decremented before it is tested.\<close>

fun hash_channel_loop :: "nat \<Rightarrow> u32 \<Rightarrow> string \<Rightarrow> u32" where
  "hash_channel_loop i h [] = h"
| "hash_channel_loop i h (c # p) = (if i - 1 = 0 then h else hash_channel_loop (i - 1) (hash_step h c) p)"

definition hash_channel :: "string \<Rightarrow> nat" where
  "hash_channel p = unat (hash_channel_loop 30 0 p AND 0x3FFF)"

fun hash_command_loop :: "u32 \<Rightarrow> string \<Rightarrow> u32" where
  "hash_command_loop h [] = h"
| "hash_command_loop h (c # p) = hash_command_loop (h + (of_nat (of_char c) AND 0xDF)) p"

definition hash_command :: "string \<Rightarrow> nat" where
  "hash_command p = unat (hash_command_loop 0 p) mod MAX_SCOMMAND_HASH"

definition strcaseeq :: "string \<Rightarrow> string \<Rightarrow> bool" where
  "strcaseeq s t \<longleftrightarrow> map tolower s = map tolower t"

subsection \<open>Lemmas\<close>

lemma hash_step_cong: "ToLower c = ToLower d \<Longrightarrow> hash_step h c = hash_step h d"
  by (simp add: hash_step_def)

lemma hash_loop_lower: "map ToLower s = map ToLower t \<Longrightarrow> hash_loop h s = hash_loop h t"
proof (induction s arbitrary: h t)
  case (Cons c s)
  then obtain d t' where "t = d # t'" "ToLower c = ToLower d" "map ToLower s = map ToLower t'"
    by (cases t) auto
  with Cons.IH [of t'] show ?case using hash_step_cong [of c d] by simp
qed simp

lemma hash_channel_loop_lower:
  "map ToLower s = map ToLower t \<Longrightarrow> hash_channel_loop i h s = hash_channel_loop i h t"
proof (induction s arbitrary: i h t)
  case (Cons c s)
  then obtain d t' where "t = d # t'" "ToLower c = ToLower d" "map ToLower s = map ToLower t'"
    by (cases t) auto
  with Cons.IH [of t'] show ?case using hash_step_cong [of c d] by simp
qed simp

lemma hash_name_irccmp: "cstring s \<Longrightarrow> cstring t \<Longrightarrow> irccmp s t = 0 \<Longrightarrow> hash_name s = hash_name t"
  using hash_loop_lower [of s t 0] by (simp add: hash_name_def irccmp_0_iff_lower)

lemma hash_channel_irccmp: "cstring s \<Longrightarrow> cstring t \<Longrightarrow> irccmp s t = 0 \<Longrightarrow> hash_channel s = hash_channel t"
  using hash_channel_loop_lower [of s t 30 0] by (simp add: hash_channel_def irccmp_0_iff_lower)

lemma unat_and_low:
  "unat (h AND 0xFFFF :: u32) < 65536" "unat (h AND 0x3FFF :: u32) < 16384"
proof -
  have "h AND 0xFFFF = take_bit 16 h" "h AND 0x3FFF = take_bit 14 h"
    by (simp_all add: take_bit_eq_mask mask_numeral)
  then show "unat (h AND 0xFFFF :: u32) < 65536" "unat (h AND 0x3FFF :: u32) < 16384"
    using take_bit_nat_less_exp [of 16 "unat h"] take_bit_nat_less_exp [of 14 "unat h"]
    by (simp_all add: unsigned_take_bit_eq)
qed

lemma tolower_eqD:
  assumes "tolower c = tolower d"
  shows "c = d \<or> (65 \<le> (of_char c :: nat) \<and> (of_char c :: nat) \<le> 90 \<and> (of_char d :: nat) = of_char c + 32) \<or>
    (65 \<le> (of_char d :: nat) \<and> (of_char d :: nat) \<le> 90 \<and> (of_char c :: nat) = of_char d + 32)"
proof -
  have "(of_char (tolower x) :: nat) = (if 65 \<le> (of_char x :: nat) \<and> (of_char x :: nat) \<le> 90 then of_char x + 32 else of_char x)" for x
    by (simp add: tolower_def)
  then show ?thesis using assms char_eq_code [of c d] by (metis add_right_cancel)
qed

lemma and_DF_case:
  assumes "65 \<le> n" "n \<le> 90"
  shows "(word_of_nat (n + 32) AND 0xDF :: u32) = word_of_nat n AND 0xDF"
proof -
  have "list_all (\<lambda>n. (word_of_nat (n + 32) AND 0xDF :: u32) = word_of_nat n AND 0xDF) [65..<91]"
    by code_simp
  then have "\<forall>n \<in> set [65..<91]. (word_of_nat (n + 32) AND 0xDF :: u32) = word_of_nat n AND 0xDF"
    by (simp only: list_all_iff)
  moreover have "n \<in> set [65..<91]" using assms by (simp only: set_upt atLeastLessThan_iff) simp
  ultimately show ?thesis by (rule bspec)
qed

lemma hash_command_loop_lower:
  "map tolower s = map tolower t \<Longrightarrow> hash_command_loop h s = hash_command_loop h t"
proof (induction s arbitrary: h t)
  case (Cons c s)
  then obtain d t' where t: "t = d # t'" "tolower c = tolower d" "map tolower s = map tolower t'"
    by (cases t) auto
  have "(of_nat (of_char c) AND 0xDF :: u32) = of_nat (of_char d) AND 0xDF"
    using tolower_eqD [OF t(2)] and_DF_case [of "of_char c"] and_DF_case [of "of_char d"] by (metis)
  with Cons.IH [OF t(3)] t show ?case by simp
qed simp

text \<open>
  C36. Case never hides an entry of a table: two spellings of a name that compare equal hash to
  the same bucket of the client, host and channel tables, two spellings of a command to the same
  bucket of the command table, and every hash is an index into its table.
\<close>

theorem hash_case_insensitive:
  assumes "cstring s" and "cstring t"
  shows "(irccmp s t = 0 \<longrightarrow>
      hash_name s = hash_name t \<and> hash_host s = hash_host t \<and> hash_channel s = hash_channel t) \<and>
    (strcaseeq s t \<longrightarrow> hash_command s = hash_command t) \<and>
    hash_name s < MAX_NAME_HASH \<and> hash_host s < MAX_HOST_HASH \<and>
    hash_channel s < MAX_CHANNEL_TABLE \<and> hash_command s < MAX_SCOMMAND_HASH"
  using hash_name_irccmp [OF assms] hash_channel_irccmp [OF assms] hash_command_loop_lower [of s t 0]
    hash_loop_lower [of s t 0] unat_and_low
  by (simp add: hash_host_def hash_name_def hash_channel_def hash_command_def strcaseeq_def)

theorem hash_case_insensitive_witness:
  "hash_name ''Nick[a]'' = hash_name ''nICK{A}'' \<and> hash_command ''Privmsg'' = hash_command ''PRIVMSG''"
proof -
  have "irccmp ''Nick[a]'' ''nICK{A}'' = 0" "strcaseeq ''Privmsg'' ''PRIVMSG''" by code_simp+
  then show ?thesis
    using hash_case_insensitive [of "''Nick[a]''" "''nICK{A}''"] hash_case_insensitive [of "''Privmsg''" "''PRIVMSG''"]
    by (simp add: cstring_def)
qed

end
