(* ===== verification/Client.thy ===== *)
theory Client
  imports Hash
begin

section \<open>Client: the client tables, unique ids and the host table (src/client.c)\<close>

text \<open>
  \<open>name_table\<close> and \<open>uid_table\<close> with \<open>add_client\<close>, \<open>del_client\<close> and the searches; the generator
  of the unique ids of services; the table of hosts with its expiry; \<open>is_network_split\<close>.
  \<open>tables_ok\<close> is the invariant of the two client tables.
\<close>

subsection \<open>The client tables\<close>

definition add_client :: "rblib \<Rightarrow> addr \<Rightarrow> net \<Rightarrow> net option" where
  "add_client L target_p s = do {
     c \<leftarrow> clients s target_p;
     let hashv = hash_name (name c);
     let s = s\<lparr>name_table := (name_table s)(hashv := dlinkAdd (rb_ptrs L) target_p (name_table s hashv))\<rparr>;
     if EmptyString (uid c) then Some s
     else (let hashv = hash_name (uid c) in
       Some (s\<lparr>uid_table := (uid_table s)(hashv := dlinkAdd (rb_ptrs L) target_p (uid_table s hashv))\<rparr>))
   }"

definition del_client :: "rblib \<Rightarrow> addr \<Rightarrow> net \<Rightarrow> net option" where
  "del_client L target_p s = do {
     c \<leftarrow> clients s target_p;
     let hashv = hash_name (name c);
     l \<leftarrow> dl_delete L target_p (name_table s hashv);
     let s = s\<lparr>name_table := (name_table s)(hashv := l)\<rparr>;
     if EmptyString (uid c) then Some s
     else do {
       let hashv = hash_name (uid c);
       l \<leftarrow> dl_delete L target_p (uid_table s hashv);
       Some (s\<lparr>uid_table := (uid_table s)(hashv := l)\<rparr>)
     }
   }"

definition find_uid :: "string \<Rightarrow> net \<Rightarrow> addr option option" where
  "find_uid nm s = hunt (\<lambda>a. do { c \<leftarrow> clients s a; Some (irccmp (uid c) nm = 0) }) (uid_table s (hash_name nm))"

definition find_named_client :: "string \<Rightarrow> net \<Rightarrow> addr option option" where
  "find_named_client nm s =
     hunt (\<lambda>a. do { c \<leftarrow> clients s a; Some (irccmp (name c) nm = 0) }) (name_table s (hash_name nm))"

definition find_client :: "string \<Rightarrow> net \<Rightarrow> addr option option" where
  "find_client nm s = do {
     r \<leftarrow> (if IsDigit (hd (nm @ [NUL])) then find_uid nm s else Some None);
     if r \<noteq> None then Some r
     else hunt (\<lambda>a. do { c \<leftarrow> clients s a; Some (irccmp (name c) nm = 0) }) (name_table s (hash_name nm))
   }"

text \<open>Keep the client a search found when it is of the kind asked for.\<close>

definition keep_if :: "(client \<Rightarrow> bool) \<Rightarrow> addr option \<Rightarrow> net \<Rightarrow> addr option option" where
  "keep_if P r s = (case r of None \<Rightarrow> Some None | Some a \<Rightarrow> do { c \<leftarrow> clients s a; Some (if P c then Some a else None) })"

definition find_user :: "string \<Rightarrow> bool \<Rightarrow> net \<Rightarrow> addr option option" where
  "find_user nm search_uid s = do {
     r \<leftarrow> (if search_uid then find_client nm s else find_named_client nm s);
     keep_if (\<lambda>c. user c \<noteq> None) r s
   }"

definition find_server :: "string \<Rightarrow> net \<Rightarrow> addr option option" where
  "find_server nm s = do { r \<leftarrow> find_client nm s; keep_if (\<lambda>c. server c \<noteq> None) r s }"

definition find_service :: "string \<Rightarrow> net \<Rightarrow> addr option option" where
  "find_service nm s = do { r \<leftarrow> find_client nm s; keep_if (\<lambda>c. service c \<noteq> None) r s }"

subsection \<open>Unique ids\<close>

abbreviation UIDLEN :: nat where "UIDLEN \<equiv> 9"

definition incr_char :: "char \<Rightarrow> char" where
  "incr_char c = char_of ((of_char c + 1 :: nat) mod 256)"

text \<open>The loop from position 8 down to 4: the digit that takes the carry, or \<open>A\<close> and on.\<close>

fun uid_loop :: "nat \<Rightarrow> string \<Rightarrow> string" where
  "uid_loop i u =
     (if i \<le> 3 then
        (if u ! 3 = CHR ''Z'' then u[i := CHR ''A''] else u[i := incr_char (u ! i)])
      else if u ! i = CHR ''Z'' then u[i := CHR ''0'']
      else if u ! i \<noteq> CHR ''9'' then u[i := incr_char (u ! i)]
      else uid_loop (i - 1) (u[i := CHR ''A'']))"

declare uid_loop.simps [simp del]

text \<open>The static \<open>current_uid\<close> with \<open>done_init\<close>: \<^const>\<open>None\<close> before the first call.\<close>

definition generate_uid :: "string \<Rightarrow> string option \<Rightarrow> string" where
  "generate_uid my_sid current =
     (case current of None \<Rightarrow> take 3 my_sid @ ''AAAAAA'' | Some u \<Rightarrow> uid_loop 8 u)"

subsection \<open>Hosts\<close>

record host_entry =
  hent_name :: string
  hent_flood :: int
  flood_expire :: int
  cregister :: int
  cregister_expire :: int
  uregister :: int
  uregister_expire :: int

type_synonym host_table = "nat \<Rightarrow> host_entry list"

definition new_host :: "string \<Rightarrow> host_entry" where
  "new_host nm = \<lparr>hent_name = nm, hent_flood = 0, flood_expire = 0, cregister = 0, cregister_expire = 0,
     uregister = 0, uregister_expire = 0\<rparr>"

definition cleanup_host_table :: "int \<Rightarrow> host_table \<Rightarrow> host_table" where
  "cleanup_host_table time T =
     (\<lambda>i. if i < MAX_HOST_HASH
          then filter (\<lambda>h. \<not> (flood_expire h < time \<and> cregister_expire h < time \<and> uregister_expire h < time)) (T i)
          else T i)"

definition find_host :: "host_entry dlink \<Rightarrow> string \<Rightarrow> host_table \<Rightarrow> host_entry \<times> host_table" where
  "find_host D nm T =
     (let hashv = hash_host nm in
      case find (\<lambda>h. irccmp (hent_name h) nm = 0) (T hashv) of
        Some h \<Rightarrow> (h, T)
      | None \<Rightarrow> (new_host nm, T(hashv := dlinkAdd D (new_host nm) (T hashv))))"

subsection \<open>Splits\<close>

abbreviation FLAGS_DEAD :: u32 where "FLAGS_DEAD \<equiv> 0x0001"
abbreviation FLAGS_EOB :: u32 where "FLAGS_EOB \<equiv> 0x0002"
abbreviation FLAGS_RSFNC :: u32 where "FLAGS_RSFNC \<equiv> 0x0004"
abbreviation FLAGS_NODNS :: u32 where "FLAGS_NODNS \<equiv> 0x0008"

fun count_eob :: "addr list \<Rightarrow> net \<Rightarrow> nat option" where
  "count_eob [] s = Some 0"
| "count_eob (a # as) s = do {
     c \<leftarrow> clients s a;
     n \<leftarrow> count_eob as s;
     Some (if flags c AND FLAGS_EOB \<noteq> 0 then Suc n else n)
   }"

definition is_network_split :: "config \<Rightarrow> net \<Rightarrow> bool option" where
  "is_network_split cf s = do {
     few_servers \<leftarrow> (if min_servers cf > 0 then do {
         s_count \<leftarrow> count_eob (server_list s) s; Some (int s_count < min_servers cf) }
       else Some False);
     Some (few_servers \<or> (min_users cf > 0 \<and> int (length (user_list s)) < min_users cf))
   }"

subsection \<open>Unique ids never repeat\<close>

text \<open>The position of a character in the order \<open>A\<close> to \<open>Z\<close>, \<open>0\<close> to \<open>9\<close>.\<close>

definition uid_digit :: "char \<Rightarrow> nat" where
  "uid_digit c = (if isdigit c then of_char c - 48 + 26 else of_char c - 65)"

definition uid_char :: "char \<Rightarrow> bool" where
  "uid_char c \<longleftrightarrow> isdigit c \<or> (65 \<le> (of_char c :: nat) \<and> (of_char c :: nat) \<le> 90)"

definition uid_value :: "string \<Rightarrow> nat" where
  "uid_value u = fold (\<lambda>c acc. 36 * acc + uid_digit c) (drop 3 u) 0"

definition uid_ok :: "string \<Rightarrow> bool" where
  "uid_ok u \<longleftrightarrow> length u = UIDLEN \<and> list_all uid_char (drop 3 u) \<and> \<not> isdigit (u ! 3)"

definition uid_seq :: "string \<Rightarrow> nat \<Rightarrow> string" where
  "uid_seq my_sid n = ((\<lambda>u. generate_uid my_sid (Some u)) ^^ n) (generate_uid my_sid None)"

lemma uid_digit_incr:
  assumes "uid_char c" "c \<noteq> CHR ''Z''" "c \<noteq> CHR ''9''"
  shows "uid_digit (incr_char c) = Suc (uid_digit c) \<and> uid_char (incr_char c) \<and> (isdigit (incr_char c) \<longleftrightarrow> isdigit c)"
proof -
  have "(of_char c :: nat) \<noteq> 90" "(of_char c :: nat) \<noteq> 57"
    using assms(2,3) char_eq_code [of c "CHR ''Z''"] char_eq_code [of c "CHR ''9''"] by auto
  then show ?thesis
    using assms(1) by (auto simp: uid_char_def uid_digit_def incr_char_def isdigit_def)
qed

lemma uid_digit_simps [simp]:
  "uid_digit CHR ''Z'' = 25" "uid_digit CHR ''9'' = 35" "uid_digit CHR ''A'' = 0" "uid_digit CHR ''0'' = 26"
  "uid_char CHR ''A''" "uid_char CHR ''0''"
  by (simp_all add: uid_digit_def uid_char_def isdigit_def)

lemma uid_step:
  assumes "uid_ok u" "Suc (uid_value u) < 26 * 36 ^ 5"
  shows "uid_ok (uid_loop 8 u) \<and> uid_value (uid_loop 8 u) = Suc (uid_value u) \<and> take 3 (uid_loop 8 u) = take 3 u"
proof -
  obtain s0 s1 s2 d3 d4 d5 d6 d7 d8 where u: "u = [s0, s1, s2, d3, d4, d5, d6, d7, d8]"
    using assms(1) by (auto simp: uid_ok_def length_Suc_conv numeral_eq_Suc)
  have chars: "uid_char d3" "uid_char d4" "uid_char d5" "uid_char d6" "uid_char d7" "uid_char d8" "\<not> isdigit d3"
    using assms(1) by (auto simp: uid_ok_def u)
  note L = uid_loop.simps [of 8] uid_loop.simps [of 7] uid_loop.simps [of 6] uid_loop.simps [of 5]
    uid_loop.simps [of 4] uid_loop.simps [of 3]
  have nZ: "d3 \<noteq> CHR ''Z''" if "d4 = CHR ''9''" "d5 = CHR ''9''" "d6 = CHR ''9''" "d7 = CHR ''9''" "d8 = CHR ''9''"
    using assms(2) that by (auto simp: u uid_value_def)
  have carry: "d3 \<noteq> CHR ''9''" using chars(7) by (auto simp: isdigit_def)
  show ?thesis
  proof (cases "d8 = CHR ''9''")
    case False
    then show ?thesis using chars uid_digit_incr [of d8]
      by (cases "d8 = CHR ''Z''") (simp_all add: u uid_loop.simps [of 8] uid_ok_def uid_value_def)
  next
    case 8: True
    show ?thesis
    proof (cases "d7 = CHR ''9''")
      case False
      then show ?thesis using chars 8 uid_digit_incr [of d7]
        by (cases "d7 = CHR ''Z''") (simp_all add: u L(1,2) uid_ok_def uid_value_def)
    next
      case 7: True
      show ?thesis
      proof (cases "d6 = CHR ''9''")
        case False
        then show ?thesis using chars 8 7 uid_digit_incr [of d6]
          by (cases "d6 = CHR ''Z''") (simp_all add: u L(1-3) uid_ok_def uid_value_def)
      next
        case 6: True
        show ?thesis
        proof (cases "d5 = CHR ''9''")
          case False
          then show ?thesis using chars 8 7 6 uid_digit_incr [of d5]
            by (cases "d5 = CHR ''Z''") (simp_all add: u L(1-4) uid_ok_def uid_value_def)
        next
          case 5: True
          show ?thesis
            using chars 8 7 6 5 uid_digit_incr [of d4] uid_digit_incr [of d3] nZ carry
            by (cases "d4 = CHR ''9''"; cases "d4 = CHR ''Z''") (simp_all add: u L uid_ok_def uid_value_def)
        qed
      qed
    qed
  qed
qed

lemma uid_seq_value:
  assumes "length my_sid = 3" "n < 26 * 36 ^ 5"
  shows "uid_ok (uid_seq my_sid n) \<and> uid_value (uid_seq my_sid n) = n \<and> take 3 (uid_seq my_sid n) = my_sid"
  using assms(2)
proof (induction n)
  case 0
  show ?case using assms(1)
    by (auto simp: uid_seq_def generate_uid_def uid_ok_def uid_value_def uid_char_def isdigit_def length_Suc_conv numeral_eq_Suc)
next
  case (Suc n)
  then show ?case using uid_step [of "uid_seq my_sid n"] by (simp add: uid_seq_def generate_uid_def)
qed

text \<open>
  C37. \<open>generate_uid\<close> gives every service an id of its own: for a server id of three characters,
  the ids of the first \<open>26 * 36 ^ 5\<close> calls are pairwise different, nine characters long, start with
  the server id, and go on with a letter and five letters or digits.
\<close>

theorem generate_uid_unique:
  assumes "length my_sid = 3" and "m < 26 * 36 ^ 5" and "n < 26 * 36 ^ 5"
  shows "(uid_seq my_sid m = uid_seq my_sid n \<longleftrightarrow> m = n) \<and> length (uid_seq my_sid n) = UIDLEN \<and>
    take 3 (uid_seq my_sid n) = my_sid \<and> list_all uid_char (drop 3 (uid_seq my_sid n)) \<and>
    \<not> isdigit (uid_seq my_sid n ! 3)"
  using uid_seq_value [OF assms(1,2)] uid_seq_value [OF assms(1,3)] unfolding uid_ok_def by metis

theorem generate_uid_unique_witness:
  "uid_seq ''1AB'' 0 = ''1ABAAAAAA'' \<and> uid_seq ''1AB'' 2 = ''1ABAAAAAC'' \<and> uid_seq ''1AB'' 100 \<noteq> uid_seq ''1AB'' 36"
proof (intro conjI)
  show "uid_seq ''1AB'' 0 = ''1ABAAAAAA''" by code_simp
  show "uid_seq ''1AB'' 2 = ''1ABAAAAAC''" by code_simp
  show "uid_seq ''1AB'' 100 \<noteq> uid_seq ''1AB'' 36"
  proof
    assume "uid_seq ''1AB'' 100 = uid_seq ''1AB'' 36"
    moreover have "uid_seq ''1AB'' 100 = uid_seq ''1AB'' 36 \<longleftrightarrow> (100 :: nat) = 36"
      by (rule generate_uid_unique [THEN conjunct1]) simp_all
    ultimately show False by (simp only:)
  qed
qed

subsection \<open>The host table\<close>

definition hosts_ok :: "host_table \<Rightarrow> bool" where
  "hosts_ok T \<longleftrightarrow> (\<forall>i. ban_distinct (map hent_name (T i)) \<and>
     (\<forall>h \<in> set (T i). hash_host (hent_name h) = i \<and> cstring (hent_name h)))"

lemma ban_distinct_filter: "ban_distinct (map f xs) \<Longrightarrow> ban_distinct (map f (filter P xs))"
  by (induction xs) auto

lemma hosts_ok_cleanup: "hosts_ok T \<Longrightarrow> hosts_ok (cleanup_host_table time T)"
  by (auto simp: hosts_ok_def cleanup_host_table_def ban_distinct_filter)

lemma ban_distinct_add:
  assumes "dlink_ok D" "list_all cstring (map f (x # xs))" "ban_distinct (map f (x # xs))"
  shows "ban_distinct (map f (dlinkAdd D x xs))"
proof -
  have "mset (map f (dlinkAdd D x xs)) = mset (map f (x # xs))"
    by (simp add: dlink_ok.mset_Add [OF assms(1)])
  then show ?thesis using ban_distinct_mset assms(2,3) by blast
qed

lemma hash_host_irccmp: "cstring s \<Longrightarrow> cstring t \<Longrightarrow> irccmp s t = 0 \<Longrightarrow> hash_host s = hash_host t"
  using hash_name_irccmp [of s t] by (simp add: hash_name_def hash_host_def)

lemma find_host_new:
  assumes "dlink_ok D" "hosts_ok T" "cstring nm" "find (\<lambda>h. irccmp (hent_name h) nm = 0) (T (hash_host nm)) = None"
  shows "hosts_ok (T(hash_host nm := dlinkAdd D (new_host nm) (T (hash_host nm))))"
proof -
  let ?b = "T (hash_host nm)"
  have "\<forall>h \<in> set ?b. irccmp nm (hent_name h) \<noteq> 0"
    using assms(4) irccmp_0_sym by (auto simp: find_None_iff)
  then have "ban_distinct (map hent_name (dlinkAdd D (new_host nm) ?b))"
    using assms(2,3) by (intro ban_distinct_add [OF assms(1)]) (auto simp: hosts_ok_def new_host_def list_all_iff)
  then show ?thesis
    using assms(2,3) by (auto simp: hosts_ok_def dlink_ok.set_Add [OF assms(1)] new_host_def)
qed

lemma hosts_unique:
  assumes "hosts_ok T" "h1 \<in> set (T i)" "h2 \<in> set (T j)" "irccmp (hent_name h1) (hent_name h2) = 0"
  shows "h1 = h2"
proof -
  have "hash_host (hent_name h1) = i" "hash_host (hent_name h2) = j" "cstring (hent_name h1)" "cstring (hent_name h2)"
    using assms(1-3) by (auto simp: hosts_ok_def)
  then have "i = j" using hash_host_irccmp assms(4) by metis
  moreover have "list_all cstring (map hent_name (T i))" "ban_distinct (map hent_name (T i))"
    using assms(1) by (auto simp: hosts_ok_def list_all_iff)
  then have "distinct (map (\<lambda>h. map ToLower (hent_name h)) (T i))"
    by (simp add: ban_distinct_alt comp_def)
  ultimately show ?thesis
    using assms(2-4) \<open>cstring (hent_name h1)\<close> \<open>cstring (hent_name h2)\<close>
    by (metis (mono_tags, lifting) distinct_map inj_onD irccmp_0_iff_lower)
qed

lemma find_host_find:
  assumes "hosts_ok T" "h \<in> set (T i)" "irccmp (hent_name h) nm = 0" "cstring nm"
  shows "find_host D nm T = (h, T)"
proof -
  have "hash_host nm = i" using assms hash_host_irccmp [of "hent_name h" nm] by (auto simp: hosts_ok_def)
  then have mem: "h \<in> set (T (hash_host nm))" using assms(2) by simp
  then obtain h' where h': "find (\<lambda>h. irccmp (hent_name h) nm = 0) (T (hash_host nm)) = Some h'"
    using assms(3) by (cases "find (\<lambda>h. irccmp (hent_name h) nm = 0) (T (hash_host nm))") (auto simp: find_None_iff)
  then have "h' \<in> set (T (hash_host nm))" "irccmp (hent_name h') nm = 0" by (auto simp: find_Some_iff)
  moreover from this have "irccmp (hent_name h') (hent_name h) = 0"
    using assms mem by (auto simp: hosts_ok_def irccmp_0_iff_lower)
  ultimately have "h' = h" using hosts_unique [OF assms(1) _ mem] by blast
  then show ?thesis using h' by (simp add: find_host_def)
qed

text \<open>
  C38. The host table counts each host once. \<open>find_host\<close> returns an entry whose name is the host
  asked for up to case, keeps the table free of duplicates, and finds that same entry again for any
  other spelling of the host; the hourly clean-up keeps the invariant and drops an entry exactly
  when its flood, channel and user registration times have all passed.
\<close>

theorem host_table_correct:
  assumes "dlink_ok D" and "hosts_ok T" and "cstring nm" and "cstring nm2" and "irccmp nm nm2 = 0"
  shows "irccmp (hent_name (fst (find_host D nm T))) nm = 0 \<and> hosts_ok (snd (find_host D nm T)) \<and>
    find_host D nm2 (snd (find_host D nm T)) = find_host D nm T \<and>
    hosts_ok (cleanup_host_table time T) \<and>
    (h \<in> set (cleanup_host_table time T (hash_host nm)) \<longleftrightarrow> h \<in> set (T (hash_host nm)) \<and>
      (time \<le> flood_expire h \<or> time \<le> cregister_expire h \<or> time \<le> uregister_expire h))"
proof -
  let ?r = "find_host D nm T"
  have r: "hosts_ok (snd ?r) \<and> fst ?r \<in> set (snd ?r (hash_host nm)) \<and> irccmp (hent_name (fst ?r)) nm = 0 \<and> cstring (hent_name (fst ?r))"
  proof (cases "find (\<lambda>h. irccmp (hent_name h) nm = 0) (T (hash_host nm))")
    case None
    then show ?thesis using find_host_new [OF assms(1-3)] assms(3)
      by (simp add: find_host_def Let_def dlink_ok.set_Add [OF assms(1)] new_host_def irccmp_0_iff_lower)
  next
    case (Some h)
    then have "h \<in> set (T (hash_host nm))" "irccmp (hent_name h) nm = 0" by (auto simp: find_Some_iff)
    moreover from this have "cstring (hent_name h)" using assms(2) by (simp add: hosts_ok_def)
    ultimately show ?thesis using assms(2) Some by (simp add: find_host_def)
  qed
  then have "irccmp (hent_name (fst ?r)) nm2 = 0" using assms(3-5) irccmp_0_iff_lower by metis
  then have "find_host D nm2 (snd ?r) = ?r" using find_host_find r assms(4) by (metis prod.collapse)
  moreover have "hash_host nm < MAX_HOST_HASH" by (simp add: hash_host_def unat_and_low)
  ultimately show ?thesis
    using r hosts_ok_cleanup [OF assms(2)] by (auto simp: cleanup_host_table_def)
qed

theorem host_table_correct_witness:
  "find_host list_dlink ''HOST'' (snd (find_host list_dlink ''host'' (\<lambda>_. []))) = find_host list_dlink ''host'' (\<lambda>_. [])"
proof -
  have "irccmp ''host'' ''HOST'' = 0" "cstring ''host''" "cstring ''HOST''" by code_simp+
  moreover have "hosts_ok (\<lambda>_. [])" by (simp add: hosts_ok_def)
  ultimately show ?thesis using host_table_correct [OF list_dl.dlink_ok_axioms] by blast
qed

end
