(* ===== verification/Channel.thy ===== *)
theory Channel
  imports Client
begin

section \<open>Channel: channels, their members and services (src/channel.c)\<close>

text \<open>
  The channel table and list, the membership objects that link a channel and a user, the services
  that sit in a channel, and the handlers of KICK, PART, TOPIC, TB, SJOIN and JOIN. The
  definitions follow the order of the source file.
\<close>

abbreviation CHANNELLEN :: nat where "CHANNELLEN \<equiv> 200"
abbreviation TOPICLEN :: nat where "TOPICLEN \<equiv> 161"
abbreviation NICKUSERHOSTLEN :: nat where "NICKUSERHOSTLEN \<equiv> NICKLEN + USERLEN + HOSTLEN + 2"

abbreviation MODE_OPPED :: u32 where "MODE_OPPED \<equiv> 0x0001"
abbreviation MODE_VOICED :: u32 where "MODE_VOICED \<equiv> 0x0002"
abbreviation MODE_DEOPPED :: u32 where "MODE_DEOPPED \<equiv> 0x0004"

definition is_opped :: "chmember \<Rightarrow> bool" where
  "is_opped mp \<longleftrightarrow> mflags mp AND MODE_OPPED \<noteq> 0"

definition valid_chname :: "string \<Rightarrow> bool" where
  "valid_chname nm = (if length nm > CHANNELLEN then False else if hd (nm @ [NUL]) \<noteq> CHR ''#'' then False else True)"

subsection \<open>The channel table\<close>

definition add_channel :: "rblib \<Rightarrow> addr \<Rightarrow> net \<Rightarrow> net option" where
  "add_channel L c s = do {
     ch \<leftarrow> chans s c;
     let hashv = hash_channel (chname ch);
     Some (s\<lparr>channel_table := (channel_table s)(hashv := dlinkAdd (rb_ptrs L) c (channel_table s hashv)),
             channel_list := dlinkAdd (rb_ptrs L) c (channel_list s)\<rparr>)
   }"

definition del_channel :: "rblib \<Rightarrow> addr \<Rightarrow> net \<Rightarrow> net option" where
  "del_channel L c s = do {
     ch \<leftarrow> chans s c;
     let hashv = hash_channel (chname ch);
     t \<leftarrow> dl_delete L c (channel_table s hashv);
     l \<leftarrow> dl_delete L c (channel_list s);
     Some (s\<lparr>channel_table := (channel_table s)(hashv := t), channel_list := l\<rparr>)
   }"

definition find_channel :: "string \<Rightarrow> net \<Rightarrow> addr option option" where
  "find_channel nm s =
     hunt (\<lambda>c. do { ch \<leftarrow> chans s c; Some (irccmp (chname ch) nm = 0) }) (channel_table s (hash_channel nm))"

definition free_channel :: "env \<Rightarrow> addr \<Rightarrow> net \<Rightarrow> net option" where
  "free_channel E c s = do {
     s \<leftarrow> hook_do E HOOK_CHANNEL_DESTROY (ArgChannel c) ArgNull s;
     s \<leftarrow> del_channel (lib E) c s;
     Some (s\<lparr>chans := (chans s)(c := None)\<rparr>)
   }"

text \<open>A channel fresh from \<open>rb_bh_alloc\<close>, with its name and time stamp.\<close>

definition new_channel :: "string \<Rightarrow> int \<Rightarrow> channel" where
  "new_channel nm ts = \<lparr>chname = nm, topic = [], topicwho = [], ch_tsinfo = ts, topic_tsinfo = 0, users = [],
     users_opped = [], users_unopped = [], services = [], bans = [], excepts = [], invites = [], cmode = no_mode\<rparr>"

definition alloc_channel :: "channel \<Rightarrow> net \<Rightarrow> addr \<times> net" where
  "alloc_channel ch s = (next_addr s, s\<lparr>chans := (chans s)(next_addr s \<mapsto> ch), next_addr := Suc (next_addr s)\<rparr>)"

subsection \<open>Members\<close>

definition add_chmember :: "rblib \<Rightarrow> addr \<Rightarrow> addr \<Rightarrow> u32 \<Rightarrow> net \<Rightarrow> (addr \<times> net) option" where
  "add_chmember L c target_p fl s = do {
     let m = next_addr s;
     let mp = \<lparr>chptr = c, mclient = target_p, mflags = fl\<rparr>;
     let s = s\<lparr>members := (members s)(m \<mapsto> mp), next_addr := Suc m\<rparr>;
     s \<leftarrow> upd_chan c (\<lambda>ch. ch\<lparr>users := dlinkAdd (rb_ptrs L) m (users ch)\<rparr>) s;
     s \<leftarrow> upd_user target_p (\<lambda>u. u\<lparr>channels := dlinkAdd (rb_ptrs L) m (channels u)\<rparr>) s;
     s \<leftarrow> (if is_opped mp
           then upd_chan c (\<lambda>ch. ch\<lparr>users_opped := dlinkAdd (rb_ptrs L) m (users_opped ch)\<rparr>) s
           else upd_chan c (\<lambda>ch. ch\<lparr>users_unopped := dlinkAdd (rb_ptrs L) m (users_unopped ch)\<rparr>) s);
     Some (m, s)
   }"

definition del_chmember :: "env \<Rightarrow> addr \<Rightarrow> net \<Rightarrow> net option" where
  "del_chmember E m s = do {
     let L = lib E;
     mp \<leftarrow> members s m;
     let c = chptr mp; let a = mclient mp;
     ch \<leftarrow> chans s c;
     l \<leftarrow> dl_delete L m (users ch);
     s \<leftarrow> upd_chan c (\<lambda>ch. ch\<lparr>users := l\<rparr>) s;
     u \<leftarrow> get_user a s;
     l \<leftarrow> dl_delete L m (channels u);
     s \<leftarrow> upd_user a (\<lambda>u. u\<lparr>channels := l\<rparr>) s;
     ch \<leftarrow> chans s c;
     s \<leftarrow> (if is_opped mp then do {
             l \<leftarrow> dl_delete L m (users_opped ch);
             s \<leftarrow> upd_chan c (\<lambda>ch. ch\<lparr>users_opped := l\<rparr>) s;
             if l = [] then hook_do E HOOK_CHANNEL_OPLESS (ArgChannel c) ArgNull s else Some s
           }
           else do {
             l \<leftarrow> dl_delete L m (users_unopped ch);
             upd_chan c (\<lambda>ch. ch\<lparr>users_unopped := l\<rparr>) s
           });
     ch \<leftarrow> chans s c;
     s \<leftarrow> (if users ch = [] \<and> services ch = [] then free_channel E c s else Some s);
     Some (s\<lparr>members := (members s)(m := None)\<rparr>)
   }"

text \<open>The shorter of the two lists is searched.\<close>

definition find_chmember :: "addr \<Rightarrow> addr \<Rightarrow> net \<Rightarrow> addr option option" where
  "find_chmember c target_p s = do {
     ch \<leftarrow> chans s c;
     u \<leftarrow> get_user target_p s;
     if length (users ch) < length (channels u)
     then hunt (\<lambda>m. do { mp \<leftarrow> members s m; Some (mclient mp = target_p) }) (users ch)
     else hunt (\<lambda>m. do { mp \<leftarrow> members s m; Some (chptr mp = c) }) (channels u)
   }"

definition op_chmember :: "rblib \<Rightarrow> addr \<Rightarrow> net \<Rightarrow> net option" where
  "op_chmember L m s = do {
     mp \<leftarrow> members s m;
     if is_opped mp then Some s
     else do {
       s \<leftarrow> upd_member m (\<lambda>mp. mp\<lparr>mflags := (mflags mp AND NOT MODE_DEOPPED) OR MODE_OPPED\<rparr>) s;
       ch \<leftarrow> chans s (chptr mp);
       l \<leftarrow> dl_delete L m (users_unopped ch);
       upd_chan (chptr mp) (\<lambda>ch. ch\<lparr>users_unopped := l, users_opped := dlinkAdd (rb_ptrs L) m (users_opped ch)\<rparr>) s
     }
   }"

definition deop_chmember :: "env \<Rightarrow> addr \<Rightarrow> net \<Rightarrow> net option" where
  "deop_chmember E m s = do {
     mp \<leftarrow> members s m;
     if \<not> is_opped mp then Some s
     else do {
       s \<leftarrow> upd_member m (\<lambda>mp. mp\<lparr>mflags := mflags mp AND NOT MODE_OPPED\<rparr>) s;
       ch \<leftarrow> chans s (chptr mp);
       l \<leftarrow> dl_delete (lib E) m (users_opped ch);
       s \<leftarrow> upd_chan (chptr mp)
             (\<lambda>ch. ch\<lparr>users_opped := l, users_unopped := dlinkAdd (rb_ptrs (lib E)) m (users_unopped ch)\<rparr>) s;
       if l = [] then hook_do E HOOK_CHANNEL_OPLESS (ArgChannel (chptr mp)) ArgNull s else Some s
     }
   }"

definition find_exempt :: "addr \<Rightarrow> addr \<Rightarrow> net \<Rightarrow> bool option" where
  "find_exempt c target_p s = do {
     ch \<leftarrow> chans s c;
     u \<leftarrow> (if excepts ch = [] then Some None else map_option Some (get_user target_p s));
     Some (list_ex (\<lambda>b. case u of None \<Rightarrow> False | Some u \<Rightarrow> match b (usermask u)) (excepts ch))
   }"

fun topic_loop :: "addr list \<Rightarrow> net \<Rightarrow> nat option" where
  "topic_loop [] s = Some 0"
| "topic_loop (c # cs) s = do { ch \<leftarrow> chans s c; n \<leftarrow> topic_loop cs s; Some (if topic ch \<noteq> [] then Suc n else n) }"

definition count_topics :: "net \<Rightarrow> nat option" where
  "count_topics s = topic_loop (channel_list s) s"

end
