(* ===== verification/Frame.thy ===== *)
theory Frame
  imports Channel
begin

section \<open>Frame: projections of the state and what writes leave alone\<close>

text \<open>
  The invariant looks at the state through projections: the keys of a client, its kind, its uplink,
  the lists of a channel and so on. This theory has the projections, the state after a write through
  a valid pointer (\<open>set_user\<close>, \<open>set_chan\<close>, \<dots>) and, as simplification rules, the projections and
  fields that each write leaves alone.
\<close>

subsection \<open>Projections\<close>

definition keys :: "net \<Rightarrow> addr \<Rightarrow> (string \<times> string) option" where
  "keys s a = map_option (\<lambda>c. (name c, uid c)) (clients s a)"

definition hashed :: "net \<Rightarrow> addr \<Rightarrow> bool" where
  "hashed s a \<longleftrightarrow> (\<exists>n u. keys s a = Some (n, u) \<and> a \<in> set (name_table s (hash_name n)))"

definition kind :: "net \<Rightarrow> addr \<Rightarrow> (bool \<times> bool \<times> bool) option" where
  "kind s a = map_option (\<lambda>c. (user c \<noteq> None, server c \<noteq> None, service c \<noteq> None)) (clients s a)"

definition parent :: "net \<Rightarrow> addr \<Rightarrow> addr option" where
  "parent s a = Option.bind (clients s a) uplink"

definition dead :: "net \<Rightarrow> addr \<Rightarrow> bool" where
  "dead s a \<longleftrightarrow> (\<exists>c. clients s a = Some c \<and> flags c AND FLAGS_DEAD \<noteq> 0)"

definition chan_key :: "net \<Rightarrow> addr \<Rightarrow> string option" where
  "chan_key s c = map_option chname (chans s c)"

definition user_chans :: "net \<Rightarrow> addr \<Rightarrow> addr list option" where
  "user_chans s a = map_option channels (get_user a s)"

definition chan_lists :: "net \<Rightarrow> addr \<Rightarrow> (addr list \<times> addr list \<times> addr list) option" where
  "chan_lists s c = map_option (\<lambda>ch. (users ch, users_opped ch, users_unopped ch)) (chans s c)"

definition chan_services :: "net \<Rightarrow> addr \<Rightarrow> addr list option" where
  "chan_services s c = map_option services (chans s c)"

definition service_chans :: "net \<Rightarrow> addr \<Rightarrow> addr list option" where
  "service_chans s a = map_option svc_channels (get_service a s)"

definition user_oper :: "net \<Rightarrow> addr \<Rightarrow> addr option" where
  "user_oper s a = Option.bind (get_user a s) oper"

definition user_link :: "net \<Rightarrow> addr \<Rightarrow> addr option" where
  "user_link s a = Option.bind (get_user a s) user_reg"

definition server_lists :: "net \<Rightarrow> addr \<Rightarrow> (addr list \<times> addr list) option" where
  "server_lists s a = map_option (\<lambda>v. (server_users v, servers v)) (get_server a s)"


lemmas projection_defs =
  keys_def kind_def parent_def dead_def chan_key_def user_chans_def chan_lists_def chan_services_def
  service_chans_def user_oper_def user_link_def server_lists_def get_user_def get_server_def get_service_def hashed_def

subsection \<open>Updates\<close>

text \<open>The state after a write through a valid pointer, and what it does to the projections.\<close>

named_theorems proj_simps \<open>projections of updated states\<close>

definition set_user :: "addr \<Rightarrow> user \<Rightarrow> net \<Rightarrow> net" where
  "set_user a u s = s\<lparr>clients := (clients s)(a \<mapsto> (the (clients s a))\<lparr>user := Some u\<rparr>)\<rparr>"

definition set_server :: "addr \<Rightarrow> server \<Rightarrow> net \<Rightarrow> net" where
  "set_server a v s = s\<lparr>clients := (clients s)(a \<mapsto> (the (clients s a))\<lparr>server := Some v\<rparr>)\<rparr>"

definition set_service :: "addr \<Rightarrow> service \<Rightarrow> net \<Rightarrow> net" where
  "set_service a v s = s\<lparr>clients := (clients s)(a \<mapsto> (the (clients s a))\<lparr>service := Some v\<rparr>)\<rparr>"

definition set_chan :: "addr \<Rightarrow> channel \<Rightarrow> net \<Rightarrow> net" where
  "set_chan c ch s = s\<lparr>chans := (chans s)(c \<mapsto> ch)\<rparr>"

definition set_member :: "addr \<Rightarrow> chmember \<Rightarrow> net \<Rightarrow> net" where
  "set_member m mp s = s\<lparr>members := (members s)(m \<mapsto> mp)\<rparr>"

lemma upd_user_eq: "get_user a s = Some u \<Longrightarrow> upd_user a f s = Some (set_user a (f u) s)"
  by (auto simp: upd_user_def upd_client_def get_user_def set_user_def bind_eq_Some_conv)

lemma upd_server_eq: "get_server a s = Some v \<Longrightarrow> upd_server a f s = Some (set_server a (f v) s)"
  by (auto simp: upd_server_def upd_client_def get_server_def set_server_def bind_eq_Some_conv)

lemma upd_service_eq: "get_service a s = Some v \<Longrightarrow> upd_service a f s = Some (set_service a (f v) s)"
  by (auto simp: upd_service_def upd_client_def get_service_def set_service_def bind_eq_Some_conv)

lemma upd_chan_eq: "chans s c = Some ch \<Longrightarrow> upd_chan c f s = Some (set_chan c (f ch) s)"
  by (simp add: upd_chan_def set_chan_def)

lemma upd_member_eq: "members s m = Some mp \<Longrightarrow> upd_member m f s = Some (set_member m (f mp) s)"
  by (simp add: upd_member_def set_member_def)

lemmas upd_eqs = upd_user_eq upd_server_eq upd_service_eq upd_chan_eq upd_member_eq

lemma set_user_proj [proj_simps]:
  assumes "get_user a s = Some u0"
  shows "keys (set_user a u s) = keys s" "kind (set_user a u s) = kind s" "parent (set_user a u s) = parent s"
    "dead (set_user a u s) = dead s" "service_chans (set_user a u s) = service_chans s"
    "server_lists (set_user a u s) = server_lists s"
    "get_user b (set_user a u s) = (if b = a then Some u else get_user b s)"
    "user_chans (set_user a u s) = (user_chans s)(a \<mapsto> channels u)"
    "user_oper (set_user a u s) = (user_oper s)(a := oper u)"
    "user_link (set_user a u s) = (user_link s)(a := user_reg u)"
    "get_server b (set_user a u s) = get_server b s" "get_service b (set_user a u s) = get_service b s"
  using assms by (auto simp: projection_defs set_user_def fun_eq_iff bind_eq_Some_conv)

lemma set_server_proj [proj_simps]:
  assumes "get_server a s = Some v0"
  shows "keys (set_server a v s) = keys s" "kind (set_server a v s) = kind s" "parent (set_server a v s) = parent s"
    "dead (set_server a v s) = dead s" "service_chans (set_server a v s) = service_chans s"
    "server_lists (set_server a v s) = (server_lists s)(a \<mapsto> (server_users v, servers v))"
    "get_user b (set_server a v s) = get_user b s" "user_chans (set_server a v s) = user_chans s"
    "user_oper (set_server a v s) = user_oper s" "user_link (set_server a v s) = user_link s"
    "get_server b (set_server a v s) = (if b = a then Some v else get_server b s)"
    "get_service b (set_server a v s) = get_service b s"
  using assms by (auto simp: projection_defs set_server_def fun_eq_iff bind_eq_Some_conv)

lemma set_service_proj [proj_simps]:
  assumes "get_service a s = Some v0"
  shows "keys (set_service a v s) = keys s" "kind (set_service a v s) = kind s" "parent (set_service a v s) = parent s"
    "dead (set_service a v s) = dead s" "service_chans (set_service a v s) = (service_chans s)(a \<mapsto> svc_channels v)"
    "server_lists (set_service a v s) = server_lists s"
    "get_user b (set_service a v s) = get_user b s" "user_chans (set_service a v s) = user_chans s"
    "user_oper (set_service a v s) = user_oper s" "user_link (set_service a v s) = user_link s"
    "get_server b (set_service a v s) = get_server b s"
    "get_service b (set_service a v s) = (if b = a then Some v else get_service b s)"
  using assms by (auto simp: projection_defs set_service_def fun_eq_iff bind_eq_Some_conv)

lemma set_chan_proj [simp]:
  "chan_key (set_chan c ch s) = (chan_key s)(c \<mapsto> chname ch)"
  "chan_lists (set_chan c ch s) = (chan_lists s)(c \<mapsto> (users ch, users_opped ch, users_unopped ch))"
  "chan_services (set_chan c ch s) = (chan_services s)(c \<mapsto> services ch)"
  "keys (set_chan c ch s) = keys s" "kind (set_chan c ch s) = kind s" "parent (set_chan c ch s) = parent s"
  "dead (set_chan c ch s) = dead s" "service_chans (set_chan c ch s) = service_chans s"
  "server_lists (set_chan c ch s) = server_lists s" "user_chans (set_chan c ch s) = user_chans s"
  "user_oper (set_chan c ch s) = user_oper s" "user_link (set_chan c ch s) = user_link s"
  "get_user b (set_chan c ch s) = get_user b s" "get_server b (set_chan c ch s) = get_server b s"
  "get_service b (set_chan c ch s) = get_service b s" "members (set_chan c ch s) = members s"
  "chans (set_chan c ch s) = (chans s)(c \<mapsto> ch)" "clients (set_chan c ch s) = clients s"
  by (auto simp: projection_defs set_chan_def fun_eq_iff)

lemma set_member_proj [simp]:
  "members (set_member m mp s) = (members s)(m \<mapsto> mp)" "chan_key (set_member m mp s) = chan_key s"
  "chan_lists (set_member m mp s) = chan_lists s" "chan_services (set_member m mp s) = chan_services s"
  "keys (set_member m mp s) = keys s" "kind (set_member m mp s) = kind s" "parent (set_member m mp s) = parent s"
  "dead (set_member m mp s) = dead s" "service_chans (set_member m mp s) = service_chans s"
  "server_lists (set_member m mp s) = server_lists s" "user_chans (set_member m mp s) = user_chans s"
  "user_oper (set_member m mp s) = user_oper s" "user_link (set_member m mp s) = user_link s"
  "get_user b (set_member m mp s) = get_user b s" "get_server b (set_member m mp s) = get_server b s"
  "get_service b (set_member m mp s) = get_service b s"
  "chans (set_member m mp s) = chans s" "clients (set_member m mp s) = clients s"
  by (auto simp: projection_defs set_member_def fun_eq_iff)

lemma set_user_chans [simp]:
  "chans (set_user a u s) = chans s" "chan_key (set_user a u s) = chan_key s"
  "chan_lists (set_user a u s) = chan_lists s" "chan_services (set_user a u s) = chan_services s"
  "members (set_user a u s) = members s"
  "chans (set_server a v s) = chans s" "chan_key (set_server a v s) = chan_key s"
  "chan_lists (set_server a v s) = chan_lists s" "chan_services (set_server a v s) = chan_services s"
  "members (set_server a v s) = members s"
  "chans (set_service a w s) = chans s" "chan_key (set_service a w s) = chan_key s"
  "chan_lists (set_service a w s) = chan_lists s" "chan_services (set_service a w s) = chan_services s"
  "members (set_service a w s) = members s"
  by (auto simp: projection_defs set_user_def set_server_def set_service_def fun_eq_iff)

text \<open>Fields outside the stores.\<close>

lemma set_user_fields [simp]:
  "conf_opers (set_user a u s) = conf_opers s" "user_regs (set_user a u s) = user_regs s"
  "next_addr (set_user a u s) = next_addr s" "name_table (set_user a u s) = name_table s"
  "uid_table (set_user a u s) = uid_table s" "channel_table (set_user a u s) = channel_table s"
  "channel_list (set_user a u s) = channel_list s" "user_list (set_user a u s) = user_list s"
  "server_list (set_user a u s) = server_list s" "exited_list (set_user a u s) = exited_list s"
  "service_list (set_user a u s) = service_list s" "oper_list (set_user a u s) = oper_list s"
  "conf_oper_list (set_user a u s) = conf_oper_list s"
  "client_oper_list (set_user a u s) = client_oper_list s" "ignore_list (set_user a u s) = ignore_list s"
  "server_p (set_user a u s) = server_p s" "opped_list (set_user a u s) = opped_list s"
  "voiced_list (set_user a u s) = voiced_list s" "deopped_list (set_user a u s) = deopped_list s"
  "ban_list (set_user a u s) = ban_list s" "mb (set_user a u s) = mb s"
  "first_kill (set_user a u s) = first_kill s" "num_kill (set_user a u s) = num_kill s"
  "now (set_user a u s) = now s" "sendq (set_user a u s) = sendq s" "died (set_user a u s) = died s"
  by (simp_all add: set_user_def)

lemma set_server_fields [simp]:
  "conf_opers (set_server a v s) = conf_opers s" "user_regs (set_server a v s) = user_regs s"
  "next_addr (set_server a v s) = next_addr s" "name_table (set_server a v s) = name_table s"
  "uid_table (set_server a v s) = uid_table s" "channel_table (set_server a v s) = channel_table s"
  "channel_list (set_server a v s) = channel_list s" "user_list (set_server a v s) = user_list s"
  "server_list (set_server a v s) = server_list s" "exited_list (set_server a v s) = exited_list s"
  "service_list (set_server a v s) = service_list s" "oper_list (set_server a v s) = oper_list s"
  "conf_oper_list (set_server a v s) = conf_oper_list s"
  "client_oper_list (set_server a v s) = client_oper_list s" "ignore_list (set_server a v s) = ignore_list s"
  "server_p (set_server a v s) = server_p s" "opped_list (set_server a v s) = opped_list s"
  "voiced_list (set_server a v s) = voiced_list s" "deopped_list (set_server a v s) = deopped_list s"
  "ban_list (set_server a v s) = ban_list s" "mb (set_server a v s) = mb s"
  "first_kill (set_server a v s) = first_kill s" "num_kill (set_server a v s) = num_kill s"
  "now (set_server a v s) = now s" "sendq (set_server a v s) = sendq s" "died (set_server a v s) = died s"
  by (simp_all add: set_server_def)

lemma set_service_fields [simp]:
  "conf_opers (set_service a w s) = conf_opers s" "user_regs (set_service a w s) = user_regs s"
  "next_addr (set_service a w s) = next_addr s" "name_table (set_service a w s) = name_table s"
  "uid_table (set_service a w s) = uid_table s" "channel_table (set_service a w s) = channel_table s"
  "channel_list (set_service a w s) = channel_list s" "user_list (set_service a w s) = user_list s"
  "server_list (set_service a w s) = server_list s" "exited_list (set_service a w s) = exited_list s"
  "service_list (set_service a w s) = service_list s" "oper_list (set_service a w s) = oper_list s"
  "conf_oper_list (set_service a w s) = conf_oper_list s"
  "client_oper_list (set_service a w s) = client_oper_list s"
  "ignore_list (set_service a w s) = ignore_list s" "server_p (set_service a w s) = server_p s"
  "opped_list (set_service a w s) = opped_list s" "voiced_list (set_service a w s) = voiced_list s"
  "deopped_list (set_service a w s) = deopped_list s" "ban_list (set_service a w s) = ban_list s"
  "mb (set_service a w s) = mb s" "first_kill (set_service a w s) = first_kill s"
  "num_kill (set_service a w s) = num_kill s" "now (set_service a w s) = now s"
  "sendq (set_service a w s) = sendq s" "died (set_service a w s) = died s"
  by (simp_all add: set_service_def)

lemma set_chan_fields [simp]:
  "conf_opers (set_chan c ch s) = conf_opers s" "user_regs (set_chan c ch s) = user_regs s"
  "next_addr (set_chan c ch s) = next_addr s" "name_table (set_chan c ch s) = name_table s"
  "uid_table (set_chan c ch s) = uid_table s" "channel_table (set_chan c ch s) = channel_table s"
  "channel_list (set_chan c ch s) = channel_list s" "user_list (set_chan c ch s) = user_list s"
  "server_list (set_chan c ch s) = server_list s" "exited_list (set_chan c ch s) = exited_list s"
  "service_list (set_chan c ch s) = service_list s" "oper_list (set_chan c ch s) = oper_list s"
  "conf_oper_list (set_chan c ch s) = conf_oper_list s"
  "client_oper_list (set_chan c ch s) = client_oper_list s" "ignore_list (set_chan c ch s) = ignore_list s"
  "server_p (set_chan c ch s) = server_p s" "opped_list (set_chan c ch s) = opped_list s"
  "voiced_list (set_chan c ch s) = voiced_list s" "deopped_list (set_chan c ch s) = deopped_list s"
  "ban_list (set_chan c ch s) = ban_list s" "mb (set_chan c ch s) = mb s"
  "first_kill (set_chan c ch s) = first_kill s" "num_kill (set_chan c ch s) = num_kill s"
  "now (set_chan c ch s) = now s" "sendq (set_chan c ch s) = sendq s" "died (set_chan c ch s) = died s"
  by (simp_all add: set_chan_def)

lemma set_member_fields [simp]:
  "conf_opers (set_member m mp s) = conf_opers s" "user_regs (set_member m mp s) = user_regs s"
  "next_addr (set_member m mp s) = next_addr s" "name_table (set_member m mp s) = name_table s"
  "uid_table (set_member m mp s) = uid_table s" "channel_table (set_member m mp s) = channel_table s"
  "channel_list (set_member m mp s) = channel_list s" "user_list (set_member m mp s) = user_list s"
  "server_list (set_member m mp s) = server_list s" "exited_list (set_member m mp s) = exited_list s"
  "service_list (set_member m mp s) = service_list s" "oper_list (set_member m mp s) = oper_list s"
  "conf_oper_list (set_member m mp s) = conf_oper_list s"
  "client_oper_list (set_member m mp s) = client_oper_list s"
  "ignore_list (set_member m mp s) = ignore_list s" "server_p (set_member m mp s) = server_p s"
  "opped_list (set_member m mp s) = opped_list s" "voiced_list (set_member m mp s) = voiced_list s"
  "deopped_list (set_member m mp s) = deopped_list s" "ban_list (set_member m mp s) = ban_list s"
  "mb (set_member m mp s) = mb s" "first_kill (set_member m mp s) = first_kill s"
  "num_kill (set_member m mp s) = num_kill s" "now (set_member m mp s) = now s"
  "sendq (set_member m mp s) = sendq s" "died (set_member m mp s) = died s"
  by (simp_all add: set_member_def)

text \<open>Projections look at the stores only.\<close>

lemma conf_opers_proj [simp]:
  "keys (s\<lparr>conf_opers := x\<rparr>) = keys s" "kind (s\<lparr>conf_opers := x\<rparr>) = kind s"
  "parent (s\<lparr>conf_opers := x\<rparr>) = parent s" "dead (s\<lparr>conf_opers := x\<rparr>) = dead s"
  "chan_key (s\<lparr>conf_opers := x\<rparr>) = chan_key s"
  "user_chans (s\<lparr>conf_opers := x\<rparr>) = user_chans s"
  "chan_lists (s\<lparr>conf_opers := x\<rparr>) = chan_lists s"
  "chan_services (s\<lparr>conf_opers := x\<rparr>) = chan_services s"
  "service_chans (s\<lparr>conf_opers := x\<rparr>) = service_chans s"
  "user_oper (s\<lparr>conf_opers := x\<rparr>) = user_oper s"
  "user_link (s\<lparr>conf_opers := x\<rparr>) = user_link s"
  "server_lists (s\<lparr>conf_opers := x\<rparr>) = server_lists s"
  "get_user b (s\<lparr>conf_opers := x\<rparr>) = get_user b s"
  "get_server b (s\<lparr>conf_opers := x\<rparr>) = get_server b s"
  "get_service b (s\<lparr>conf_opers := x\<rparr>) = get_service b s"
  by (auto simp: projection_defs fun_eq_iff)

lemma user_regs_proj [simp]:
  "keys (s\<lparr>user_regs := x\<rparr>) = keys s" "kind (s\<lparr>user_regs := x\<rparr>) = kind s"
  "parent (s\<lparr>user_regs := x\<rparr>) = parent s" "dead (s\<lparr>user_regs := x\<rparr>) = dead s"
  "chan_key (s\<lparr>user_regs := x\<rparr>) = chan_key s"
  "user_chans (s\<lparr>user_regs := x\<rparr>) = user_chans s"
  "chan_lists (s\<lparr>user_regs := x\<rparr>) = chan_lists s"
  "chan_services (s\<lparr>user_regs := x\<rparr>) = chan_services s"
  "service_chans (s\<lparr>user_regs := x\<rparr>) = service_chans s"
  "user_oper (s\<lparr>user_regs := x\<rparr>) = user_oper s"
  "user_link (s\<lparr>user_regs := x\<rparr>) = user_link s"
  "server_lists (s\<lparr>user_regs := x\<rparr>) = server_lists s"
  "get_user b (s\<lparr>user_regs := x\<rparr>) = get_user b s"
  "get_server b (s\<lparr>user_regs := x\<rparr>) = get_server b s"
  "get_service b (s\<lparr>user_regs := x\<rparr>) = get_service b s"
  by (auto simp: projection_defs fun_eq_iff)

lemma next_addr_proj [simp]:
  "keys (s\<lparr>next_addr := x\<rparr>) = keys s" "kind (s\<lparr>next_addr := x\<rparr>) = kind s"
  "parent (s\<lparr>next_addr := x\<rparr>) = parent s" "dead (s\<lparr>next_addr := x\<rparr>) = dead s"
  "chan_key (s\<lparr>next_addr := x\<rparr>) = chan_key s"
  "user_chans (s\<lparr>next_addr := x\<rparr>) = user_chans s"
  "chan_lists (s\<lparr>next_addr := x\<rparr>) = chan_lists s"
  "chan_services (s\<lparr>next_addr := x\<rparr>) = chan_services s"
  "service_chans (s\<lparr>next_addr := x\<rparr>) = service_chans s"
  "user_oper (s\<lparr>next_addr := x\<rparr>) = user_oper s"
  "user_link (s\<lparr>next_addr := x\<rparr>) = user_link s"
  "server_lists (s\<lparr>next_addr := x\<rparr>) = server_lists s"
  "get_user b (s\<lparr>next_addr := x\<rparr>) = get_user b s"
  "get_server b (s\<lparr>next_addr := x\<rparr>) = get_server b s"
  "get_service b (s\<lparr>next_addr := x\<rparr>) = get_service b s"
  by (auto simp: projection_defs fun_eq_iff)

lemma name_table_proj [simp]:
  "keys (s\<lparr>name_table := x\<rparr>) = keys s" "kind (s\<lparr>name_table := x\<rparr>) = kind s"
  "parent (s\<lparr>name_table := x\<rparr>) = parent s" "dead (s\<lparr>name_table := x\<rparr>) = dead s"
  "chan_key (s\<lparr>name_table := x\<rparr>) = chan_key s"
  "user_chans (s\<lparr>name_table := x\<rparr>) = user_chans s"
  "chan_lists (s\<lparr>name_table := x\<rparr>) = chan_lists s"
  "chan_services (s\<lparr>name_table := x\<rparr>) = chan_services s"
  "service_chans (s\<lparr>name_table := x\<rparr>) = service_chans s"
  "user_oper (s\<lparr>name_table := x\<rparr>) = user_oper s"
  "user_link (s\<lparr>name_table := x\<rparr>) = user_link s"
  "server_lists (s\<lparr>name_table := x\<rparr>) = server_lists s"
  "get_user b (s\<lparr>name_table := x\<rparr>) = get_user b s"
  "get_server b (s\<lparr>name_table := x\<rparr>) = get_server b s"
  "get_service b (s\<lparr>name_table := x\<rparr>) = get_service b s"
  by (auto simp: projection_defs fun_eq_iff)

lemma uid_table_proj [simp]:
  "keys (s\<lparr>uid_table := x\<rparr>) = keys s" "kind (s\<lparr>uid_table := x\<rparr>) = kind s"
  "parent (s\<lparr>uid_table := x\<rparr>) = parent s" "dead (s\<lparr>uid_table := x\<rparr>) = dead s"
  "chan_key (s\<lparr>uid_table := x\<rparr>) = chan_key s"
  "user_chans (s\<lparr>uid_table := x\<rparr>) = user_chans s"
  "chan_lists (s\<lparr>uid_table := x\<rparr>) = chan_lists s"
  "chan_services (s\<lparr>uid_table := x\<rparr>) = chan_services s"
  "service_chans (s\<lparr>uid_table := x\<rparr>) = service_chans s"
  "user_oper (s\<lparr>uid_table := x\<rparr>) = user_oper s"
  "user_link (s\<lparr>uid_table := x\<rparr>) = user_link s"
  "server_lists (s\<lparr>uid_table := x\<rparr>) = server_lists s"
  "get_user b (s\<lparr>uid_table := x\<rparr>) = get_user b s"
  "get_server b (s\<lparr>uid_table := x\<rparr>) = get_server b s"
  "get_service b (s\<lparr>uid_table := x\<rparr>) = get_service b s"
  by (auto simp: projection_defs fun_eq_iff)

lemma channel_table_proj [simp]:
  "keys (s\<lparr>channel_table := x\<rparr>) = keys s" "kind (s\<lparr>channel_table := x\<rparr>) = kind s"
  "parent (s\<lparr>channel_table := x\<rparr>) = parent s" "dead (s\<lparr>channel_table := x\<rparr>) = dead s"
  "chan_key (s\<lparr>channel_table := x\<rparr>) = chan_key s"
  "user_chans (s\<lparr>channel_table := x\<rparr>) = user_chans s"
  "chan_lists (s\<lparr>channel_table := x\<rparr>) = chan_lists s"
  "chan_services (s\<lparr>channel_table := x\<rparr>) = chan_services s"
  "service_chans (s\<lparr>channel_table := x\<rparr>) = service_chans s"
  "user_oper (s\<lparr>channel_table := x\<rparr>) = user_oper s"
  "user_link (s\<lparr>channel_table := x\<rparr>) = user_link s"
  "server_lists (s\<lparr>channel_table := x\<rparr>) = server_lists s"
  "get_user b (s\<lparr>channel_table := x\<rparr>) = get_user b s"
  "get_server b (s\<lparr>channel_table := x\<rparr>) = get_server b s"
  "get_service b (s\<lparr>channel_table := x\<rparr>) = get_service b s"
  by (auto simp: projection_defs fun_eq_iff)

lemma channel_list_proj [simp]:
  "keys (s\<lparr>channel_list := x\<rparr>) = keys s" "kind (s\<lparr>channel_list := x\<rparr>) = kind s"
  "parent (s\<lparr>channel_list := x\<rparr>) = parent s" "dead (s\<lparr>channel_list := x\<rparr>) = dead s"
  "chan_key (s\<lparr>channel_list := x\<rparr>) = chan_key s"
  "user_chans (s\<lparr>channel_list := x\<rparr>) = user_chans s"
  "chan_lists (s\<lparr>channel_list := x\<rparr>) = chan_lists s"
  "chan_services (s\<lparr>channel_list := x\<rparr>) = chan_services s"
  "service_chans (s\<lparr>channel_list := x\<rparr>) = service_chans s"
  "user_oper (s\<lparr>channel_list := x\<rparr>) = user_oper s"
  "user_link (s\<lparr>channel_list := x\<rparr>) = user_link s"
  "server_lists (s\<lparr>channel_list := x\<rparr>) = server_lists s"
  "get_user b (s\<lparr>channel_list := x\<rparr>) = get_user b s"
  "get_server b (s\<lparr>channel_list := x\<rparr>) = get_server b s"
  "get_service b (s\<lparr>channel_list := x\<rparr>) = get_service b s"
  by (auto simp: projection_defs fun_eq_iff)

lemma user_list_proj [simp]:
  "keys (s\<lparr>user_list := x\<rparr>) = keys s" "kind (s\<lparr>user_list := x\<rparr>) = kind s"
  "parent (s\<lparr>user_list := x\<rparr>) = parent s" "dead (s\<lparr>user_list := x\<rparr>) = dead s"
  "chan_key (s\<lparr>user_list := x\<rparr>) = chan_key s"
  "user_chans (s\<lparr>user_list := x\<rparr>) = user_chans s"
  "chan_lists (s\<lparr>user_list := x\<rparr>) = chan_lists s"
  "chan_services (s\<lparr>user_list := x\<rparr>) = chan_services s"
  "service_chans (s\<lparr>user_list := x\<rparr>) = service_chans s"
  "user_oper (s\<lparr>user_list := x\<rparr>) = user_oper s"
  "user_link (s\<lparr>user_list := x\<rparr>) = user_link s"
  "server_lists (s\<lparr>user_list := x\<rparr>) = server_lists s"
  "get_user b (s\<lparr>user_list := x\<rparr>) = get_user b s"
  "get_server b (s\<lparr>user_list := x\<rparr>) = get_server b s"
  "get_service b (s\<lparr>user_list := x\<rparr>) = get_service b s"
  by (auto simp: projection_defs fun_eq_iff)

lemma server_list_proj [simp]:
  "keys (s\<lparr>server_list := x\<rparr>) = keys s" "kind (s\<lparr>server_list := x\<rparr>) = kind s"
  "parent (s\<lparr>server_list := x\<rparr>) = parent s" "dead (s\<lparr>server_list := x\<rparr>) = dead s"
  "chan_key (s\<lparr>server_list := x\<rparr>) = chan_key s"
  "user_chans (s\<lparr>server_list := x\<rparr>) = user_chans s"
  "chan_lists (s\<lparr>server_list := x\<rparr>) = chan_lists s"
  "chan_services (s\<lparr>server_list := x\<rparr>) = chan_services s"
  "service_chans (s\<lparr>server_list := x\<rparr>) = service_chans s"
  "user_oper (s\<lparr>server_list := x\<rparr>) = user_oper s"
  "user_link (s\<lparr>server_list := x\<rparr>) = user_link s"
  "server_lists (s\<lparr>server_list := x\<rparr>) = server_lists s"
  "get_user b (s\<lparr>server_list := x\<rparr>) = get_user b s"
  "get_server b (s\<lparr>server_list := x\<rparr>) = get_server b s"
  "get_service b (s\<lparr>server_list := x\<rparr>) = get_service b s"
  by (auto simp: projection_defs fun_eq_iff)

lemma exited_list_proj [simp]:
  "keys (s\<lparr>exited_list := x\<rparr>) = keys s" "kind (s\<lparr>exited_list := x\<rparr>) = kind s"
  "parent (s\<lparr>exited_list := x\<rparr>) = parent s" "dead (s\<lparr>exited_list := x\<rparr>) = dead s"
  "chan_key (s\<lparr>exited_list := x\<rparr>) = chan_key s"
  "user_chans (s\<lparr>exited_list := x\<rparr>) = user_chans s"
  "chan_lists (s\<lparr>exited_list := x\<rparr>) = chan_lists s"
  "chan_services (s\<lparr>exited_list := x\<rparr>) = chan_services s"
  "service_chans (s\<lparr>exited_list := x\<rparr>) = service_chans s"
  "user_oper (s\<lparr>exited_list := x\<rparr>) = user_oper s"
  "user_link (s\<lparr>exited_list := x\<rparr>) = user_link s"
  "server_lists (s\<lparr>exited_list := x\<rparr>) = server_lists s"
  "get_user b (s\<lparr>exited_list := x\<rparr>) = get_user b s"
  "get_server b (s\<lparr>exited_list := x\<rparr>) = get_server b s"
  "get_service b (s\<lparr>exited_list := x\<rparr>) = get_service b s"
  by (auto simp: projection_defs fun_eq_iff)

lemma service_list_proj [simp]:
  "keys (s\<lparr>service_list := x\<rparr>) = keys s" "kind (s\<lparr>service_list := x\<rparr>) = kind s"
  "parent (s\<lparr>service_list := x\<rparr>) = parent s" "dead (s\<lparr>service_list := x\<rparr>) = dead s"
  "chan_key (s\<lparr>service_list := x\<rparr>) = chan_key s"
  "user_chans (s\<lparr>service_list := x\<rparr>) = user_chans s"
  "chan_lists (s\<lparr>service_list := x\<rparr>) = chan_lists s"
  "chan_services (s\<lparr>service_list := x\<rparr>) = chan_services s"
  "service_chans (s\<lparr>service_list := x\<rparr>) = service_chans s"
  "user_oper (s\<lparr>service_list := x\<rparr>) = user_oper s"
  "user_link (s\<lparr>service_list := x\<rparr>) = user_link s"
  "server_lists (s\<lparr>service_list := x\<rparr>) = server_lists s"
  "get_user b (s\<lparr>service_list := x\<rparr>) = get_user b s"
  "get_server b (s\<lparr>service_list := x\<rparr>) = get_server b s"
  "get_service b (s\<lparr>service_list := x\<rparr>) = get_service b s"
  by (auto simp: projection_defs fun_eq_iff)

lemma oper_list_proj [simp]:
  "keys (s\<lparr>oper_list := x\<rparr>) = keys s" "kind (s\<lparr>oper_list := x\<rparr>) = kind s"
  "parent (s\<lparr>oper_list := x\<rparr>) = parent s" "dead (s\<lparr>oper_list := x\<rparr>) = dead s"
  "chan_key (s\<lparr>oper_list := x\<rparr>) = chan_key s"
  "user_chans (s\<lparr>oper_list := x\<rparr>) = user_chans s"
  "chan_lists (s\<lparr>oper_list := x\<rparr>) = chan_lists s"
  "chan_services (s\<lparr>oper_list := x\<rparr>) = chan_services s"
  "service_chans (s\<lparr>oper_list := x\<rparr>) = service_chans s"
  "user_oper (s\<lparr>oper_list := x\<rparr>) = user_oper s"
  "user_link (s\<lparr>oper_list := x\<rparr>) = user_link s"
  "server_lists (s\<lparr>oper_list := x\<rparr>) = server_lists s"
  "get_user b (s\<lparr>oper_list := x\<rparr>) = get_user b s"
  "get_server b (s\<lparr>oper_list := x\<rparr>) = get_server b s"
  "get_service b (s\<lparr>oper_list := x\<rparr>) = get_service b s"
  by (auto simp: projection_defs fun_eq_iff)

lemma conf_oper_list_proj [simp]:
  "keys (s\<lparr>conf_oper_list := x\<rparr>) = keys s" "kind (s\<lparr>conf_oper_list := x\<rparr>) = kind s"
  "parent (s\<lparr>conf_oper_list := x\<rparr>) = parent s" "dead (s\<lparr>conf_oper_list := x\<rparr>) = dead s"
  "chan_key (s\<lparr>conf_oper_list := x\<rparr>) = chan_key s"
  "user_chans (s\<lparr>conf_oper_list := x\<rparr>) = user_chans s"
  "chan_lists (s\<lparr>conf_oper_list := x\<rparr>) = chan_lists s"
  "chan_services (s\<lparr>conf_oper_list := x\<rparr>) = chan_services s"
  "service_chans (s\<lparr>conf_oper_list := x\<rparr>) = service_chans s"
  "user_oper (s\<lparr>conf_oper_list := x\<rparr>) = user_oper s"
  "user_link (s\<lparr>conf_oper_list := x\<rparr>) = user_link s"
  "server_lists (s\<lparr>conf_oper_list := x\<rparr>) = server_lists s"
  "get_user b (s\<lparr>conf_oper_list := x\<rparr>) = get_user b s"
  "get_server b (s\<lparr>conf_oper_list := x\<rparr>) = get_server b s"
  "get_service b (s\<lparr>conf_oper_list := x\<rparr>) = get_service b s"
  by (auto simp: projection_defs fun_eq_iff)

lemma client_oper_list_proj [simp]:
  "keys (s\<lparr>client_oper_list := x\<rparr>) = keys s" "kind (s\<lparr>client_oper_list := x\<rparr>) = kind s"
  "parent (s\<lparr>client_oper_list := x\<rparr>) = parent s"
  "dead (s\<lparr>client_oper_list := x\<rparr>) = dead s"
  "chan_key (s\<lparr>client_oper_list := x\<rparr>) = chan_key s"
  "user_chans (s\<lparr>client_oper_list := x\<rparr>) = user_chans s"
  "chan_lists (s\<lparr>client_oper_list := x\<rparr>) = chan_lists s"
  "chan_services (s\<lparr>client_oper_list := x\<rparr>) = chan_services s"
  "service_chans (s\<lparr>client_oper_list := x\<rparr>) = service_chans s"
  "user_oper (s\<lparr>client_oper_list := x\<rparr>) = user_oper s"
  "user_link (s\<lparr>client_oper_list := x\<rparr>) = user_link s"
  "server_lists (s\<lparr>client_oper_list := x\<rparr>) = server_lists s"
  "get_user b (s\<lparr>client_oper_list := x\<rparr>) = get_user b s"
  "get_server b (s\<lparr>client_oper_list := x\<rparr>) = get_server b s"
  "get_service b (s\<lparr>client_oper_list := x\<rparr>) = get_service b s"
  by (auto simp: projection_defs fun_eq_iff)

lemma ignore_list_proj [simp]:
  "keys (s\<lparr>ignore_list := x\<rparr>) = keys s" "kind (s\<lparr>ignore_list := x\<rparr>) = kind s"
  "parent (s\<lparr>ignore_list := x\<rparr>) = parent s" "dead (s\<lparr>ignore_list := x\<rparr>) = dead s"
  "chan_key (s\<lparr>ignore_list := x\<rparr>) = chan_key s"
  "user_chans (s\<lparr>ignore_list := x\<rparr>) = user_chans s"
  "chan_lists (s\<lparr>ignore_list := x\<rparr>) = chan_lists s"
  "chan_services (s\<lparr>ignore_list := x\<rparr>) = chan_services s"
  "service_chans (s\<lparr>ignore_list := x\<rparr>) = service_chans s"
  "user_oper (s\<lparr>ignore_list := x\<rparr>) = user_oper s"
  "user_link (s\<lparr>ignore_list := x\<rparr>) = user_link s"
  "server_lists (s\<lparr>ignore_list := x\<rparr>) = server_lists s"
  "get_user b (s\<lparr>ignore_list := x\<rparr>) = get_user b s"
  "get_server b (s\<lparr>ignore_list := x\<rparr>) = get_server b s"
  "get_service b (s\<lparr>ignore_list := x\<rparr>) = get_service b s"
  by (auto simp: projection_defs fun_eq_iff)

lemma server_p_proj [simp]:
  "keys (s\<lparr>server_p := x\<rparr>) = keys s" "kind (s\<lparr>server_p := x\<rparr>) = kind s"
  "parent (s\<lparr>server_p := x\<rparr>) = parent s" "dead (s\<lparr>server_p := x\<rparr>) = dead s"
  "chan_key (s\<lparr>server_p := x\<rparr>) = chan_key s"
  "user_chans (s\<lparr>server_p := x\<rparr>) = user_chans s"
  "chan_lists (s\<lparr>server_p := x\<rparr>) = chan_lists s"
  "chan_services (s\<lparr>server_p := x\<rparr>) = chan_services s"
  "service_chans (s\<lparr>server_p := x\<rparr>) = service_chans s"
  "user_oper (s\<lparr>server_p := x\<rparr>) = user_oper s"
  "user_link (s\<lparr>server_p := x\<rparr>) = user_link s"
  "server_lists (s\<lparr>server_p := x\<rparr>) = server_lists s"
  "get_user b (s\<lparr>server_p := x\<rparr>) = get_user b s"
  "get_server b (s\<lparr>server_p := x\<rparr>) = get_server b s"
  "get_service b (s\<lparr>server_p := x\<rparr>) = get_service b s"
  by (auto simp: projection_defs fun_eq_iff)

lemma opped_list_proj [simp]:
  "keys (s\<lparr>opped_list := x\<rparr>) = keys s" "kind (s\<lparr>opped_list := x\<rparr>) = kind s"
  "parent (s\<lparr>opped_list := x\<rparr>) = parent s" "dead (s\<lparr>opped_list := x\<rparr>) = dead s"
  "chan_key (s\<lparr>opped_list := x\<rparr>) = chan_key s"
  "user_chans (s\<lparr>opped_list := x\<rparr>) = user_chans s"
  "chan_lists (s\<lparr>opped_list := x\<rparr>) = chan_lists s"
  "chan_services (s\<lparr>opped_list := x\<rparr>) = chan_services s"
  "service_chans (s\<lparr>opped_list := x\<rparr>) = service_chans s"
  "user_oper (s\<lparr>opped_list := x\<rparr>) = user_oper s"
  "user_link (s\<lparr>opped_list := x\<rparr>) = user_link s"
  "server_lists (s\<lparr>opped_list := x\<rparr>) = server_lists s"
  "get_user b (s\<lparr>opped_list := x\<rparr>) = get_user b s"
  "get_server b (s\<lparr>opped_list := x\<rparr>) = get_server b s"
  "get_service b (s\<lparr>opped_list := x\<rparr>) = get_service b s"
  by (auto simp: projection_defs fun_eq_iff)

lemma voiced_list_proj [simp]:
  "keys (s\<lparr>voiced_list := x\<rparr>) = keys s" "kind (s\<lparr>voiced_list := x\<rparr>) = kind s"
  "parent (s\<lparr>voiced_list := x\<rparr>) = parent s" "dead (s\<lparr>voiced_list := x\<rparr>) = dead s"
  "chan_key (s\<lparr>voiced_list := x\<rparr>) = chan_key s"
  "user_chans (s\<lparr>voiced_list := x\<rparr>) = user_chans s"
  "chan_lists (s\<lparr>voiced_list := x\<rparr>) = chan_lists s"
  "chan_services (s\<lparr>voiced_list := x\<rparr>) = chan_services s"
  "service_chans (s\<lparr>voiced_list := x\<rparr>) = service_chans s"
  "user_oper (s\<lparr>voiced_list := x\<rparr>) = user_oper s"
  "user_link (s\<lparr>voiced_list := x\<rparr>) = user_link s"
  "server_lists (s\<lparr>voiced_list := x\<rparr>) = server_lists s"
  "get_user b (s\<lparr>voiced_list := x\<rparr>) = get_user b s"
  "get_server b (s\<lparr>voiced_list := x\<rparr>) = get_server b s"
  "get_service b (s\<lparr>voiced_list := x\<rparr>) = get_service b s"
  by (auto simp: projection_defs fun_eq_iff)

lemma deopped_list_proj [simp]:
  "keys (s\<lparr>deopped_list := x\<rparr>) = keys s" "kind (s\<lparr>deopped_list := x\<rparr>) = kind s"
  "parent (s\<lparr>deopped_list := x\<rparr>) = parent s" "dead (s\<lparr>deopped_list := x\<rparr>) = dead s"
  "chan_key (s\<lparr>deopped_list := x\<rparr>) = chan_key s"
  "user_chans (s\<lparr>deopped_list := x\<rparr>) = user_chans s"
  "chan_lists (s\<lparr>deopped_list := x\<rparr>) = chan_lists s"
  "chan_services (s\<lparr>deopped_list := x\<rparr>) = chan_services s"
  "service_chans (s\<lparr>deopped_list := x\<rparr>) = service_chans s"
  "user_oper (s\<lparr>deopped_list := x\<rparr>) = user_oper s"
  "user_link (s\<lparr>deopped_list := x\<rparr>) = user_link s"
  "server_lists (s\<lparr>deopped_list := x\<rparr>) = server_lists s"
  "get_user b (s\<lparr>deopped_list := x\<rparr>) = get_user b s"
  "get_server b (s\<lparr>deopped_list := x\<rparr>) = get_server b s"
  "get_service b (s\<lparr>deopped_list := x\<rparr>) = get_service b s"
  by (auto simp: projection_defs fun_eq_iff)

lemma ban_list_proj [simp]:
  "keys (s\<lparr>ban_list := x\<rparr>) = keys s" "kind (s\<lparr>ban_list := x\<rparr>) = kind s"
  "parent (s\<lparr>ban_list := x\<rparr>) = parent s" "dead (s\<lparr>ban_list := x\<rparr>) = dead s"
  "chan_key (s\<lparr>ban_list := x\<rparr>) = chan_key s"
  "user_chans (s\<lparr>ban_list := x\<rparr>) = user_chans s"
  "chan_lists (s\<lparr>ban_list := x\<rparr>) = chan_lists s"
  "chan_services (s\<lparr>ban_list := x\<rparr>) = chan_services s"
  "service_chans (s\<lparr>ban_list := x\<rparr>) = service_chans s"
  "user_oper (s\<lparr>ban_list := x\<rparr>) = user_oper s"
  "user_link (s\<lparr>ban_list := x\<rparr>) = user_link s"
  "server_lists (s\<lparr>ban_list := x\<rparr>) = server_lists s"
  "get_user b (s\<lparr>ban_list := x\<rparr>) = get_user b s"
  "get_server b (s\<lparr>ban_list := x\<rparr>) = get_server b s"
  "get_service b (s\<lparr>ban_list := x\<rparr>) = get_service b s"
  by (auto simp: projection_defs fun_eq_iff)

lemma mb_proj [simp]:
  "keys (s\<lparr>mb := x\<rparr>) = keys s" "kind (s\<lparr>mb := x\<rparr>) = kind s"
  "parent (s\<lparr>mb := x\<rparr>) = parent s" "dead (s\<lparr>mb := x\<rparr>) = dead s"
  "chan_key (s\<lparr>mb := x\<rparr>) = chan_key s" "user_chans (s\<lparr>mb := x\<rparr>) = user_chans s"
  "chan_lists (s\<lparr>mb := x\<rparr>) = chan_lists s" "chan_services (s\<lparr>mb := x\<rparr>) = chan_services s"
  "service_chans (s\<lparr>mb := x\<rparr>) = service_chans s" "user_oper (s\<lparr>mb := x\<rparr>) = user_oper s"
  "user_link (s\<lparr>mb := x\<rparr>) = user_link s" "server_lists (s\<lparr>mb := x\<rparr>) = server_lists s"
  "get_user b (s\<lparr>mb := x\<rparr>) = get_user b s" "get_server b (s\<lparr>mb := x\<rparr>) = get_server b s"
  "get_service b (s\<lparr>mb := x\<rparr>) = get_service b s"
  by (auto simp: projection_defs fun_eq_iff)

lemma first_kill_proj [simp]:
  "keys (s\<lparr>first_kill := x\<rparr>) = keys s" "kind (s\<lparr>first_kill := x\<rparr>) = kind s"
  "parent (s\<lparr>first_kill := x\<rparr>) = parent s" "dead (s\<lparr>first_kill := x\<rparr>) = dead s"
  "chan_key (s\<lparr>first_kill := x\<rparr>) = chan_key s"
  "user_chans (s\<lparr>first_kill := x\<rparr>) = user_chans s"
  "chan_lists (s\<lparr>first_kill := x\<rparr>) = chan_lists s"
  "chan_services (s\<lparr>first_kill := x\<rparr>) = chan_services s"
  "service_chans (s\<lparr>first_kill := x\<rparr>) = service_chans s"
  "user_oper (s\<lparr>first_kill := x\<rparr>) = user_oper s"
  "user_link (s\<lparr>first_kill := x\<rparr>) = user_link s"
  "server_lists (s\<lparr>first_kill := x\<rparr>) = server_lists s"
  "get_user b (s\<lparr>first_kill := x\<rparr>) = get_user b s"
  "get_server b (s\<lparr>first_kill := x\<rparr>) = get_server b s"
  "get_service b (s\<lparr>first_kill := x\<rparr>) = get_service b s"
  by (auto simp: projection_defs fun_eq_iff)

lemma num_kill_proj [simp]:
  "keys (s\<lparr>num_kill := x\<rparr>) = keys s" "kind (s\<lparr>num_kill := x\<rparr>) = kind s"
  "parent (s\<lparr>num_kill := x\<rparr>) = parent s" "dead (s\<lparr>num_kill := x\<rparr>) = dead s"
  "chan_key (s\<lparr>num_kill := x\<rparr>) = chan_key s"
  "user_chans (s\<lparr>num_kill := x\<rparr>) = user_chans s"
  "chan_lists (s\<lparr>num_kill := x\<rparr>) = chan_lists s"
  "chan_services (s\<lparr>num_kill := x\<rparr>) = chan_services s"
  "service_chans (s\<lparr>num_kill := x\<rparr>) = service_chans s"
  "user_oper (s\<lparr>num_kill := x\<rparr>) = user_oper s"
  "user_link (s\<lparr>num_kill := x\<rparr>) = user_link s"
  "server_lists (s\<lparr>num_kill := x\<rparr>) = server_lists s"
  "get_user b (s\<lparr>num_kill := x\<rparr>) = get_user b s"
  "get_server b (s\<lparr>num_kill := x\<rparr>) = get_server b s"
  "get_service b (s\<lparr>num_kill := x\<rparr>) = get_service b s"
  by (auto simp: projection_defs fun_eq_iff)

lemma now_proj [simp]:
  "keys (s\<lparr>now := x\<rparr>) = keys s" "kind (s\<lparr>now := x\<rparr>) = kind s"
  "parent (s\<lparr>now := x\<rparr>) = parent s" "dead (s\<lparr>now := x\<rparr>) = dead s"
  "chan_key (s\<lparr>now := x\<rparr>) = chan_key s" "user_chans (s\<lparr>now := x\<rparr>) = user_chans s"
  "chan_lists (s\<lparr>now := x\<rparr>) = chan_lists s"
  "chan_services (s\<lparr>now := x\<rparr>) = chan_services s"
  "service_chans (s\<lparr>now := x\<rparr>) = service_chans s" "user_oper (s\<lparr>now := x\<rparr>) = user_oper s"
  "user_link (s\<lparr>now := x\<rparr>) = user_link s" "server_lists (s\<lparr>now := x\<rparr>) = server_lists s"
  "get_user b (s\<lparr>now := x\<rparr>) = get_user b s" "get_server b (s\<lparr>now := x\<rparr>) = get_server b s"
  "get_service b (s\<lparr>now := x\<rparr>) = get_service b s"
  by (auto simp: projection_defs fun_eq_iff)

lemma sendq_proj [simp]:
  "keys (s\<lparr>sendq := x\<rparr>) = keys s" "kind (s\<lparr>sendq := x\<rparr>) = kind s"
  "parent (s\<lparr>sendq := x\<rparr>) = parent s" "dead (s\<lparr>sendq := x\<rparr>) = dead s"
  "chan_key (s\<lparr>sendq := x\<rparr>) = chan_key s" "user_chans (s\<lparr>sendq := x\<rparr>) = user_chans s"
  "chan_lists (s\<lparr>sendq := x\<rparr>) = chan_lists s"
  "chan_services (s\<lparr>sendq := x\<rparr>) = chan_services s"
  "service_chans (s\<lparr>sendq := x\<rparr>) = service_chans s"
  "user_oper (s\<lparr>sendq := x\<rparr>) = user_oper s" "user_link (s\<lparr>sendq := x\<rparr>) = user_link s"
  "server_lists (s\<lparr>sendq := x\<rparr>) = server_lists s"
  "get_user b (s\<lparr>sendq := x\<rparr>) = get_user b s"
  "get_server b (s\<lparr>sendq := x\<rparr>) = get_server b s"
  "get_service b (s\<lparr>sendq := x\<rparr>) = get_service b s"
  by (auto simp: projection_defs fun_eq_iff)

lemma died_proj [simp]:
  "keys (s\<lparr>died := x\<rparr>) = keys s" "kind (s\<lparr>died := x\<rparr>) = kind s"
  "parent (s\<lparr>died := x\<rparr>) = parent s" "dead (s\<lparr>died := x\<rparr>) = dead s"
  "chan_key (s\<lparr>died := x\<rparr>) = chan_key s" "user_chans (s\<lparr>died := x\<rparr>) = user_chans s"
  "chan_lists (s\<lparr>died := x\<rparr>) = chan_lists s"
  "chan_services (s\<lparr>died := x\<rparr>) = chan_services s"
  "service_chans (s\<lparr>died := x\<rparr>) = service_chans s"
  "user_oper (s\<lparr>died := x\<rparr>) = user_oper s" "user_link (s\<lparr>died := x\<rparr>) = user_link s"
  "server_lists (s\<lparr>died := x\<rparr>) = server_lists s"
  "get_user b (s\<lparr>died := x\<rparr>) = get_user b s"
  "get_server b (s\<lparr>died := x\<rparr>) = get_server b s"
  "get_service b (s\<lparr>died := x\<rparr>) = get_service b s"
  by (auto simp: projection_defs fun_eq_iff)

end
