(* ===== verification/Invariant.thy ===== *)
theory Invariant
  imports Frame
begin

section \<open>Invariant: well-formed states\<close>

text \<open>
  The data-structure invariant of the network state, in parts that each look at their own
  projections of the state:
  \<^item> \<open>tables_ok\<close>: the buckets of \<open>name_table\<close> and \<open>uid_table\<close> hold allocated clients under the
    hash of their name and id, and exactly the clients of the first that have an id are in the second;
  \<^item> \<open>chtable_ok\<close>: \<open>channel_table\<close> and \<open>channel_list\<close> hold exactly the allocated channels, and no
    two channels have the same name up to case;
  \<^item> \<open>members_ok\<close>: a channel's list of users, a user's list of channels and the membership objects
    describe the same relation, at most one object per pair, and the opped and unopped lists split
    the users of a channel by the flag;
  \<^item> \<open>services_ok\<close>: the services of a channel and the channels of a service are converse, and the
    services noted as deopped are services;
  \<^item> \<open>links_ok\<close>: the users and servers of a server are those whose uplink it is, listed clients
    are hashed, an uplink was allocated before the clients behind it, and an exited client is no
    service and in no table;
  \<^item> \<open>opers_ok\<close>: an operator block in use is allocated and its reference count covers its users;
  \<^item> \<open>listed_ok\<close>: a hashed client is a user, a server or a service of the list of its kind.
\<close>

subsection \<open>The parts\<close>

definition tables_ok :: "net \<Rightarrow> bool" where
  "tables_ok s \<longleftrightarrow>
     (\<forall>h. distinct (name_table s h)) \<and> (\<forall>h. distinct (uid_table s h)) \<and>
     (\<forall>h a. a \<in> set (name_table s h) \<longrightarrow> (\<exists>n u. keys s a = Some (n, u) \<and> hash_name n = h)) \<and>
     (\<forall>h a. a \<in> set (uid_table s h) \<longleftrightarrow> hashed s a \<and> (\<exists>n u. keys s a = Some (n, u) \<and> u \<noteq> [] \<and> hash_name u = h))"

definition chtable_ok :: "net \<Rightarrow> bool" where
  "chtable_ok s \<longleftrightarrow>
     distinct (channel_list s) \<and> (\<forall>c. c \<in> set (channel_list s) \<longleftrightarrow> chan_key s c \<noteq> None) \<and>
     (\<forall>h. distinct (channel_table s h)) \<and>
     (\<forall>h c. c \<in> set (channel_table s h) \<longleftrightarrow> (\<exists>n. chan_key s c = Some n \<and> hash_channel n = h)) \<and>
     (\<forall>c n. chan_key s c = Some n \<longrightarrow> cstring n) \<and>
     (\<forall>c c' n n'. chan_key s c = Some n \<longrightarrow> chan_key s c' = Some n' \<longrightarrow> irccmp n n' = 0 \<longrightarrow> c = c')"

text \<open>The lists of a channel and of a user agree with the membership objects.\<close>

definition chan_match :: "(addr \<Rightarrow> chmember option) \<Rightarrow> addr \<Rightarrow> addr list \<times> addr list \<times> addr list \<Rightarrow> bool" where
  "chan_match M c l = (case l of (us, ops, uns) \<Rightarrow>
     distinct us \<and> distinct ops \<and> distinct uns \<and>
     (\<forall>m. m \<in> set us \<longleftrightarrow> (\<exists>mp. M m = Some mp \<and> chptr mp = c)) \<and>
     (\<forall>m. m \<in> set ops \<longleftrightarrow> (\<exists>mp. M m = Some mp \<and> chptr mp = c \<and> is_opped mp)) \<and>
     (\<forall>m. m \<in> set uns \<longleftrightarrow> (\<exists>mp. M m = Some mp \<and> chptr mp = c \<and> \<not> is_opped mp)))"

definition user_match :: "(addr \<Rightarrow> chmember option) \<Rightarrow> addr \<Rightarrow> addr list \<Rightarrow> bool" where
  "user_match M a ms \<longleftrightarrow> distinct ms \<and> (\<forall>m. m \<in> set ms \<longleftrightarrow> (\<exists>mp. M m = Some mp \<and> mclient mp = a))"

definition members_ok :: "net \<Rightarrow> bool" where
  "members_ok s \<longleftrightarrow>
     (\<forall>m mp. members s m = Some mp \<longrightarrow>
        chan_lists s (chptr mp) \<noteq> None \<and> user_chans s (mclient mp) \<noteq> None \<and> mclient mp \<in> set (user_list s)) \<and>
     (\<forall>m m' mp mp'. members s m = Some mp \<longrightarrow> members s m' = Some mp' \<longrightarrow>
        chptr mp = chptr mp' \<longrightarrow> mclient mp = mclient mp' \<longrightarrow> m = m') \<and>
     (\<forall>c l. chan_lists s c = Some l \<longrightarrow> chan_match (members s) c l) \<and>
     (\<forall>a ms. user_chans s a = Some ms \<longrightarrow> user_match (members s) a ms)"

definition services_ok :: "net \<Rightarrow> bool" where
  "services_ok s \<longleftrightarrow>
     (\<forall>c svs. chan_services s c = Some svs \<longrightarrow>
        distinct svs \<and> (\<forall>a. a \<in> set svs \<longleftrightarrow> (\<exists>cs. service_chans s a = Some cs \<and> c \<in> set cs))) \<and>
     (\<forall>a cs. service_chans s a = Some cs \<longrightarrow>
        distinct cs \<and> (\<forall>c. c \<in> set cs \<longrightarrow> chan_services s c \<noteq> None)) \<and>
     distinct (service_list s) \<and> (\<forall>a. a \<in> set (service_list s) \<longrightarrow> service_chans s a \<noteq> None) \<and>
     set (deopped_list s) \<subseteq> set (service_list s)"

definition links_ok :: "net \<Rightarrow> bool" where
  "links_ok s \<longleftrightarrow>
     distinct (user_list s) \<and> distinct (server_list s) \<and>
     (\<forall>a. a \<in> set (user_list s) \<longrightarrow> hashed s a \<and> kind s a = Some (True, False, False) \<and> \<not> dead s a \<and>
        (\<exists>v. parent s a = Some v \<and> v \<in> set (server_list s) \<and> v < a)) \<and>
     (\<forall>a. a \<in> set (server_list s) \<longrightarrow> hashed s a \<and> kind s a = Some (False, True, False) \<and>
        (\<forall>v. parent s a = Some v \<longrightarrow> v \<in> set (server_list s) \<and> v < a)) \<and>
     (\<forall>a us vs. a \<in> set (server_list s) \<longrightarrow> server_lists s a = Some (us, vs) \<longrightarrow>
        distinct us \<and> distinct vs \<and>
        (\<forall>b. b \<in> set us \<longleftrightarrow> b \<in> set (user_list s) \<and> parent s b = Some a) \<and>
        (\<forall>b. b \<in> set vs \<longleftrightarrow> b \<in> set (server_list s) \<and> parent s b = Some a)) \<and>
     (\<forall>a. a \<in> set (exited_list s) \<longrightarrow> (\<exists>x y. kind s a = Some (x, y, False)) \<and> \<not> hashed s a) \<and>
     distinct (exited_list s)"

definition oper_refs :: "net \<Rightarrow> addr \<Rightarrow> nat" where
  "oper_refs s p = length (filter (\<lambda>a. user_oper s a = Some p) (user_list s)) +
     length (filter (\<lambda>co. co_oper co = p) (client_oper_list s))"

abbreviation CONF_DEAD :: "64 word" where "CONF_DEAD \<equiv> 0x0001"

definition opers_ok :: "net \<Rightarrow> bool" where
  "opers_ok s \<longleftrightarrow>
     (\<forall>p. 0 < oper_refs s p \<longrightarrow> conf_opers s p \<noteq> None) \<and>
     (\<forall>p co. conf_opers s p = Some co \<longrightarrow> int (oper_refs s p) \<le> refcount co) \<and>
     (\<forall>p. p \<in> set (conf_oper_list s) \<longrightarrow> (\<exists>co. conf_opers s p = Some co \<and> op_flags co AND CONF_DEAD = 0)) \<and>
     (\<forall>a r. a \<in> set (user_list s) \<longrightarrow> user_link s a = Some r \<longrightarrow> user_regs s r \<noteq> None)"

definition alloc_ok :: "net \<Rightarrow> bool" where
  "alloc_ok s \<longleftrightarrow> (\<forall>a. next_addr s \<le> a \<longrightarrow> keys s a = None \<and> chan_key s a = None \<and> members s a = None)"

text \<open>Services are neither users nor servers, so that the three kinds of client are apart.\<close>

definition listed_ok :: "net \<Rightarrow> bool" where
  "listed_ok s \<longleftrightarrow>
     (\<forall>a. a \<in> set (service_list s) \<longrightarrow> kind s a = Some (False, False, True)) \<and>
     (\<forall>a. hashed s a \<longrightarrow> a \<in> set (user_list s) \<or> a \<in> set (server_list s) \<or> a \<in> set (service_list s))"

definition net_ok :: "net \<Rightarrow> bool" where
  "net_ok s \<longleftrightarrow> tables_ok s \<and> chtable_ok s \<and> members_ok s \<and> services_ok s \<and> links_ok s \<and> opers_ok s \<and> alloc_ok s \<and>
     listed_ok s"

lemma net_okD [dest]:
  assumes "net_ok s"
  shows "tables_ok s" "chtable_ok s" "members_ok s" "services_ok s" "links_ok s" "opers_ok s" "alloc_ok s" "listed_ok s"
  using assms by (auto simp: net_ok_def)

subsection \<open>Congruence\<close>

lemma tables_ok_cong:
  "keys s' = keys s \<Longrightarrow> name_table s' = name_table s \<Longrightarrow> uid_table s' = uid_table s \<Longrightarrow> tables_ok s' = tables_ok s"
  by (simp add: tables_ok_def hashed_def)

lemma chtable_ok_cong:
  "chan_key s' = chan_key s \<Longrightarrow> channel_table s' = channel_table s \<Longrightarrow> channel_list s' = channel_list s \<Longrightarrow>
   chtable_ok s' = chtable_ok s"
  by (simp add: chtable_ok_def)

lemma members_ok_cong:
  "members s' = members s \<Longrightarrow> chan_lists s' = chan_lists s \<Longrightarrow> user_chans s' = user_chans s \<Longrightarrow>
   user_list s' = user_list s \<Longrightarrow> members_ok s' = members_ok s"
  by (simp add: members_ok_def)

lemma services_ok_cong:
  "chan_services s' = chan_services s \<Longrightarrow> service_chans s' = service_chans s \<Longrightarrow>
   service_list s' = service_list s \<Longrightarrow> deopped_list s' = deopped_list s \<Longrightarrow> services_ok s' = services_ok s"
  by (simp add: services_ok_def)

lemma links_ok_cong:
  "keys s' = keys s \<Longrightarrow> name_table s' = name_table s \<Longrightarrow> kind s' = kind s \<Longrightarrow> dead s' = dead s \<Longrightarrow>
   parent s' = parent s \<Longrightarrow> server_lists s' = server_lists s \<Longrightarrow> user_list s' = user_list s \<Longrightarrow>
   server_list s' = server_list s \<Longrightarrow> exited_list s' = exited_list s \<Longrightarrow> links_ok s' = links_ok s"
  by (simp add: links_ok_def hashed_def)

lemma opers_ok_cong:
  assumes "user_oper s' = user_oper s" "user_link s' = user_link s" "user_list s' = user_list s"
    "client_oper_list s' = client_oper_list s" "conf_oper_list s' = conf_oper_list s" "conf_opers s' = conf_opers s"
    "user_regs s' = user_regs s"
  shows "opers_ok s' = opers_ok s"
  using assms by (simp add: opers_ok_def oper_refs_def)

lemma listed_ok_cong:
  "keys s' = keys s \<Longrightarrow> name_table s' = name_table s \<Longrightarrow> kind s' = kind s \<Longrightarrow> user_list s' = user_list s \<Longrightarrow>
   server_list s' = server_list s \<Longrightarrow> service_list s' = service_list s \<Longrightarrow> listed_ok s' = listed_ok s"
  by (simp add: listed_ok_def hashed_def)

lemma alloc_ok_cong:
  "next_addr s' = next_addr s \<Longrightarrow> keys s' = keys s \<Longrightarrow> chan_key s' = chan_key s \<Longrightarrow> members s' = members s \<Longrightarrow>
   alloc_ok s' = alloc_ok s"
  by (simp add: alloc_ok_def)

subsection \<open>Lookups\<close>

lemma hunt_total:
  assumes "\<And>a. a \<in> set as \<Longrightarrow> p a = Some (P a)"
  shows "hunt p as = Some (find P as)"
  using assms by (induction as) auto

lemma hunt_congD: "hunt p as = Some r \<Longrightarrow> (\<forall>a. r = Some a \<longrightarrow> a \<in> set as \<and> p a = Some True)"
  by (induction as) (auto simp: bind_eq_Some_conv split: if_splits)

definition client_name :: "net \<Rightarrow> addr \<Rightarrow> string" where
  "client_name s a = (case keys s a of None \<Rightarrow> [] | Some (n, u) \<Rightarrow> n)"

definition client_uid :: "net \<Rightarrow> addr \<Rightarrow> string" where
  "client_uid s a = (case keys s a of None \<Rightarrow> [] | Some (n, u) \<Rightarrow> u)"

lemma find_named_client_eq:
  assumes "tables_ok s"
  shows "find_named_client nm s = Some (find (\<lambda>a. irccmp (client_name s a) nm = 0) (name_table s (hash_name nm)))"
  unfolding find_named_client_def
  by (rule hunt_total) (use assms in \<open>fastforce simp: tables_ok_def keys_def client_name_def\<close>)

lemma find_uid_eq:
  assumes "tables_ok s"
  shows "find_uid nm s = Some (find (\<lambda>a. irccmp (client_uid s a) nm = 0) (uid_table s (hash_name nm)))"
  unfolding find_uid_def
  by (rule hunt_total) (use assms in \<open>fastforce simp: tables_ok_def keys_def client_uid_def\<close>)

lemma find_client_eq:
  assumes "tables_ok s"
  shows "find_client nm s = Some (case (if IsDigit (hd (nm @ [NUL])) then
        find (\<lambda>a. irccmp (client_uid s a) nm = 0) (uid_table s (hash_name nm)) else None) of
      Some a \<Rightarrow> Some a | None \<Rightarrow> find (\<lambda>a. irccmp (client_name s a) nm = 0) (name_table s (hash_name nm)))"
  using find_named_client_eq [OF assms, of nm]
  by (auto simp: find_client_def find_uid_eq [OF assms] find_named_client_def split: option.splits)

lemma find_SomeD: "find P xs = Some x \<Longrightarrow> P x \<and> x \<in> set xs"
  by (auto simp: find_Some_iff)

lemma name_table_hashed: "tables_ok s \<Longrightarrow> a \<in> set (name_table s h) \<Longrightarrow> hashed s a"
  unfolding tables_ok_def hashed_def by metis

lemma uid_table_hashed: "tables_ok s \<Longrightarrow> a \<in> set (uid_table s h) \<Longrightarrow> hashed s a"
  by (auto simp: tables_ok_def)

lemma find_client_total:
  assumes "tables_ok s"
  obtains r where "find_client nm s = Some r" "\<And>a. r = Some a \<Longrightarrow> hashed s a"
  using find_client_eq [OF assms, of nm] name_table_hashed [OF assms] uid_table_hashed [OF assms]
  by (force split: option.splits if_splits dest: find_SomeD)

lemma find_named_client_total:
  assumes "tables_ok s"
  obtains r where "find_named_client nm s = Some r" "\<And>a. r = Some a \<Longrightarrow> hashed s a"
  using find_named_client_eq [OF assms, of nm] name_table_hashed [OF assms] by (force dest: find_SomeD)

lemma hashed_client: "hashed s a \<Longrightarrow> \<exists>c. clients s a = Some c"
  by (auto simp: hashed_def keys_def)

lemma keep_if_total:
  assumes "\<And>a. r = Some a \<Longrightarrow> hashed s a"
  obtains r' where "keep_if P r s = Some r'" "\<And>a. r' = Some a \<Longrightarrow> r = Some a \<and> hashed s a \<and> (\<exists>c. clients s a = Some c \<and> P c)"
proof (cases r)
  case (Some a)
  then obtain c where "clients s a = Some c" using assms hashed_client by blast
  then show thesis using that assms Some by (cases "P c") (auto simp: keep_if_def)
qed (use that in \<open>simp add: keep_if_def\<close>)

lemma find_user_total:
  assumes "tables_ok s"
  obtains r where "find_user nm b s = Some r" "\<And>a. r = Some a \<Longrightarrow> hashed s a \<and> (\<exists>u. get_user a s = Some u)"
proof -
  obtain r0 where r0: "(if b then find_client nm s else find_named_client nm s) = Some r0" "\<And>a. r0 = Some a \<Longrightarrow> hashed s a"
    using find_client_total [OF assms, of nm] find_named_client_total [OF assms, of nm] by metis
  obtain r where r: "keep_if (\<lambda>c. user c \<noteq> None) r0 s = Some r"
    "\<And>a. r = Some a \<Longrightarrow> r0 = Some a \<and> hashed s a \<and> (\<exists>c. clients s a = Some c \<and> user c \<noteq> None)"
    using keep_if_total [of r0 s "\<lambda>c. user c \<noteq> None"] r0(2) by blast
  then have "find_user nm b s = Some r" using r0(1) by (simp add: find_user_def)
  moreover have "hashed s a \<and> (\<exists>u. get_user a s = Some u)" if "r = Some a" for a
    using r(2) [OF that] by (auto simp: get_user_def)
  ultimately show thesis using that by blast
qed

lemma find_server_total:
  assumes "tables_ok s"
  obtains r where "find_server nm s = Some r" "\<And>a. r = Some a \<Longrightarrow> hashed s a \<and> (\<exists>v. get_server a s = Some v)"
proof -
  obtain r0 where r0: "find_client nm s = Some r0" "\<And>a. r0 = Some a \<Longrightarrow> hashed s a"
    using find_client_total [OF assms, of nm] by metis
  obtain r where r: "keep_if (\<lambda>c. server c \<noteq> None) r0 s = Some r"
    "\<And>a. r = Some a \<Longrightarrow> r0 = Some a \<and> hashed s a \<and> (\<exists>c. clients s a = Some c \<and> server c \<noteq> None)"
    using keep_if_total [of r0 s "\<lambda>c. server c \<noteq> None"] r0(2) by blast
  then have "find_server nm s = Some r" using r0(1) by (simp add: find_server_def)
  moreover have "hashed s a \<and> (\<exists>v. get_server a s = Some v)" if "r = Some a" for a
    using r(2) [OF that] by (auto simp: get_server_def)
  ultimately show thesis using that by blast
qed

lemma find_service_total:
  assumes "tables_ok s"
  obtains r where "find_service nm s = Some r" "\<And>a. r = Some a \<Longrightarrow> hashed s a \<and> (\<exists>v. get_service a s = Some v)"
proof -
  obtain r0 where r0: "find_client nm s = Some r0" "\<And>a. r0 = Some a \<Longrightarrow> hashed s a"
    using find_client_total [OF assms, of nm] by metis
  obtain r where r: "keep_if (\<lambda>c. service c \<noteq> None) r0 s = Some r"
    "\<And>a. r = Some a \<Longrightarrow> r0 = Some a \<and> hashed s a \<and> (\<exists>c. clients s a = Some c \<and> service c \<noteq> None)"
    using keep_if_total [of r0 s "\<lambda>c. service c \<noteq> None"] r0(2) by blast
  then have "find_service nm s = Some r" using r0(1) by (simp add: find_service_def)
  moreover have "hashed s a \<and> (\<exists>v. get_service a s = Some v)" if "r = Some a" for a
    using r(2) [OF that] by (auto simp: get_service_def)
  ultimately show thesis using that by blast
qed

lemma find_channel_eq:
  assumes "chtable_ok s"
  shows "find_channel nm s = Some (find (\<lambda>c. irccmp (the (chan_key s c)) nm = 0) (channel_table s (hash_channel nm)))"
  unfolding find_channel_def
  by (rule hunt_total) (use assms in \<open>force simp: chtable_ok_def chan_key_def\<close>)

lemma find_channel_total:
  assumes "chtable_ok s"
  obtains r where "find_channel nm s = Some r"
    "\<And>c. r = Some c \<Longrightarrow> (\<exists>ch. chans s c = Some ch \<and> irccmp (chname ch) nm = 0)"
    "r = None \<Longrightarrow> cstring nm \<Longrightarrow> (\<And>c n. chan_key s c = Some n \<Longrightarrow> irccmp n nm \<noteq> 0)"
proof
  let ?r = "find (\<lambda>c. irccmp (the (chan_key s c)) nm = 0) (channel_table s (hash_channel nm))"
  show "find_channel nm s = Some ?r" by (rule find_channel_eq [OF assms])
  show "\<exists>ch. chans s c = Some ch \<and> irccmp (chname ch) nm = 0" if "?r = Some c" for c
    using find_SomeD [OF that] assms by (auto simp: chtable_ok_def chan_key_def)
  show "irccmp n nm \<noteq> 0" if "?r = None" "cstring nm" "chan_key s c = Some n" for c n
  proof
    assume e: "irccmp n nm = 0"
    have "cstring n" using assms that(3) by (auto simp: chtable_ok_def)
    then have "hash_channel n = hash_channel nm" using e that(2) by (intro hash_channel_irccmp)
    then have "c \<in> set (channel_table s (hash_channel nm))" using assms that(3) by (auto simp: chtable_ok_def)
    then show False using that e by (auto simp: find_None_iff)
  qed
qed

subsection \<open>Membership\<close>

text \<open>How the membership invariant survives the addition and the removal of one member and a
  change of its flags.\<close>

lemma members_okD:
  assumes "members_ok s"
  shows "members s m = Some mp \<Longrightarrow> chan_lists s (chptr mp) \<noteq> None \<and> user_chans s (mclient mp) \<noteq> None \<and> mclient mp \<in> set (user_list s)"
    and "members s m = Some mp \<Longrightarrow> members s m' = Some mp' \<Longrightarrow> chptr mp = chptr mp' \<Longrightarrow> mclient mp = mclient mp' \<Longrightarrow> m = m'"
    and "chan_lists s c = Some l \<Longrightarrow> chan_match (members s) c l"
    and "user_chans s a = Some ms \<Longrightarrow> user_match (members s) a ms"
  using assms unfolding members_ok_def by blast+

lemma members_okE:
  assumes "members_ok s" "members s m = Some mp"
  obtains us ops uns ms where "chan_lists s (chptr mp) = Some (us, ops, uns)" "user_chans s (mclient mp) = Some ms"
    "chan_match (members s) (chptr mp) (us, ops, uns)" "user_match (members s) (mclient mp) ms"
    "m \<in> set us" "m \<in> set ms" "m \<in> set ops \<longleftrightarrow> is_opped mp" "m \<in> set uns \<longleftrightarrow> \<not> is_opped mp"
    "distinct us" "distinct ops" "distinct uns" "distinct ms" "mclient mp \<in> set (user_list s)"
proof -
  obtain us ops uns ms where l: "chan_lists s (chptr mp) = Some (us, ops, uns)" "user_chans s (mclient mp) = Some ms"
    using members_okD(1) [OF assms] by auto
  note match = members_okD(3) [OF assms(1) l(1)] members_okD(4) [OF assms(1) l(2)]
  then show thesis
    using assms(2) members_okD(1) [OF assms] by (intro that [OF l match]) (auto simp: chan_match_def user_match_def)
qed

lemma chan_match_other:
  assumes "case M m of None \<Rightarrow> True | Some mp \<Rightarrow> c \<noteq> chptr mp" "case x of None \<Rightarrow> True | Some mp \<Rightarrow> c \<noteq> chptr mp"
  shows "chan_match (M(m := x)) c l = chan_match M c l"
proof -
  have "(\<exists>mp. (M(m := x)) y = Some mp \<and> chptr mp = c \<and> P mp) \<longleftrightarrow> (\<exists>mp. M y = Some mp \<and> chptr mp = c \<and> P mp)" for y P
    using assms by (auto split: option.splits)
  from this [of _ "\<lambda>_. True"] this show ?thesis by (simp only: chan_match_def simp_thms)
qed

lemma user_match_other:
  assumes "case M m of None \<Rightarrow> True | Some mp \<Rightarrow> a \<noteq> mclient mp" "case x of None \<Rightarrow> True | Some mp \<Rightarrow> a \<noteq> mclient mp"
  shows "user_match (M(m := x)) a ms = user_match M a ms"
proof -
  have "(\<exists>mp. (M(m := x)) y = Some mp \<and> mclient mp = a) \<longleftrightarrow> (\<exists>mp. M y = Some mp \<and> mclient mp = a)" for y
    using assms by (auto split: option.splits)
  then show ?thesis by (simp only: user_match_def)
qed

lemma chan_match_del:
  assumes "chan_match M c (us, ops, uns)" "distinct us'" "distinct ops'" "distinct uns'"
    "set us' = set us - {m}" "set ops' = set ops - {m}" "set uns' = set uns - {m}"
  shows "chan_match (M(m := None)) c (us', ops', uns')"
  using assms by (auto simp: chan_match_def)

lemma user_match_del:
  "user_match M a ms \<Longrightarrow> distinct ms' \<Longrightarrow> set ms' = set ms - {m} \<Longrightarrow> user_match (M(m := None)) a ms'"
  by (auto simp: user_match_def)

lemma members_ok_del:
  assumes ok: "members_ok s" and m: "members s m = Some mp"
    and mem': "members s' = (members s)(m := None)" and ul: "user_list s' = user_list s"
    and cl: "chan_lists s' = (chan_lists s)(chptr mp := X)"
    and uc: "user_chans s' = (user_chans s)(mclient mp \<mapsto> ms')"
    and c0: "chan_lists s (chptr mp) = Some (us, ops, uns)" and a0: "user_chans s (mclient mp) = Some ms"
    and X: "(X = None \<and> set us - {m} = {}) \<or> (\<exists>us' ops' uns'. X = Some (us', ops', uns') \<and>
       set us' = set us - {m} \<and> set ops' = set ops - {m} \<and> set uns' = set uns - {m} \<and>
       distinct us' \<and> distinct ops' \<and> distinct uns')"
    and ms': "set ms' = set ms - {m}" "distinct ms'"
  shows "members_ok s'"
  unfolding members_ok_def
proof (intro conjI allI impI)
  note D = members_okD [OF ok]
  fix x p assume "members s' x = Some p"
  then have p: "members s x = Some p" "x \<noteq> m" using mem' by (auto split: if_splits)
  have "x \<in> set us - {m}" if "chptr p = chptr mp" using D(3) [OF c0] p that by (auto simp: chan_match_def)
  then show "chan_lists s' (chptr p) \<noteq> None" using D(1) [OF p(1)] X cl by auto
  show "user_chans s' (mclient p) \<noteq> None" "mclient p \<in> set (user_list s')" using D(1) [OF p(1)] uc ul by auto
next
  fix x y p q
  assume "members s' x = Some p" "members s' y = Some q" "chptr p = chptr q" "mclient p = mclient q"
  then show "x = y" using members_okD(2) [OF ok] mem' by (auto split: if_splits)
next
  fix c l assume c: "chan_lists s' c = Some l"
  show "chan_match (members s') c l"
  proof (cases "c = chptr mp")
    case True
    then show ?thesis using X c cl mem' chan_match_del [OF members_okD(3) [OF ok c0]] by auto
  next
    case False
    then show ?thesis using c cl mem' m members_okD(3) [OF ok, of c l] by (simp add: chan_match_other)
  qed
next
  fix a l assume a: "user_chans s' a = Some l"
  show "user_match (members s') a l"
  proof (cases "a = mclient mp")
    case True
    then show ?thesis using a uc mem' user_match_del [OF members_okD(4) [OF ok a0] ms'(2,1)] by simp
  next
    case False
    then show ?thesis using a uc mem' m members_okD(4) [OF ok, of a l] by (simp add: user_match_other)
  qed
qed

lemma chan_match_add:
  assumes "chan_match M c (us, ops, uns)" "M m = None" "chptr mp = c"
    "distinct us'" "distinct ops'" "distinct uns'" "set us' = insert m (set us)"
    "set ops' = (if is_opped mp then insert m (set ops) else set ops)"
    "set uns' = (if is_opped mp then set uns else insert m (set uns))"
  shows "chan_match (M(m \<mapsto> mp)) c (us', ops', uns')"
  using assms by (auto simp: chan_match_def split: if_splits)

lemma user_match_add:
  "user_match M a ms \<Longrightarrow> M m = None \<Longrightarrow> mclient mp = a \<Longrightarrow> distinct ms' \<Longrightarrow> set ms' = insert m (set ms) \<Longrightarrow>
   user_match (M(m \<mapsto> mp)) a ms'"
  by (auto simp: user_match_def)

lemma members_ok_add:
  assumes ok: "members_ok s" and m: "members s m = None"
    and mem': "members s' = (members s)(m \<mapsto> mp)" and ul: "user_list s' = user_list s" "mclient mp \<in> set (user_list s)"
    and cl: "chan_lists s' = (chan_lists s)(chptr mp \<mapsto> (us', ops', uns'))"
    and uc: "user_chans s' = (user_chans s)(mclient mp \<mapsto> ms')"
    and c0: "chan_lists s (chptr mp) = Some (us, ops, uns)" and a0: "user_chans s (mclient mp) = Some ms"
    and us': "set us' = insert m (set us)" "distinct us'" "distinct ops'" "distinct uns'"
       "set ops' = (if is_opped mp then insert m (set ops) else set ops)"
       "set uns' = (if is_opped mp then set uns else insert m (set uns))"
    and ms': "set ms' = insert m (set ms)" "distinct ms'"
    and new: "\<And>x p. members s x = Some p \<Longrightarrow> chptr p = chptr mp \<Longrightarrow> mclient p \<noteq> mclient mp"
  shows "members_ok s'"
  unfolding members_ok_def
proof (intro conjI allI impI)
  fix x p assume "members s' x = Some p"
  then have "p = mp \<or> members s x = Some p" using mem' by (auto split: if_splits)
  then show "chan_lists s' (chptr p) \<noteq> None" "user_chans s' (mclient p) \<noteq> None" "mclient p \<in> set (user_list s')"
    using members_okD(1) [OF ok] cl uc ul by auto
next
  fix x y p q
  assume "members s' x = Some p" "members s' y = Some q" "chptr p = chptr q" "mclient p = mclient q"
  then show "x = y" using members_okD(2) [OF ok, of x p y q] mem' new [of x p] new [of y q] by (auto split: if_splits)
next
  fix c l assume c: "chan_lists s' c = Some l"
  show "chan_match (members s') c l"
  proof (cases "c = chptr mp")
    case True
    then show ?thesis using c cl mem' chan_match_add [OF members_okD(3) [OF ok c0] m refl us'(2,3,4,1,5,6)] by simp
  next
    case False
    then show ?thesis using c cl mem' m members_okD(3) [OF ok, of c l] by (simp add: chan_match_other)
  qed
next
  fix a l assume a: "user_chans s' a = Some l"
  show "user_match (members s') a l"
  proof (cases "a = mclient mp")
    case True
    then show ?thesis using a uc mem' user_match_add [OF members_okD(4) [OF ok a0] m refl ms'(2,1)] by simp
  next
    case False
    then show ?thesis using a uc mem' m members_okD(4) [OF ok, of a l] by (simp add: user_match_other)
  qed
qed

lemma members_ok_flags:
  assumes ok: "members_ok s" and m: "members s m = Some mp"
    and mem': "members s' = (members s)(m \<mapsto> mp')" "chptr mp' = chptr mp" "mclient mp' = mclient mp"
    and ul: "user_list s' = user_list s" "user_chans s' = user_chans s"
    and cl: "chan_lists s' = (chan_lists s)(chptr mp \<mapsto> (us, ops', uns'))"
    and c0: "chan_lists s (chptr mp) = Some (us, ops, uns)"
    and d: "distinct ops'" "distinct uns'"
    and ops': "set ops' = (if is_opped mp' then insert m (set ops) else set ops - {m})"
       "set uns' = (if is_opped mp' then set uns - {m} else insert m (set uns))"
  shows "members_ok s'"
  unfolding members_ok_def
proof (intro conjI allI impI)
  fix x p assume "members s' x = Some p"
  then have "\<exists>q. members s x = Some q \<and> chptr q = chptr p \<and> mclient q = mclient p" using mem' m by (auto split: if_splits)
  then show "chan_lists s' (chptr p) \<noteq> None" "user_chans s' (mclient p) \<noteq> None" "mclient p \<in> set (user_list s')"
    using members_okD(1) [OF ok] cl ul by fastforce+
next
  fix x y p q
  assume "members s' x = Some p" "members s' y = Some q" "chptr p = chptr q" "mclient p = mclient q"
  then show "x = y" using members_okD(2) [OF ok] mem' m by (auto split: if_splits)
next
  fix c l assume c: "chan_lists s' c = Some l"
  show "chan_match (members s') c l"
  proof (cases "c = chptr mp")
    case True
    then show ?thesis using c cl mem' m members_okD(3) [OF ok c0] d ops'
      by (auto simp: chan_match_def split: if_splits)
  next
    case False
    then show ?thesis using c cl mem' m members_okD(3) [OF ok, of c l] by (simp add: chan_match_other)
  qed
next
  fix a l assume "user_chans s' a = Some l"
  then show "user_match (members s') a l" using members_okD(4) [OF ok, of a l] mem' m ul by (auto simp: user_match_def)
qed

subsection \<open>The environment\<close>

text \<open>
  What the handlers rely on. The library is as documented, and the functions registered on the
  events of this list do no more than send: the network state is the same after them. In the
  source they are those of \<open>src/s_chanfix.c\<close>, \<open>src/s_banserv.c\<close>, \<open>src/s_global.c\<close>, \<open>src/s_nickserv.c\<close>
  and \<open>src/s_jupeserv.c\<close>, which write to the database and to lists of their own.
\<close>

definition passive_hooks :: "nat list" where
  "passive_hooks = [HOOK_CHANNEL_OPLESS, HOOK_CHANNEL_DESTROY, HOOK_CLIENT_EXIT, HOOK_CLIENT_EXIT_SPLIT,
     HOOK_SERVER_EXIT, HOOK_SERVER_EXIT_WARNING, HOOK_CLIENT_CONNECT, HOOK_CLIENT_CONNECT_BURST,
     HOOK_CLIENT_NICKCHANGE, HOOK_PROTO_SQUIT_UNKNOWN]"

locale env_ok =
  fixes E :: env
  assumes lib_ok: "rblib_ok (lib E)"
    and coper_lib_ok: "dlink_ok (coper_lib E)"
    and passive_hook: "h \<in> set passive_hooks \<Longrightarrow> f \<in> set (hooks E h) \<Longrightarrow> \<exists>r q. f a b s = Some (r, s\<lparr>sendq := q\<rparr>)"

sublocale env_ok \<subseteq> rblib_ok "lib E"
  by (rule lib_ok)

sublocale env_ok \<subseteq> copers: dlink_ok "coper_lib E"
  by (rule coper_lib_ok)

context env_ok
begin

lemma run_hooks_passive:
  assumes "\<And>f s. f \<in> set fs \<Longrightarrow> \<exists>r q. f a b s = Some (r, s\<lparr>sendq := q\<rparr>)"
  shows "\<exists>r q. run_hooks fs a b s = Some (r, s\<lparr>sendq := q\<rparr>)"
  using assms
proof (induction fs arbitrary: s)
  case Nil
  have "s = s\<lparr>sendq := sendq s\<rparr>" by simp
  then show ?case by (metis run_hooks.simps(1))
next
  case (Cons f fs)
  obtain r q where "f a b s = Some (r, s\<lparr>sendq := q\<rparr>)" using Cons.prems by (metis list.set_intros(1))
  moreover obtain r' q' where "run_hooks fs a b (s\<lparr>sendq := q\<rparr>) = Some (r', s\<lparr>sendq := q\<rparr>\<lparr>sendq := q'\<rparr>)"
    using Cons.IH [of "s\<lparr>sendq := q\<rparr>"] Cons.prems by (metis list.set_intros(2))
  ultimately show ?case by auto
qed

lemma hook_do_passive:
  assumes "h \<in> set passive_hooks"
  obtains q where "hook_do E h a b s = Some (s\<lparr>sendq := q\<rparr>)"
proof -
  have "h < HOOK_LAST_HOOK" using assms by (auto simp: passive_hooks_def)
  moreover obtain r q where "run_hooks (hooks E h) a b s = Some (r, s\<lparr>sendq := q\<rparr>)"
    using run_hooks_passive [of "hooks E h" a b s] passive_hook [OF assms] by blast
  ultimately show thesis using that by (simp add: hook_do_def hook_call_def)
qed

lemma hook_do_opless:
  obtains q where "hook_do E HOOK_CHANNEL_OPLESS a b s = Some (s\<lparr>sendq := q\<rparr>)"
  by (rule hook_do_passive [of HOOK_CHANNEL_OPLESS a b s]) (simp_all add: passive_hooks_def)

end

text \<open>The part of the state that operations on channels leave alone.\<close>

definition same_clients :: "net \<Rightarrow> net \<Rightarrow> bool" where
  "same_clients s' s \<longleftrightarrow> keys s' = keys s \<and> kind s' = kind s \<and> parent s' = parent s \<and> dead s' = dead s \<and>
     server_lists s' = server_lists s \<and> user_oper s' = user_oper s \<and> user_link s' = user_link s \<and>
     name_table s' = name_table s \<and> uid_table s' = uid_table s \<and> user_list s' = user_list s \<and>
     server_list s' = server_list s \<and> exited_list s' = exited_list s \<and> service_list s' = service_list s \<and>
     oper_list s' = oper_list s \<and> conf_opers s' = conf_opers s \<and> user_regs s' = user_regs s \<and>
     conf_oper_list s' = conf_oper_list s \<and> client_oper_list s' = client_oper_list s \<and> server_p s' = server_p s"

lemma same_clients_refl [simp]: "same_clients s s"
  by (simp add: same_clients_def)

lemma same_clients_trans [trans]: "same_clients s'' s' \<Longrightarrow> same_clients s' s \<Longrightarrow> same_clients s'' s"
  by (simp add: same_clients_def)

definition clients_ok :: "net \<Rightarrow> bool" where
  "clients_ok s \<longleftrightarrow> tables_ok s \<and> links_ok s \<and> opers_ok s \<and> listed_ok s"

definition chans_ok :: "net \<Rightarrow> bool" where
  "chans_ok s \<longleftrightarrow> chtable_ok s \<and> members_ok s \<and> services_ok s"

lemma net_ok_alt: "net_ok s \<longleftrightarrow> clients_ok s \<and> chans_ok s \<and> alloc_ok s"
  by (auto simp: net_ok_def clients_ok_def chans_ok_def)

lemma same_clients_ok: "same_clients s' s \<Longrightarrow> clients_ok s' = clients_ok s"
  unfolding clients_ok_def same_clients_def
  by (metis (no_types, lifting) tables_ok_cong links_ok_cong opers_ok_cong listed_ok_cong)

lemma members_user:
  assumes "members_ok s" "members s m = Some mp"
  obtains u where "get_user (mclient mp) s = Some u" "user_chans s (mclient mp) = Some (channels u)"
  using members_okD(1) [OF assms] by (auto simp: user_chans_def)

lemma members_chan:
  assumes "members_ok s" "members s m = Some mp"
  obtains ch where "chans s (chptr mp) = Some ch"
    "chan_lists s (chptr mp) = Some (users ch, users_opped ch, users_unopped ch)"
  using members_okD(1) [OF assms] by (auto simp: chan_lists_def)

lemma hunt_unique:
  assumes A: "\<And>m. m \<in> set xs \<Longrightarrow> \<exists>b. p m = Some b \<and> (b \<longleftrightarrow> Q m)" and B: "\<And>m. Q m \<Longrightarrow> m \<in> set xs"
    and C: "\<And>m m'. Q m \<Longrightarrow> Q m' \<Longrightarrow> m = m'"
  obtains r where "hunt p xs = Some r" "\<And>m. r = Some m \<longleftrightarrow> Q m"
proof
  show "hunt p xs = Some (find Q xs)" using A by (intro hunt_total) blast
  show "find Q xs = Some m \<longleftrightarrow> Q m" for m
  proof
    assume m: "Q m"
    then obtain m' where m': "find Q xs = Some m'" using B by (cases "find Q xs") (auto simp: find_None_iff)
    then show "find Q xs = Some m" using C [OF m, of m'] find_SomeD [OF m'] by simp
  qed (use find_SomeD in fast)
qed

lemma find_chmember_total:
  assumes "members_ok s" "chans s c = Some ch" "get_user a s = Some u"
  obtains r where "find_chmember c a s = Some r"
    "\<And>m. r = Some m \<longleftrightarrow> (\<exists>mp. members s m = Some mp \<and> chptr mp = c \<and> mclient mp = a)"
proof -
  let ?Q = "\<lambda>m. \<exists>mp. members s m = Some mp \<and> chptr mp = c \<and> mclient mp = a"
  have us: "m \<in> set (users ch) \<longleftrightarrow> (\<exists>mp. members s m = Some mp \<and> chptr mp = c)" for m
    using members_okD(3) [OF assms(1), of c] assms(2) by (auto simp: chan_match_def chan_lists_def)
  have ms: "m \<in> set (channels u) \<longleftrightarrow> (\<exists>mp. members s m = Some mp \<and> mclient mp = a)" for m
    using members_okD(4) [OF assms(1), of a] assms(3) by (auto simp: user_match_def user_chans_def)
  have uniq: "m = m'" if "?Q m" "?Q m'" for m m'
    using members_okD(2) [OF assms(1)] that by metis
  show thesis
  proof (cases "length (users ch) < length (channels u)")
    case True
    obtain r where "hunt (\<lambda>m. do { mp \<leftarrow> members s m; Some (mclient mp = a) }) (users ch) = Some r" "\<And>m. r = Some m \<longleftrightarrow> ?Q m"
    proof (rule hunt_unique [of "users ch" _ ?Q])
      show "\<exists>b. (do { mp \<leftarrow> members s m; Some (mclient mp = a) }) = Some b \<and> (b \<longleftrightarrow> ?Q m)" if "m \<in> set (users ch)" for m
        using that us by auto
      show "m \<in> set (users ch)" if "?Q m" for m using that us by auto
    qed (use uniq in blast)+
    then show thesis using that True assms(2,3) by (simp add: find_chmember_def)
  next
    case False
    obtain r where "hunt (\<lambda>m. do { mp \<leftarrow> members s m; Some (chptr mp = c) }) (channels u) = Some r" "\<And>m. r = Some m \<longleftrightarrow> ?Q m"
    proof (rule hunt_unique [of "channels u" _ ?Q])
      show "\<exists>b. (do { mp \<leftarrow> members s m; Some (chptr mp = c) }) = Some b \<and> (b \<longleftrightarrow> ?Q m)" if "m \<in> set (channels u)" for m
        using that ms by auto
      show "m \<in> set (channels u)" if "?Q m" for m using that ms by auto
    qed (use uniq in blast)+
    then show thesis using that False assms(2,3) by (simp add: find_chmember_def)
  qed
qed

lemmas upd_defs = upd_client_def upd_user_def upd_server_def upd_service_def upd_chan_def upd_member_def
  get_user_def get_server_def get_service_def

lemmas set_defs = set_user_def set_server_def set_service_def set_chan_def set_member_def

text \<open>The state after a member was added.\<close>

definition added_member :: "rblib \<Rightarrow> addr \<Rightarrow> channel \<Rightarrow> addr \<Rightarrow> user \<Rightarrow> u32 \<Rightarrow> net \<Rightarrow> net" where
  "added_member L c ch a u fl s =
     (let m = next_addr s; mp = \<lparr>chptr = c, mclient = a, mflags = fl\<rparr>;
          ch' = ch\<lparr>users := dlinkAdd (rb_ptrs L) m (users ch)\<rparr>;
          ch'' = (if is_opped mp then ch'\<lparr>users_opped := dlinkAdd (rb_ptrs L) m (users_opped ch)\<rparr>
                  else ch'\<lparr>users_unopped := dlinkAdd (rb_ptrs L) m (users_unopped ch)\<rparr>)
      in set_chan c ch'' (set_user a (u\<lparr>channels := dlinkAdd (rb_ptrs L) m (channels u)\<rparr>)
           (set_member m mp (s\<lparr>next_addr := Suc m\<rparr>))))"

lemma add_chmember_eq:
  assumes "chans s c = Some ch" "get_user a s = Some u"
  shows "add_chmember L c a fl s = Some (next_addr s, added_member L c ch a u fl s)"
proof -
  obtain cl where "clients s a = Some cl" "user cl = Some u" using assms(2) by (auto simp: get_user_def bind_eq_Some_conv)
  then show ?thesis
    using assms(1) by (simp add: add_chmember_def added_member_def Let_def upd_defs set_defs)
qed

lemma alloc_okD: "alloc_ok s \<Longrightarrow> keys s (next_addr s) = None \<and> chan_key s (next_addr s) = None \<and> members s (next_addr s) = None"
  by (simp add: alloc_ok_def)

lemma fun_upd_same: "f a = b \<Longrightarrow> f(a := b) = f"
  by auto

lemma chan_projs:
  "chans s c = Some ch \<Longrightarrow> chan_key s c = Some (chname ch) \<and> chan_services s c = Some (services ch) \<and>
     chan_lists s c = Some (users ch, users_opped ch, users_unopped ch)"
  by (simp add: chan_key_def chan_services_def chan_lists_def)

lemma user_projs:
  "get_user a s = Some u \<Longrightarrow> user_chans s a = Some (channels u) \<and> user_oper s a = oper u \<and> user_link s a = user_reg u"
  by (simp add: user_chans_def user_oper_def user_link_def)

context rblib_ok
begin

lemma added_member_deopped [simp]: "deopped_list (added_member L c ch a u fl s) = deopped_list s"
  by (simp add: added_member_def Let_def)

lemma added_member_proj:
  assumes "chans s c = Some ch" "get_user a s = Some u"
  shows "same_clients (added_member L c ch a u fl s) s" "chan_key (added_member L c ch a u fl s) = chan_key s"
    "chan_services (added_member L c ch a u fl s) = chan_services s"
    "service_chans (added_member L c ch a u fl s) = service_chans s"
    "channel_table (added_member L c ch a u fl s) = channel_table s" "channel_list (added_member L c ch a u fl s) = channel_list s"
    "next_addr (added_member L c ch a u fl s) = Suc (next_addr s)"
    "members (added_member L c ch a u fl s) = (members s)(next_addr s \<mapsto> \<lparr>chptr = c, mclient = a, mflags = fl\<rparr>)"
    "user_chans (added_member L c ch a u fl s) = (user_chans s)(a \<mapsto> dlinkAdd (rb_ptrs L) (next_addr s) (channels u))"
    "chan_lists (added_member L c ch a u fl s) = (chan_lists s)(c \<mapsto> (dlinkAdd (rb_ptrs L) (next_addr s) (users ch),
       if fl AND MODE_OPPED \<noteq> 0 then dlinkAdd (rb_ptrs L) (next_addr s) (users_opped ch) else users_opped ch,
       if fl AND MODE_OPPED \<noteq> 0 then users_unopped ch else dlinkAdd (rb_ptrs L) (next_addr s) (users_unopped ch)))"
    "\<exists>ch'. chans (added_member L c ch a u fl s) c = Some ch'"
  using chan_projs [OF assms(1)] user_projs [OF assms(2)] assms(2)
  by (simp_all add: added_member_def Let_def same_clients_def proj_simps fun_upd_same is_opped_def)

lemma add_chmember_ok:
  assumes ok: "net_ok s" and c: "chans s c = Some ch" and a: "a \<in> set (user_list s)" "get_user a s = Some u"
    and new: "\<And>m mp. members s m = Some mp \<Longrightarrow> chptr mp = c \<Longrightarrow> mclient mp \<noteq> a"
  shows "net_ok (added_member L c ch a u fl s)"
proof -
  let ?s = "added_member L c ch a u fl s" and ?m = "next_addr s"
  note P = added_member_proj [OF c a(2), of fl]
  note D = net_okD [OF ok]
  have fresh: "members s ?m = None" using alloc_okD [OF D(7)] by simp
  have nin: "?m \<notin> set (users ch)" "?m \<notin> set (users_opped ch)" "?m \<notin> set (users_unopped ch)" "?m \<notin> set (channels u)"
    and dis: "distinct (users ch)" "distinct (users_opped ch)" "distinct (users_unopped ch)" "distinct (channels u)"
    using members_okD(3) [OF D(3), of c] members_okD(4) [OF D(3), of a] chan_projs [OF c] user_projs [OF a(2)] fresh
    by (auto simp: chan_match_def user_match_def)
  have mem: "members_ok ?s"
    by (rule members_ok_add [OF D(3) fresh P(8), where us' = "dlinkAdd (rb_ptrs L) ?m (users ch)"
          and ops' = "if fl AND MODE_OPPED \<noteq> 0 then dlinkAdd (rb_ptrs L) ?m (users_opped ch) else users_opped ch"
          and uns' = "if fl AND MODE_OPPED \<noteq> 0 then users_unopped ch else dlinkAdd (rb_ptrs L) ?m (users_unopped ch)"
          and ms' = "dlinkAdd (rb_ptrs L) ?m (channels u)" and us = "users ch" and ops = "users_opped ch"
          and uns = "users_unopped ch" and ms = "channels u"])
      (use P(1,9,10) a new nin dis chan_projs [OF c] user_projs [OF a(2)] in \<open>simp_all add: is_opped_def same_clients_def\<close>)
  moreover have "chtable_ok ?s" "services_ok ?s" "clients_ok ?s"
    using D chtable_ok_cong [OF P(2,5,6)] services_ok_cong [OF P(3,4)] same_clients_ok [OF P(1)] P(1)
    by (auto simp: same_clients_def clients_ok_def)
  moreover have "alloc_ok ?s" using D(7) P by (auto simp: alloc_ok_def same_clients_def)
  ultimately show ?thesis by (simp add: net_ok_alt chans_ok_def)
qed

end

text \<open>The state after a channel was freed.\<close>

definition freed_channel :: "rblib \<Rightarrow> addr \<Rightarrow> channel \<Rightarrow> net \<Rightarrow> net" where
  "freed_channel L c ch s =
     s\<lparr>channel_table := (channel_table s)(hash_channel (chname ch) := dlinkDelete (rb_ptrs L) c (channel_table s (hash_channel (chname ch)))),
       channel_list := dlinkDelete (rb_ptrs L) c (channel_list s), chans := (chans s)(c := None)\<rparr>"

lemma freed_channel_proj [simp]:
  "chan_key (freed_channel L c ch s) = (chan_key s)(c := None)"
  "chan_lists (freed_channel L c ch s) = (chan_lists s)(c := None)"
  "chan_services (freed_channel L c ch s) = (chan_services s)(c := None)"
  "same_clients (freed_channel L c ch s) s" "members (freed_channel L c ch s) = members s"
  "service_chans (freed_channel L c ch s) = service_chans s" "user_chans (freed_channel L c ch s) = user_chans s"
  "next_addr (freed_channel L c ch s) = next_addr s" "service_list (freed_channel L c ch s) = service_list s"
  "user_list (freed_channel L c ch s) = user_list s" "deopped_list (freed_channel L c ch s) = deopped_list s"
  by (auto simp: freed_channel_def projection_defs same_clients_def fun_eq_iff)

lemma chtable_okD:
  assumes "chtable_ok s"
  shows "distinct (channel_list s)" "distinct (channel_table s h)"
    "c \<in> set (channel_list s) \<longleftrightarrow> chan_key s c \<noteq> None"
    "c \<in> set (channel_table s h) \<longleftrightarrow> (\<exists>n. chan_key s c = Some n \<and> hash_channel n = h)"
    "chan_key s c = Some n \<Longrightarrow> cstring n"
    "chan_key s c = Some n \<Longrightarrow> chan_key s c' = Some n' \<Longrightarrow> irccmp n n' = 0 \<Longrightarrow> c = c'"
  using assms unfolding chtable_ok_def by blast+

context env_ok
begin

lemma free_channel_eq:
  assumes "chtable_ok s" "chans s c = Some ch"
  obtains q where "free_channel E c s = Some (freed_channel (lib E) c ch (s\<lparr>sendq := q\<rparr>))"
proof -
  obtain q where q: "hook_do E HOOK_CHANNEL_DESTROY (ArgChannel c) ArgNull s = Some (s\<lparr>sendq := q\<rparr>)"
    by (rule hook_do_passive [of HOOK_CHANNEL_DESTROY "ArgChannel c" ArgNull s]) (simp_all add: passive_hooks_def)
  have "c \<in> set (channel_table s (hash_channel (chname ch)))" "c \<in> set (channel_list s)"
    using chtable_okD [OF assms(1)] chan_projs [OF assms(2)] by auto
  then have "free_channel E c s = Some (freed_channel (lib E) c ch (s\<lparr>sendq := q\<rparr>))"
    using q assms(2) by (simp add: free_channel_def del_channel_def dl_delete_def freed_channel_def Let_def)
  then show thesis using that by blast
qed

lemma chtable_ok_freed:
  assumes "chtable_ok s" "chans s c = Some ch"
  shows "chtable_ok (freed_channel (lib E) c ch s)"
proof -
  note D = chtable_okD [OF assms(1)]
  let ?s = "freed_channel (lib E) c ch s"
  have "set (channel_list ?s) = set (channel_list s) - {c}" "distinct (channel_list ?s)"
    using D(1) by (simp_all add: freed_channel_def)
  moreover have "distinct (channel_table ?s h) \<and> set (channel_table ?s h) = set (channel_table s h) - {c}" for h
    using D(2) D(4) [of c h] chan_projs [OF assms(2)] by (auto simp: freed_channel_def)
  ultimately show ?thesis
    using D(3-6) unfolding chtable_ok_def by (auto split: if_splits)
qed

lemma services_ok_freed:
  assumes "services_ok s" "chans s c = Some ch" "services ch = []"
  shows "services_ok (freed_channel (lib E) c ch s)"
proof -
  have "c \<notin> set cs" if "service_chans s a = Some cs" for a cs
    using assms that chan_projs [OF assms(2)] unfolding services_ok_def by fastforce
  then show ?thesis using assms(1) unfolding services_ok_def by (auto split: if_splits)
qed

end

text \<open>The state after a member was taken out of the lists of its channel and its user.\<close>

definition unlisted_member :: "rblib \<Rightarrow> addr \<Rightarrow> chmember \<Rightarrow> channel \<Rightarrow> user \<Rightarrow> net \<Rightarrow> net" where
  "unlisted_member L m mp ch u s =
     (let del = dlinkDelete (rb_ptrs L) m;
          ch' = ch\<lparr>users := del (users ch)\<rparr>
      in set_chan (chptr mp)
           (if is_opped mp then ch'\<lparr>users_opped := del (users_opped ch)\<rparr> else ch'\<lparr>users_unopped := del (users_unopped ch)\<rparr>)
           (set_user (mclient mp) (u\<lparr>channels := del (channels u)\<rparr>) s))"

lemma unlisted_member_deopped [simp]: "deopped_list (unlisted_member L m mp ch u s) = deopped_list s"
  by (simp add: unlisted_member_def Let_def)

lemma unlisted_member_proj:
  assumes "chans s (chptr mp) = Some ch" "get_user (mclient mp) s = Some u"
  shows "same_clients (unlisted_member L m mp ch u s) s" "chan_key (unlisted_member L m mp ch u s) = chan_key s"
    "chan_services (unlisted_member L m mp ch u s) = chan_services s"
    "service_chans (unlisted_member L m mp ch u s) = service_chans s"
    "channel_table (unlisted_member L m mp ch u s) = channel_table s"
    "channel_list (unlisted_member L m mp ch u s) = channel_list s"
    "next_addr (unlisted_member L m mp ch u s) = next_addr s" "members (unlisted_member L m mp ch u s) = members s"
    "user_chans (unlisted_member L m mp ch u s) = (user_chans s)(mclient mp \<mapsto> dlinkDelete (rb_ptrs L) m (channels u))"
    "chan_lists (unlisted_member L m mp ch u s) = (chan_lists s)(chptr mp \<mapsto> (dlinkDelete (rb_ptrs L) m (users ch),
       if is_opped mp then dlinkDelete (rb_ptrs L) m (users_opped ch) else users_opped ch,
       if is_opped mp then users_unopped ch else dlinkDelete (rb_ptrs L) m (users_unopped ch)))"
    "\<exists>ch'. chans (unlisted_member L m mp ch u s) (chptr mp) = Some ch' \<and> chname ch' = chname ch \<and>
       users ch' = dlinkDelete (rb_ptrs L) m (users ch) \<and> services ch' = services ch"
  using chan_projs [OF assms(1)] user_projs [OF assms(2)] assms(2)
  by (auto simp: unlisted_member_def Let_def same_clients_def proj_simps fun_upd_same)

context env_ok
begin

lemma del_chmember_eq:
  assumes ok: "members_ok s" and m: "members s m = Some mp"
    and ch: "chans s (chptr mp) = Some ch" and u: "get_user (mclient mp) s = Some u"
  obtains q where "del_chmember E m s = do {
      let s = (unlisted_member (lib E) m mp ch u s)\<lparr>sendq := q\<rparr>;
      ch \<leftarrow> chans s (chptr mp);
      s \<leftarrow> (if users ch = [] \<and> services ch = [] then free_channel E (chptr mp) s else Some s);
      Some (s\<lparr>members := (members s)(m := None)\<rparr>) }"
proof -
  let ?L = "lib E" and ?c = "chptr mp" and ?a = "mclient mp"
  let ?s = "unlisted_member ?L m mp ch u s"
  have mem: "m \<in> set (users ch)" "m \<in> set (channels u)" "m \<in> set (users_opped ch) \<longleftrightarrow> is_opped mp"
    "m \<in> set (users_unopped ch) \<longleftrightarrow> \<not> is_opped mp"
    using members_okE [OF ok m] chan_projs [OF ch] user_projs [OF u] by (metis Pair_inject option.inject)+
  obtain cl where cl: "clients s ?a = Some cl" "user cl = Some u" using u by (auto simp: get_user_def bind_eq_Some_conv)
  obtain q where q: "hook_do E HOOK_CHANNEL_OPLESS (ArgChannel ?c) ArgNull ?s = Some (?s\<lparr>sendq := q\<rparr>)"
    by (rule hook_do_opless)
  show thesis
  proof (cases "is_opped mp \<and> dlinkDelete (rb_ptrs ?L) m (users_opped ch) = []")
    case True
    then show thesis using that [of q] q m ch cl mem
      by (simp add: del_chmember_def Let_def dl_delete_def upd_defs unlisted_member_def set_defs)
  next
    case False
    have "?s\<lparr>sendq := sendq s\<rparr> = ?s" by (simp add: unlisted_member_def Let_def set_defs)
    then show thesis using that [of "sendq s"] False m ch cl mem
      by (auto simp: del_chmember_def Let_def dl_delete_def upd_defs unlisted_member_def set_defs)
  qed
qed

end

lemma forget_member_proj [simp]:
  "keys (s\<lparr>members := x\<rparr>) = keys s" "kind (s\<lparr>members := x\<rparr>) = kind s" "parent (s\<lparr>members := x\<rparr>) = parent s"
  "dead (s\<lparr>members := x\<rparr>) = dead s" "chan_key (s\<lparr>members := x\<rparr>) = chan_key s"
  "user_chans (s\<lparr>members := x\<rparr>) = user_chans s" "chan_lists (s\<lparr>members := x\<rparr>) = chan_lists s"
  "chan_services (s\<lparr>members := x\<rparr>) = chan_services s" "service_chans (s\<lparr>members := x\<rparr>) = service_chans s"
  "user_oper (s\<lparr>members := x\<rparr>) = user_oper s" "user_link (s\<lparr>members := x\<rparr>) = user_link s"
  "server_lists (s\<lparr>members := x\<rparr>) = server_lists s" "same_clients (s\<lparr>members := x\<rparr>) t = same_clients s t"
  "same_clients (s\<lparr>sendq := q\<rparr>) t = same_clients s t"
  by (auto simp: projection_defs same_clients_def fun_eq_iff)

lemma chtable_ok_silent [simp]:
  "chtable_ok (s\<lparr>sendq := q\<rparr>) = chtable_ok s" "chtable_ok (s\<lparr>members := x\<rparr>) = chtable_ok s"
  "services_ok (s\<lparr>sendq := q\<rparr>) = services_ok s" "services_ok (s\<lparr>members := x\<rparr>) = services_ok s"
  by (simp_all add: chtable_ok_def services_ok_def)

context env_ok
begin

lemma del_lists_facts:
  assumes "members_ok s" "members s m = Some mp" "chans s (chptr mp) = Some ch" "get_user (mclient mp) s = Some u"
  defines "del \<equiv> dlinkDelete (rb_ptrs (lib E)) m"
  shows "set (del (users ch)) = set (users ch) - {m}" "distinct (del (users ch))"
    "set (if is_opped mp then del (users_opped ch) else users_opped ch) = set (users_opped ch) - {m}"
    "distinct (if is_opped mp then del (users_opped ch) else users_opped ch)"
    "set (if is_opped mp then users_unopped ch else del (users_unopped ch)) = set (users_unopped ch) - {m}"
    "distinct (if is_opped mp then users_unopped ch else del (users_unopped ch))"
    "set (del (channels u)) = set (channels u) - {m}" "distinct (del (channels u))"
proof -
  obtain us ops uns ms where "chan_lists s (chptr mp) = Some (us, ops, uns)" "user_chans s (mclient mp) = Some ms"
    and f: "m \<in> set ops \<longleftrightarrow> is_opped mp" "m \<in> set uns \<longleftrightarrow> \<not> is_opped mp"
    "distinct us" "distinct ops" "distinct uns" "distinct ms"
    by (rule members_okE [OF assms(1,2)]) blast
  then have "us = users ch" "ops = users_opped ch" "uns = users_unopped ch" "ms = channels u"
    using chan_projs [OF assms(3)] user_projs [OF assms(4)] by auto
  with f show "set (del (users ch)) = set (users ch) - {m}" "distinct (del (users ch))"
    "set (if is_opped mp then del (users_opped ch) else users_opped ch) = set (users_opped ch) - {m}"
    "distinct (if is_opped mp then del (users_opped ch) else users_opped ch)"
    "set (if is_opped mp then users_unopped ch else del (users_unopped ch)) = set (users_unopped ch) - {m}"
    "distinct (if is_opped mp then users_unopped ch else del (users_unopped ch))"
    "set (del (channels u)) = set (channels u) - {m}" "distinct (del (channels u))"
    by (auto simp: del_def)
qed

lemma members_ok_unlisted:
  assumes okm: "members_ok s" and m: "members s m = Some mp"
    and ch: "chans s (chptr mp) = Some ch" and u: "get_user (mclient mp) s = Some u"
    and s': "members s' = (members s)(m := None)" "same_clients s' s" "chan_lists s' = (chan_lists s)(chptr mp := X)"
      "user_chans s' = user_chans (unlisted_member (lib E) m mp ch u s)"
    and X: "X = chan_lists (unlisted_member (lib E) m mp ch u s) (chptr mp) \<or>
      X = None \<and> dlinkDelete (rb_ptrs (lib E)) m (users ch) = []"
  shows "members_ok s'"
proof (rule members_ok_del [OF okm m s'(1) _ s'(3)])
  note P = unlisted_member_proj [OF ch u, where L = "lib E" and m = m]
  note L = del_lists_facts [OF okm m ch u]
  show "user_list s' = user_list s" using s'(2) by (simp add: same_clients_def)
  show "user_chans s' = (user_chans s)(mclient mp \<mapsto> dlinkDelete (rb_ptrs (lib E)) m (channels u))" using s'(4) P(9) by simp
  show "chan_lists s (chptr mp) = Some (users ch, users_opped ch, users_unopped ch)" "user_chans s (mclient mp) = Some (channels u)"
      using chan_projs [OF ch] user_projs [OF u] by simp_all
  show "set (dlinkDelete (rb_ptrs (lib E)) m (channels u)) = set (channels u) - {m}"
      "distinct (dlinkDelete (rb_ptrs (lib E)) m (channels u))" by (rule L(7), rule L(8))
  have "X = None \<and> set (users ch) - {m} = {}" if "X = None" "dlinkDelete (rb_ptrs (lib E)) m (users ch) = []" using that L(1) by simp
  moreover have "chan_lists (unlisted_member (lib E) m mp ch u s) (chptr mp) = Some (dlinkDelete (rb_ptrs (lib E)) m (users ch),
       if is_opped mp then dlinkDelete (rb_ptrs (lib E)) m (users_opped ch) else users_opped ch,
       if is_opped mp then users_unopped ch else dlinkDelete (rb_ptrs (lib E)) m (users_unopped ch))"
      using P(10) by simp
  ultimately show "X = None \<and> set (users ch) - {m} = {} \<or> (\<exists>us' ops' uns'. X = Some (us', ops', uns') \<and>
       set us' = set (users ch) - {m} \<and> set ops' = set (users_opped ch) - {m} \<and> set uns' = set (users_unopped ch) - {m} \<and>
       distinct us' \<and> distinct ops' \<and> distinct uns')"
      using X L(1-6) by metis
qed

lemma del_chmember_ok:
  assumes ok: "chans_ok s" and m: "members s m = Some mp"
  obtains s' where "del_chmember E m s = Some s'" "chans_ok s'" "members s' = (members s)(m := None)"
    "same_clients s' s" "next_addr s' = next_addr s" "\<And>c. chan_key s' c = chan_key s c \<or> chan_key s' c = None"
    "\<And>c. chan_key s' c = None \<Longrightarrow> chan_key s c \<noteq> None \<Longrightarrow>
       c = chptr mp \<and> (\<forall>x p. members s' x = Some p \<longrightarrow> chptr p \<noteq> c)"
proof -
  have okm: "members_ok s" and okt: "chtable_ok s" and oks: "services_ok s" using ok by (auto simp: chans_ok_def)
  obtain ch u where ch: "chans s (chptr mp) = Some ch" and u: "get_user (mclient mp) s = Some u"
    using members_chan [OF okm m] members_user [OF okm m] by metis
  let ?c = "chptr mp" and ?u = "unlisted_member (lib E) m mp ch u s"
  note P = unlisted_member_proj [OF ch u, where L = "lib E" and m = m]
  note L = del_lists_facts [OF okm m ch u]
  obtain q where q: "del_chmember E m s = do { let s = ?u\<lparr>sendq := q\<rparr>; ch \<leftarrow> chans s ?c;
      s \<leftarrow> (if users ch = [] \<and> services ch = [] then free_channel E ?c s else Some s);
      Some (s\<lparr>members := (members s)(m := None)\<rparr>) }"
    by (rule del_chmember_eq [OF okm m ch u])
  obtain ch' where ch': "chans ?u ?c = Some ch'" "chname ch' = chname ch" "services ch' = services ch"
      "users ch' = dlinkDelete (rb_ptrs (lib E)) m (users ch)" using P(11) by blast
  have okt': "chtable_ok (?u\<lparr>sendq := q\<rparr>)" "services_ok (?u\<lparr>sendq := q\<rparr>)"
    using okt oks chtable_ok_cong [OF P(2,5,6)] services_ok_cong [OF P(3,4)] P(1) by (auto simp: same_clients_def)
  show thesis
  proof (cases "users ch' = [] \<and> services ch' = []")
    case True
    obtain q' where q': "free_channel E ?c (?u\<lparr>sendq := q\<rparr>) = Some (freed_channel (lib E) ?c ch' (?u\<lparr>sendq := q, sendq := q'\<rparr>))"
      by (rule free_channel_eq [OF okt'(1), of ?c ch']) (use ch' in auto)
    let ?f = "freed_channel (lib E) ?c ch' (?u\<lparr>sendq := q'\<rparr>)"
    let ?s = "?f\<lparr>members := (members s)(m := None)\<rparr>"
    have run: "del_chmember E m s = Some ?s" using q q' ch' True P(8) by simp
    have "chtable_ok ?f" "services_ok ?f"
      using chtable_ok_freed [of "?u\<lparr>sendq := q'\<rparr>" ?c ch'] services_ok_freed [of "?u\<lparr>sendq := q'\<rparr>" ?c ch'] okt' ch' True
      by simp_all
    moreover have sc: "same_clients ?s s"
      using same_clients_trans [OF freed_channel_proj(4)] P(1) by simp
    moreover have "members_ok ?s" 
      by (rule members_ok_unlisted [OF okm m ch u, where X = None]) (use P(10) sc True ch' in simp_all)
    ultimately have "chans_ok ?s" by (simp add: chans_ok_def)
    moreover have "chptr p \<noteq> ?c" if "x \<noteq> m" "members s x = Some p" for x p
      using that L(1) ch'(4) True members_okD(3) [OF okm] chan_projs [OF ch] by (force simp: chan_match_def split: if_splits)
    ultimately show thesis using sc run P(2,7) by (intro that [of ?s]) (auto split: if_splits)
  next
    case False
    let ?s = "?u\<lparr>sendq := q, members := (members s)(m := None)\<rparr>"
    have run: "del_chmember E m s = Some ?s" using q ch' False P(8) by (auto simp: Let_def)
    have sc: "same_clients ?s s" using P(1) by simp
    have "members_ok ?s" 
      by (rule members_ok_unlisted [OF okm m ch u, where X = "chan_lists ?u ?c"]) (use P(10) sc in simp_all)
    then have "chans_ok ?s" using okt' by (simp add: chans_ok_def)
    then show thesis using sc run P(2,7) by (intro that [of ?s]) auto
  qed
qed

end

subsection \<open>Op and deop\<close>

lemma opped_flag [simp]:
  "is_opped (mp\<lparr>mflags := (f AND - 5) OR MODE_OPPED\<rparr>)" "\<not> is_opped (mp\<lparr>mflags := f AND - 2\<rparr>)"
  by (simp_all add: is_opped_def bit.conj_disj_distrib2 and.assoc)

lemma chans_ok_flags:
  assumes ok: "chans_ok s" and m: "members s m = Some mp" and ch: "chans s (chptr mp) = Some ch"
    and mp': "chptr mp' = chptr mp" "mclient mp' = mclient mp"
    and ch': "users ch' = users ch" "services ch' = services ch" "chname ch' = chname ch"
    and lists: "distinct (users_opped ch')" "distinct (users_unopped ch')"
       "set (users_opped ch') = (if is_opped mp' then insert m (set (users_opped ch)) else set (users_opped ch) - {m})"
       "set (users_unopped ch') = (if is_opped mp' then set (users_unopped ch) - {m} else insert m (set (users_unopped ch)))"
  defines "s' \<equiv> set_chan (chptr mp) ch' (set_member m mp' s)"
  shows "chans_ok s'" "same_clients s' s" "chan_key s' = chan_key s" "members s' = (members s)(m \<mapsto> mp')"
    "next_addr s' = next_addr s" "chan_services s' = chan_services s" "service_chans s' = service_chans s"
proof -
  have okm: "members_ok s" and okt: "chtable_ok s" and oks: "services_ok s" using ok by (auto simp: chans_ok_def)
  note P = chan_projs [OF ch]
  show sc: "same_clients s' s" and k: "chan_key s' = chan_key s" and mem: "members s' = (members s)(m \<mapsto> mp')"
    and "next_addr s' = next_addr s" and cs: "chan_services s' = chan_services s" "service_chans s' = service_chans s"
    using P ch' by (simp_all add: s'_def same_clients_def fun_upd_same)
  have "members_ok s'"
    by (rule members_ok_flags [OF okm m mem mp', where us = "users ch" and ops = "users_opped ch" and uns = "users_unopped ch"
          and ops' = "users_opped ch'" and uns' = "users_unopped ch'"])
      (use P ch' lists in \<open>simp_all add: s'_def\<close>)
  moreover have "chtable_ok s'" "services_ok s'"
    using okt oks chtable_ok_cong [of s' s] services_ok_cong [of s' s] k cs by (simp_all add: s'_def)
  ultimately show "chans_ok s'" by (simp add: chans_ok_def)
qed

context env_ok
begin

lemma op_chmember_ok:
  assumes ok: "chans_ok s" and m: "members s m = Some mp"
  obtains s' where "op_chmember (lib E) m s = Some s'" "chans_ok s'" "same_clients s' s" "chan_key s' = chan_key s"
    "next_addr s' = next_addr s"
    "members s' = (if is_opped mp then members s else (members s)(m \<mapsto> mp\<lparr>mflags := (mflags mp AND NOT MODE_DEOPPED) OR MODE_OPPED\<rparr>))"
proof (cases "is_opped mp")
  case True
  then show thesis using that [of s] ok m by (simp add: op_chmember_def)
next
  case False
  have okm: "members_ok s" using ok by (simp add: chans_ok_def)
  obtain ch where ch: "chans s (chptr mp) = Some ch" "chan_lists s (chptr mp) = Some (users ch, users_opped ch, users_unopped ch)"
    using members_chan [OF okm m] by metis
  have f: "m \<notin> set (users_opped ch)" "m \<in> set (users_unopped ch)" "distinct (users_opped ch)" "distinct (users_unopped ch)"
    using members_okE [OF okm m] ch(2) False by (metis Pair_inject option.inject)+
  let ?mp = "mp\<lparr>mflags := (mflags mp AND NOT MODE_DEOPPED) OR MODE_OPPED\<rparr>"
  let ?ch = "ch\<lparr>users_unopped := dlinkDelete (rb_ptrs (lib E)) m (users_unopped ch), users_opped := dlinkAdd (rb_ptrs (lib E)) m (users_opped ch)\<rparr>"
  have "op_chmember (lib E) m s = Some (set_chan (chptr mp) ?ch (set_member m ?mp s))"
    using False m ch(1) f by (simp add: op_chmember_def upd_member_eq upd_chan_eq dl_delete_def)
  then show thesis
    using chans_ok_flags [OF ok m ch(1), of ?mp ?ch] f False that by (simp del: set_chan_proj set_member_proj)
qed

lemma maybe_opless:
  obtains q where "(if b then hook_do E HOOK_CHANNEL_OPLESS x y s else Some s) = Some (s\<lparr>sendq := q\<rparr>)"
proof (cases b)
  case True
  obtain q where "hook_do E HOOK_CHANNEL_OPLESS x y s = Some (s\<lparr>sendq := q\<rparr>)" by (rule hook_do_opless)
  then show thesis using that True by simp
next
  case False
  then show thesis using that [of "sendq s"] by simp
qed

lemma deop_chmember_ok:
  assumes ok: "chans_ok s" and m: "members s m = Some mp"
  obtains s' where "deop_chmember E m s = Some s'" "chans_ok s'" "same_clients s' s" "chan_key s' = chan_key s"
    "next_addr s' = next_addr s"
    "members s' = (if is_opped mp then (members s)(m \<mapsto> mp\<lparr>mflags := mflags mp AND NOT MODE_OPPED\<rparr>) else members s)"
proof (cases "is_opped mp")
  case False
  then show thesis using that [of s] ok m by (simp add: deop_chmember_def)
next
  case True
  have okm: "members_ok s" using ok by (simp add: chans_ok_def)
  obtain ch where ch: "chans s (chptr mp) = Some ch" "chan_lists s (chptr mp) = Some (users ch, users_opped ch, users_unopped ch)"
    using members_chan [OF okm m] by metis
  have f: "m \<in> set (users_opped ch)" "m \<notin> set (users_unopped ch)" "distinct (users_opped ch)" "distinct (users_unopped ch)"
    using members_okE [OF okm m] ch(2) True by (metis Pair_inject option.inject)+
  let ?mp = "mp\<lparr>mflags := mflags mp AND NOT MODE_OPPED\<rparr>"
  let ?ch = "ch\<lparr>users_opped := dlinkDelete (rb_ptrs (lib E)) m (users_opped ch), users_unopped := dlinkAdd (rb_ptrs (lib E)) m (users_unopped ch)\<rparr>"
  let ?s = "set_chan (chptr mp) ?ch (set_member m ?mp s)"
  obtain q' where "(if dlinkDelete (rb_ptrs (lib E)) m (users_opped ch) = []
      then hook_do E HOOK_CHANNEL_OPLESS (ArgChannel (chptr mp)) ArgNull ?s else Some ?s) = Some (?s\<lparr>sendq := q'\<rparr>)"
    by (rule maybe_opless)
  then have "deop_chmember E m s = Some (?s\<lparr>sendq := q'\<rparr>)"
    using True m ch(1) f
    by (cases "dlinkDelete (rb_ptrs (lib E)) m (users_opped ch) = []")
      (simp_all add: deop_chmember_def upd_member_eq upd_chan_eq dl_delete_def)
  moreover have "chans_ok (t\<lparr>sendq := x\<rparr>) = chans_ok t" for t x by (simp add: chans_ok_def members_ok_def)
  ultimately show thesis
    using chans_ok_flags [OF ok m ch(1), of ?mp ?ch] f True that [of "?s\<lparr>sendq := q'\<rparr>"]
    by (simp del: set_chan_proj set_member_proj)
qed

end

end
