(* ===== verification/Contracts.thy ===== *)
theory Contracts
  imports Invariant
begin

section \<open>Contracts: what the operations keep, and what the handlers rely on\<close>

text \<open>
  \<open>quiet\<close>: an operation that only sends. \<open>chan_frame\<close>: one that keeps the channels and the members.
  \<open>env_active\<close>: the contract of the functions that services register on the events of a channel.
\<close>

subsection \<open>Operations that only send\<close>

definition quiet :: "net \<Rightarrow> net \<Rightarrow> bool" where
  "quiet s' s \<longleftrightarrow> (\<exists>q m. s' = s\<lparr>sendq := q, mb := m\<rparr>)"

lemma quiet_refl [simp]: "quiet s s"
  unfolding quiet_def by (rule exI [of _ "sendq s"], rule exI [of _ "mb s"]) simp

lemma quiet_intro: "s' = s\<lparr>sendq := q, mb := m\<rparr> \<Longrightarrow> quiet s' s"
  unfolding quiet_def by blast

lemma quiet_trans [trans]:
  assumes "quiet s'' s'" "quiet s' s"
  shows "quiet s'' s"
proof -
  obtain q m q' m' where "s'' = s'\<lparr>sendq := q, mb := m\<rparr>" "s' = s\<lparr>sendq := q', mb := m'\<rparr>"
    using assms unfolding quiet_def by blast
  then show ?thesis by (intro quiet_intro [where q = q and m = m]) simp
qed

lemma quiet_sendq [simp]: "quiet (s\<lparr>sendq := q\<rparr>) s"
proof -
  have "s\<lparr>sendq := q\<rparr> = s\<lparr>sendq := q, mb := mb s\<rparr>" by simp
  then show ?thesis unfolding quiet_def by blast
qed

lemma quiet_mb [simp]: "quiet (s\<lparr>mb := m\<rparr>) s"
proof -
  have "s\<lparr>mb := m\<rparr> = s\<lparr>sendq := sendq s, mb := m\<rparr>" by simp
  then show ?thesis unfolding quiet_def by blast
qed

lemma quiet_sendto_server [simp]: "quiet (sendto_server ps s) s"
  by (auto simp: sendto_server_def split: option.splits)


lemma quiet_fold:
  assumes "\<And>x s. x \<in> set xs \<Longrightarrow> quiet (f x s) s"
  shows "quiet (fold f xs s) s"
  using assms
proof (induction xs arbitrary: s)
  case (Cons x xs)
  have "quiet (fold f xs (f x s)) (f x s)" by (rule Cons.IH) (use Cons.prems in auto)
  moreover have "quiet (f x s) s" using Cons.prems by simp
  ultimately show ?case by (auto intro: quiet_trans)
qed simp

lemma quiet_send_lines [simp]: "quiet (send_lines ls s) s"
  unfolding send_lines_def by (rule quiet_fold) simp

lemma quiet_mb_add [simp]: "quiet (mb_add dir l para s) s"
  by (auto simp: mb_add_def split: prod.splits intro: quiet_trans [OF quiet_send_lines])

lemma quiet_mb_finish [simp]: "quiet (mb_finish s) s"
  by (simp add: mb_finish_def)

lemma quiet_fields:
  assumes "quiet s' s"
  shows "clients s' = clients s" "chans s' = chans s" "members s' = members s" "next_addr s' = next_addr s"
    "server_p s' = server_p s" "now s' = now s" "channel_list s' = channel_list s"
  using assms by (auto simp: quiet_def)

lemma quiet_same_clients: "quiet s' s \<Longrightarrow> same_clients s' s"
  by (auto simp: quiet_def same_clients_def)

lemma quiet_same_clients_iff: "quiet s' s \<Longrightarrow> same_clients s' t = same_clients s t"
  by (auto simp: quiet_def same_clients_def)

lemma quiet_chans_ok: "quiet s' s \<Longrightarrow> chans_ok s' = chans_ok s"
  by (auto simp: quiet_def chans_ok_def chtable_ok_def members_ok_def services_ok_def)

lemma quiet_net_ok: "quiet s' s \<Longrightarrow> net_ok s' = net_ok s"
  using quiet_chans_ok [of s' s] same_clients_ok [OF quiet_same_clients, of s' s]
  by (auto simp: net_ok_alt quiet_def alloc_ok_def)

text \<open>The relation between the states around an operation that keeps the channels and the members.\<close>

definition chan_frame :: "net \<Rightarrow> net \<Rightarrow> bool" where
  "chan_frame s' s \<longleftrightarrow> same_clients s' s \<and> chan_key s' = chan_key s \<and> dom (members s') = dom (members s)"

lemma chan_frame_refl [simp]: "chan_frame s s"
  by (simp add: chan_frame_def)

lemma chan_frame_trans [trans]: "chan_frame s'' s' \<Longrightarrow> chan_frame s' s \<Longrightarrow> chan_frame s'' s"
  unfolding chan_frame_def using same_clients_trans by metis

lemma quiet_chan_frame: "quiet s' s \<Longrightarrow> chan_frame s' s"
  using quiet_same_clients [of s' s] by (auto simp: chan_frame_def quiet_def)

lemma chan_frame_chans: "chan_frame s' s \<Longrightarrow> chans s c = Some ch \<Longrightarrow> \<exists>ch'. chans s' c = Some ch'"
  by (auto simp: chan_frame_def chan_key_def fun_eq_iff map_option_case dest!: spec [of _ c] split: option.splits)

lemma chan_frame_members: "chan_frame s' s \<Longrightarrow> members s m = Some mp \<Longrightarrow> \<exists>mp'. members s' m = Some mp'"
  by (auto simp: chan_frame_def dest: arg_cong [of _ _ "\<lambda>A. m \<in> A"])

lemma same_clients_user: "same_clients s' s \<Longrightarrow> get_user a s = Some u \<Longrightarrow> \<exists>u'. get_user a s' = Some u'"
  by (auto simp: same_clients_def fun_eq_iff kind_def get_user_def map_option_case bind_eq_Some_conv
      dest!: spec [of _ a] split: option.splits)

lemma same_clients_client: "same_clients s' s \<Longrightarrow> clients s a = Some u \<Longrightarrow> \<exists>u'. clients s' a = Some u'"
  by (auto simp: same_clients_def fun_eq_iff kind_def map_option_case dest!: spec [of _ a] split: option.splits)

lemma same_clients_hashed: "same_clients s' s \<Longrightarrow> hashed s' a = hashed s a"
  by (simp add: same_clients_def hashed_def)

subsection \<open>Functions on the events of a channel\<close>

definition chan_hooks :: "nat list" where
  "chan_hooks = [HOOK_CHANNEL_JOIN, HOOK_CHANNEL_SJOIN_LOWERTS, HOOK_CHANNEL_MODE_OP, HOOK_CHANNEL_MODE_VOICE,
     HOOK_CHANNEL_MODE_BAN, HOOK_CHANNEL_MODE_SIMPLE, HOOK_CHANNEL_TOPIC]"

text \<open>On a well-formed state and an allocated channel they return, leave a well-formed state and the
  clients alone; only those of a join may take members out of a channel.\<close>

locale env_active = env_ok +
  assumes chan_hook: "h \<in> set chan_hooks \<Longrightarrow> net_ok s \<Longrightarrow> chans s c \<noteq> None \<Longrightarrow>
    runs (hook_call E h (ArgChannel c) b s)
      (\<lambda>(r, s'). net_ok s' \<and> same_clients s' s \<and> (h \<noteq> HOOK_CHANNEL_JOIN \<longrightarrow> chan_frame s' s))"
begin

lemma hook_do_chan:
  assumes "h \<in> set chan_hooks" "net_ok s" "chans s c = Some ch"
  shows "runs (hook_do E h (ArgChannel c) b s) (\<lambda>s'. net_ok s' \<and> same_clients s' s \<and> (h \<noteq> HOOK_CHANNEL_JOIN \<longrightarrow> chan_frame s' s))"
  using chan_hook [OF assms(1,2), of c b] assms(3) by (auto simp: hook_do_def elim: runs_mono)

end

end
