(* ===== verification/Jupeserv.thy ===== *)
theory Jupeserv
  imports Contracts
begin

section \<open>Jupeserv: the event function of the jupe service (src/s\_jupeserv.c)\<close>

text \<open>
  JupeServ keeps servers off the network. Of it this theory has the search for a jupe and the
  function it registers on the SQUIT of an unknown server, which introduces the juped server
  again. \<open>jupe_env\<close> is the environment with that function registered; it meets the contracts
  that the handlers rely on.
\<close>

record server_jupe =
  jupe_name :: string
  jupe_reason :: string
  points :: int
  jupe_add :: int
  jupe_expire :: int
  jupe_servers :: "string list"

definition find_jupe :: "string \<Rightarrow> server_jupe list \<Rightarrow> server_jupe option" where
  "find_jupe nm l = find (\<lambda>jupe_p. irccmp (jupe_name jupe_p) nm = 0) l"

definition h_jupeserv_squit :: "env \<Rightarrow> server_jupe list \<Rightarrow> hook_func" where
  "h_jupeserv_squit E active_jupes a b s =
     (case a of
        ArgStr nm \<Rightarrow>
          (case find_jupe nm active_jupes of
             Some jupe_p \<Rightarrow>
               Some (- 1, sendto_server ['':'', MYUID E s, '' SERVER '', jupe_name jupe_p, '' 2 :JUPED: '', jupe_reason jupe_p] s)
           | None \<Rightarrow> Some (0, s))
      | _ \<Rightarrow> Some (0, s))"

definition bare_env :: "config \<Rightarrow> env" where
  "bare_env cf = \<lparr>lib = list_rblib, coper_lib = list_dlink, config_file = cf, hooks = (\<lambda>_. [])\<rparr>"

definition jupe_env :: "config \<Rightarrow> server_jupe list \<Rightarrow> env" where
  "jupe_env cf active_jupes = hook_add (h_jupeserv_squit (bare_env cf) active_jupes) HOOK_PROTO_SQUIT_UNKNOWN (bare_env cf)"

lemma jupe_env_simps [simp]:
  "lib (jupe_env cf js) = list_rblib" "coper_lib (jupe_env cf js) = list_dlink" "config_file (jupe_env cf js) = cf"
  "hooks (jupe_env cf js) = (\<lambda>h. if h = HOOK_PROTO_SQUIT_UNKNOWN then [h_jupeserv_squit (bare_env cf) js] else [])"
  by (auto simp: jupe_env_def bare_env_def hook_add_def)

lemma sendto_server_sendq: "\<exists>q. sendto_server ps s = s\<lparr>sendq := q\<rparr>"
  by (auto simp: sendto_server_def split: option.splits intro: exI [of _ "sendq s"])

interpretation jupe: env_ok "jupe_env cf js" for cf js
proof (rule env_ok.intro)
  show "rblib_ok (lib (jupe_env cf js))" by (simp add: list_rb.rblib_ok_axioms)
  show "dlink_ok (coper_lib (jupe_env cf js))" by (simp add: list_dl.dlink_ok_axioms)
  fix h f a b and s :: net
  assume "f \<in> set (hooks (jupe_env cf js) h)"
  then have f: "f = h_jupeserv_squit (bare_env cf) js" by (auto split: if_splits)
  have "\<exists>q. s = s\<lparr>sendq := q\<rparr>" by (rule exI [of _ "sendq s"]) simp
  then show "\<exists>r q. f a b s = Some (r, s\<lparr>sendq := q\<rparr>)"
    using sendto_server_sendq unfolding f h_jupeserv_squit_def by (auto split: harg.splits option.splits)
qed

interpretation jupe: env_active "jupe_env cf js" for cf js
  by unfold_locales (auto simp: hook_call_def chan_hooks_def)

end
