(* ===== verification/Sample.thy ===== *)
theory Sample
  imports Jupeserv
begin

section \<open>Sample: a small network\<close>

text \<open>
  A concrete well-formed state for the examples of the later theories: the uplink \<open>hub\<close>, the user
  \<open>alice\<close> on it, the service \<open>chanserv\<close>, and the channel \<open>#a\<close> in which \<open>alice\<close> is opped.
\<close>

definition sample_user :: user where
  "sample_user = \<lparr>username = ''al'', host = ''example.org'', ip = None, servername = ''hub.example.org'',
     usermask = ''alice!al@example.org'', umode = 0, tsinfo = 100, flood_count = 0, flood_time = 0,
     user_reg = None, oper = None, channels = [4]\<rparr>"

definition sample_service :: service where
  "sample_service = \<lparr>svc_username = ''chanserv'', svc_host = ''services.int'', svc_id = ''CHANSERV'', status = 0,
     svc_flags = 0, svc_channels = [], flood = 0, flood_max = 10, flood_grace = 5, command = None,
     help_count = 0, ehelp_count = 0, paced_count = 0, ignored_count = 0\<rparr>"

definition sample_clients :: "addr \<Rightarrow> client option" where
  "sample_clients a =
     (if a = 0 then Some \<lparr>name = ''hub.example.org'', info = ''hub'', uid = ''1HB'', flags = FLAGS_EOB,
        server = Some \<lparr>server_users = [1], servers = [], hops = 1\<rparr>, user = None, service = None, uplink = None\<rparr>
      else if a = 1 then Some \<lparr>name = ''alice'', info = ''Alice'', uid = ''1HBAAAAAA'', flags = 0, server = None,
        user = Some sample_user, service = None, uplink = Some 0\<rparr>
      else if a = 2 then Some \<lparr>name = ''chanserv'', info = ''Channel Services'', uid = ''2SVAAAAAA'', flags = 0, server = None,
        user = None, service = Some sample_service, uplink = None\<rparr>
      else None)"

definition sample_channel :: channel where
  "sample_channel = (new_channel ''#a'' 100)\<lparr>users := [4], users_opped := [4], cmode := no_mode\<lparr>mode := MODE_TOPIC\<rparr>\<rparr>"

definition sample_net :: net where
  "sample_net = empty_net\<lparr>clients := sample_clients, chans := [3 \<mapsto> sample_channel],
     members := [4 \<mapsto> \<lparr>chptr = 3, mclient = 1, mflags = MODE_OPPED\<rparr>], next_addr := 5,
     name_table := (\<lambda>h. filter (\<lambda>a. hash_name (if a = 0 then ''hub.example.org'' else if a = 1 then ''alice'' else ''chanserv'') = h) [0, 1, 2]),
     uid_table := (\<lambda>h. filter (\<lambda>a. hash_name (if a = 0 then ''1HB'' else if a = 1 then ''1HBAAAAAA'' else ''2SVAAAAAA'') = h) [0, 1, 2]),
     channel_table := (\<lambda>h. if h = hash_channel ''#a'' then [3] else []), channel_list := [3],
     user_list := [1], server_list := [0], service_list := [2],
     server_p := Some \<lparr>conn_name = ''hub.example.org'', sid = ''1HB'', pass = ''secret'',
       conn_flags = CONN_TS OR CONN_FLAGS_SENTBURST OR CONN_FLAGS_EOB, conn_client = Some 0, first_time = 50, conn_last_time = 190\<rparr>, now := 200\<rparr>"

definition sample_config :: config where
  "sample_config = \<lparr>conf_name = ''services.int'', conf_sid = ''2SV'', gecos = ''services'', ratbox = True, min_servers = 1,
     min_users = 1, split_oper_time = 60, client_flood_time = 10, client_flood_max = 5, client_flood_max_ignore = 10, ping_time = 300\<rparr>"

definition sample_env :: env where
  "sample_env = jupe_env sample_config
     [\<lparr>jupe_name = ''bad.example.org'', jupe_reason = ''abuse'', points = 0, jupe_add = 0, jupe_expire = 0, jupe_servers = []\<rparr>]"

lemma sample_env_ok: "env_active sample_env" "env_ok sample_env" "rblib_ok (lib sample_env)"
  unfolding sample_env_def by (rule jupe.env_active_axioms, rule jupe.env_ok_axioms, rule jupe.rblib_ok_axioms)

lemma sample_proj:
  "keys sample_net = (\<lambda>a. if a = 0 then Some (''hub.example.org'', ''1HB'') else if a = 1 then Some (''alice'', ''1HBAAAAAA'')
     else if a = 2 then Some (''chanserv'', ''2SVAAAAAA'') else None)"
  "kind sample_net = (\<lambda>a. if a = 0 then Some (False, True, False) else if a = 1 then Some (True, False, False)
     else if a = 2 then Some (False, False, True) else None)"
  "parent sample_net = [1 \<mapsto> 0]" "dead sample_net = (\<lambda>a. False)" "chan_key sample_net = [3 \<mapsto> ''#a'']"
  "user_chans sample_net = [1 \<mapsto> [4]]" "chan_lists sample_net = [3 \<mapsto> ([4], [4], [])]" "chan_services sample_net = [3 \<mapsto> []]"
  "service_chans sample_net = [2 \<mapsto> []]" "user_oper sample_net = (\<lambda>a. None)" "user_link sample_net = (\<lambda>a. None)"
  "server_lists sample_net = [0 \<mapsto> ([1], [])]"
  by (auto simp: projection_defs sample_net_def sample_clients_def sample_user_def sample_service_def sample_channel_def
      new_channel_def fun_eq_iff empty_net_def)

lemma sample_fields [simp]:
  "members sample_net = [4 \<mapsto> \<lparr>chptr = 3, mclient = 1, mflags = MODE_OPPED\<rparr>]" "chans sample_net = [3 \<mapsto> sample_channel]"
  "clients sample_net = sample_clients"
  "user_list sample_net = [1]" "server_list sample_net = [0]" "service_list sample_net = [2]" "next_addr sample_net = 5"
  "channel_list sample_net = [3]" "exited_list sample_net = []" "client_oper_list sample_net = []" "conf_oper_list sample_net = []"
  by (simp_all add: sample_net_def empty_net_def)

lemma sample_hashed: "hashed sample_net a \<longleftrightarrow> a = 0 \<or> a = 1 \<or> a = 2"
  by (auto simp: hashed_def sample_proj) (simp_all add: sample_net_def)

lemma sample_net_ok: "net_ok sample_net"
proof -
  have "tables_ok sample_net"
    by (simp add: tables_ok_def sample_hashed sample_proj) (simp add: sample_net_def empty_net_def)
  moreover have "chtable_ok sample_net"
    by (simp add: chtable_ok_def sample_proj) (auto simp: sample_net_def)
  moreover have "members_ok sample_net"
    by (simp add: members_ok_def sample_proj chan_match_def user_match_def is_opped_def)
  moreover have "services_ok sample_net" by (simp add: services_ok_def sample_proj) (simp add: sample_net_def empty_net_def)
  moreover have "links_ok sample_net" by (simp add: links_ok_def sample_proj sample_hashed)
  moreover have "opers_ok sample_net" by (simp add: opers_ok_def oper_refs_def sample_proj) (simp add: sample_net_def empty_net_def)
  moreover have "alloc_ok sample_net" by (simp add: alloc_ok_def sample_proj)
  moreover have "listed_ok sample_net" by (simp add: listed_ok_def sample_proj sample_hashed)
  ultimately show ?thesis by (simp add: net_ok_def)
qed

end
