(* ===== verification/Channel_Handlers.thy ===== *)
theory Channel_Handlers
  imports Sample
begin

section \<open>Channel\_Handlers: services in channels and the channel commands (src/channel.c)\<close>

text \<open>
  \<open>join_service\<close>, \<open>part_service\<close>, \<open>rejoin_service\<close>, the handlers of KICK, PART, TOPIC, TB, SJOIN
  and JOIN, and the functions that strip a channel of its modes. A handler gets the client that
  sent the command, never NULL, and the parameters.
\<close>

definition send_sjoin :: "env \<Rightarrow> client \<Rightarrow> channel \<Rightarrow> net \<Rightarrow> net" where
  "send_sjoin E sv ch s =
     sendto_server ['':'', MYUID E s, '' SJOIN '', lu (ch_tsinfo ch), '' '', chname ch, '' '', chmode_to_string (cmode ch),
       '' :@'', SVC_UID sv s] s"

text \<open>\<open>chptr->mode\<close> takes the mode given; the key only when there is one.\<close>

definition take_mode :: "rblib \<Rightarrow> chmode option \<Rightarrow> chmode \<Rightarrow> chmode" where
  "take_mode L md old =
     (case md of
        Some m \<Rightarrow> old\<lparr>mode := mode m, limit := limit m, key := (if key m \<noteq> [] then rb_strlcpy L (key m) (KEYLEN + 1) else key old)\<rparr>
      | None \<Rightarrow> old\<lparr>mode := MODE_NOEXTERNAL OR MODE_TOPIC\<rparr>)"

definition join_service :: "env \<Rightarrow> addr \<Rightarrow> string \<Rightarrow> int \<Rightarrow> chmode option \<Rightarrow> bool \<Rightarrow> net \<Rightarrow> net option" where
  "join_service E service_p nm ts md override s = do {
     let L = lib E;
     r \<leftarrow> find_channel nm s;
     sc \<leftarrow> (case r of
        None \<Rightarrow> do {
          let ch = (new_channel (rb_strlcpy L nm (CHANNELLEN + 1)) (if ts \<noteq> 0 then ts else now s))\<lparr>cmode := take_mode L md no_mode\<rparr>;
          let (c, s) = alloc_channel ch s;
          s \<leftarrow> add_channel L c s;
          Some (Some c, s)
        }
      | Some c \<Rightarrow> do {
          ch \<leftarrow> chans s c;
          if dlinkFind (rb_ptrs L) service_p (services ch) then Some (None, s)
          else if override \<and> ts < ch_tsinfo ch then do {
            s \<leftarrow> upd_chan c (\<lambda>ch. ch\<lparr>ch_tsinfo := ts, cmode := take_mode L md (cmode ch)\<rparr>) s;
            Some (Some c, s)
          }
          else Some (Some c, s)
        });
     (case sc of
        (None, s) \<Rightarrow> Some s
      | (Some c, s) \<Rightarrow> do {
          s \<leftarrow> upd_chan c (\<lambda>ch. ch\<lparr>services := dlinkAdd (rb_ptrs L) service_p (services ch)\<rparr>) s;
          s \<leftarrow> upd_service service_p (\<lambda>sv. sv\<lparr>svc_channels := dlinkAdd (rb_ptrs L) c (svc_channels sv)\<rparr>) s;
          ch \<leftarrow> chans s c;
          sv \<leftarrow> clients s service_p;
          Some (if sent_burst s then send_sjoin E sv ch s else s)
        })
   }"

definition part_service :: "env \<Rightarrow> addr \<Rightarrow> string \<Rightarrow> net \<Rightarrow> (bool \<times> net) option" where
  "part_service E service_p nm s = do {
     let L = lib E;
     r \<leftarrow> find_channel nm s;
     (case r of
        None \<Rightarrow> Some (False, s)
      | Some c \<Rightarrow> do {
          ch \<leftarrow> chans s c;
          if \<not> dlinkFind (rb_ptrs L) service_p (services ch) then Some (False, s)
          else do {
            s \<leftarrow> upd_chan c (\<lambda>ch. ch\<lparr>services := dlinkDelete (rb_ptrs L) service_p (services ch)\<rparr>) s;
            s \<leftarrow> upd_service service_p (\<lambda>sv. sv\<lparr>svc_channels := dlinkDelete (rb_ptrs L) c (svc_channels sv)\<rparr>) s;
            sv \<leftarrow> clients s service_p;
            ch \<leftarrow> chans s c;
            let s = (if sent_burst s then sendto_server ['':'', SVC_UID sv s, '' PART '', chname ch] s else s);
            s \<leftarrow> (if users ch = [] \<and> services ch = [] then free_channel E c s else Some s);
            Some (True, s)
          }
        })
   }"

definition rejoin_service :: "env \<Rightarrow> addr \<Rightarrow> addr \<Rightarrow> bool \<Rightarrow> net \<Rightarrow> net option" where
  "rejoin_service E service_p c reop s = do {
     sv \<leftarrow> clients s service_p;
     ch \<leftarrow> chans s c;
     if reop \<and> ratbox (config_file E)
     then Some (sendto_server ['':'', MYUID E s, '' MODE '', chname ch, '' +o '', SVC_UID sv s] s)
     else (let s = (if reop then sendto_server ['':'', SVC_UID sv s, '' PART '', chname ch] s else s)
           in Some (send_sjoin E sv ch s))
   }"

subsection \<open>KICK, PART, TOPIC and TB\<close>

definition c_kick :: "env \<Rightarrow> addr \<Rightarrow> parv \<Rightarrow> net \<Rightarrow> net option" where
  "c_kick E client_p ps s =
     (if length ps < 2 \<or> EmptyString (arg ps 1) then Some s
      else do {
        r \<leftarrow> find_channel (arg ps 0) s;
        case r of None \<Rightarrow> Some s | Some c \<Rightarrow> do {
          t \<leftarrow> find_service (arg ps 1) s;
          case t of Some sv \<Rightarrow> rejoin_service E sv c False s | None \<Rightarrow> do {
            t \<leftarrow> find_user (arg ps 1) True s;
            case t of None \<Rightarrow> Some s | Some target_p \<Rightarrow> do {
              m \<leftarrow> find_chmember c target_p s;
              case m of None \<Rightarrow> Some s | Some mptr \<Rightarrow> del_chmember E mptr s
            }
          }
        }
      })"

definition c_part :: "env \<Rightarrow> addr \<Rightarrow> parv \<Rightarrow> net \<Rightarrow> net option" where
  "c_part E client_p ps s =
     (if length ps < 1 \<or> EmptyString (arg ps 0) then Some s
      else do {
        cl \<leftarrow> clients s client_p;
        if user cl = None then Some s
        else do {
          r \<leftarrow> find_channel (arg ps 0) s;
          case r of None \<Rightarrow> Some s | Some c \<Rightarrow> do {
            m \<leftarrow> find_chmember c client_p s;
            case m of None \<Rightarrow> Some s | Some mptr \<Rightarrow> del_chmember E mptr s
          }
        }
      })"

definition c_topic :: "env \<Rightarrow> addr \<Rightarrow> parv \<Rightarrow> net \<Rightarrow> net option" where
  "c_topic E client_p ps s =
     (if length ps < 2 then Some s
      else do {
        r \<leftarrow> find_channel (arg ps 0) s;
        case r of None \<Rightarrow> Some s | Some c \<Rightarrow> do {
          s \<leftarrow> (if EmptyString (arg ps 1)
                then upd_chan c (\<lambda>ch. ch\<lparr>topic := [], topicwho := [], topic_tsinfo := 0\<rparr>) s
                else do {
                  cl \<leftarrow> clients s client_p;
                  let who = (case user cl of
                      Some u \<Rightarrow> take NICKUSERHOSTLEN (name cl @ ''!'' @ username u @ ''@'' @ host u)
                    | None \<Rightarrow> rb_strlcpy (lib E) (name cl) (NICKUSERHOSTLEN + 1));
                  upd_chan c (\<lambda>ch. ch\<lparr>topic := rb_strlcpy (lib E) (arg ps 1) (TOPICLEN + 1), topicwho := who,
                    topic_tsinfo := now s\<rparr>) s
                });
          hook_do E HOOK_CHANNEL_TOPIC (ArgChannel c) ArgNull s
        }
      })"

definition c_tb :: "env \<Rightarrow> addr \<Rightarrow> parv \<Rightarrow> net \<Rightarrow> net option" where
  "c_tb E client_p ps s = do {
     cl \<leftarrow> clients s client_p;
     if length ps < 3 \<or> server cl = None then Some s
     else do {
       r \<leftarrow> find_channel (arg ps 0) s;
       case r of None \<Rightarrow> Some s | Some c \<Rightarrow> do {
         ch \<leftarrow> chans s c;
         if \<not> EmptyString (topic ch) \<and> atol (arg ps 1) > topic_tsinfo ch then Some s
         else if length ps = 4 then
           (if EmptyString (arg ps 3) then Some s
            else do {
              s \<leftarrow> upd_chan c (\<lambda>ch. ch\<lparr>topic := rb_strlcpy (lib E) (arg ps 3) (TOPICLEN + 1),
                topicwho := rb_strlcpy (lib E) (arg ps 2) (NICKUSERHOSTLEN + 1), topic_tsinfo := now s\<rparr>) s;
              hook_do E HOOK_CHANNEL_TOPIC (ArgChannel c) ArgNull s
            })
         else
           (if EmptyString (arg ps 2) then Some s
            else do {
              s \<leftarrow> upd_chan c (\<lambda>ch. ch\<lparr>topic := rb_strlcpy (lib E) (arg ps 2) (TOPICLEN + 1),
                topicwho := rb_strlcpy (lib E) (name cl) (NICKUSERHOSTLEN + 1), topic_tsinfo := now s\<rparr>) s;
              hook_do E HOOK_CHANNEL_TOPIC (ArgChannel c) ArgNull s
            })
       }
     }
   }"

subsection \<open>Stripping a channel of its modes\<close>

text \<open>The lines of \<open>remove_our_simple_modes\<close> for a service that issues them.\<close>

definition remove_modes_lines :: "addr \<Rightarrow> addr \<Rightarrow> bool \<Rightarrow> net \<Rightarrow> net option" where
  "remove_modes_lines c service_p prevent_join s = do {
     s \<leftarrow> mb_start service_p c s;
     ch \<leftarrow> chans s c;
     let s = fold (\<lambda>(b, l, pj) s. if prevent_join \<and> \<not> pj then s
                    else if mode (cmode ch) AND b \<noteq> 0 then mb_add DIR_DEL [l] None s else s) chmode_table s;
     s \<leftarrow> (if key (cmode ch) \<noteq> []
           then upd_chan c (\<lambda>ch. ch\<lparr>cmode := set_bits False MODE_KEY (cmode ch)\<rparr>) (mb_add DIR_DEL ''k'' (Some ''*'') s)
           else Some s);
     s \<leftarrow> (if limit (cmode ch) \<noteq> 0
           then upd_chan c (\<lambda>ch. ch\<lparr>cmode := set_bits False MODE_LIMIT (cmode ch)\<rparr>) (mb_add DIR_DEL ''l'' None s)
           else Some s);
     Some (mb_finish s)
   }"

definition remove_our_simple_modes :: "addr \<Rightarrow> addr option \<Rightarrow> bool \<Rightarrow> net \<Rightarrow> net option" where
  "remove_our_simple_modes c service_p prevent_join s = do {
     s \<leftarrow> (case service_p of None \<Rightarrow> Some s | Some p \<Rightarrow> remove_modes_lines c p prevent_join s);
     upd_chan c (\<lambda>ch. ch\<lparr>cmode := (cmode ch)\<lparr>mode := 0, key := [], limit := 0\<rparr>\<rparr>) s
   }"

definition remove_our_ov_modes :: "rblib \<Rightarrow> addr \<Rightarrow> net \<Rightarrow> net option" where
  "remove_our_ov_modes L c s = do {
     ch \<leftarrow> chans s c;
     s \<leftarrow> foreach (\<lambda>m. upd_member m (\<lambda>mp. mp\<lparr>mflags := mflags mp AND NOT (MODE_OPPED OR MODE_VOICED)\<rparr>)) (users ch) s;
     upd_chan c (\<lambda>ch. ch\<lparr>users_unopped := dlinkMoveList (rb_ptrs L) (users_opped ch) (users_unopped ch), users_opped := []\<rparr>) s
   }"

definition remove_our_bans :: "addr \<Rightarrow> addr option \<Rightarrow> bool \<Rightarrow> bool \<Rightarrow> bool \<Rightarrow> net \<Rightarrow> net option" where
  "remove_our_bans c service_p remove_bans remove_exceptions remove_invex s = do {
     s \<leftarrow> (case service_p of None \<Rightarrow> Some s | Some p \<Rightarrow> mb_start p c s);
     ch \<leftarrow> chans s c;
     let issue = (\<lambda>l bs s. if service_p = None then s else fold (\<lambda>b. mb_add DIR_DEL l (Some b)) bs s);
     s \<leftarrow> (if remove_bans then upd_chan c (\<lambda>ch. ch\<lparr>bans := []\<rparr>) (issue ''b'' (bans ch) s) else Some s);
     s \<leftarrow> (if remove_exceptions then upd_chan c (\<lambda>ch. ch\<lparr>excepts := []\<rparr>) (issue ''e'' (excepts ch) s) else Some s);
     s \<leftarrow> (if remove_invex then upd_chan c (\<lambda>ch. ch\<lparr>invites := []\<rparr>) (issue ''I'' (invites ch) s) else Some s);
     Some (if service_p = None then s else mb_finish s)
   }"

subsection \<open>SJOIN and JOIN\<close>

text \<open>\<open>strcmp\<close>: the difference of the first characters that differ.\<close>

fun strcmp :: "string \<Rightarrow> string \<Rightarrow> int" where
  "strcmp [] [] = 0"
| "strcmp [] (d # t) = - of_char d"
| "strcmp (c # s) [] = of_char c"
| "strcmp (c # s) (d # t) = (if c = d then strcmp s t else of_char c - of_char d)"

text \<open>The nick list: leading spaces are skipped and the next space ends the nick.\<close>

function sjoin_nicks :: "string \<Rightarrow> string list" where
  "sjoin_nicks s =
     (if EmptyString s then []
      else (let s = dropWhile (\<lambda>c. c = CHR '' '') s in
        case strchr_split CHR '' '' s of None \<Rightarrow> [s] | Some (nick, p) \<Rightarrow> nick # sjoin_nicks p))"
  by pat_completeness auto

termination sjoin_nicks
proof (relation "measure length")
  fix s t :: string and r nick p
  assume h: "\<not> EmptyString s" "t = dropWhile (\<lambda>c. c = CHR '' '') s" "strchr_split CHR '' '' t = Some r" "(nick, p) = r"
  then have "t = nick @ CHR '' '' # p" using strchr_split_iff by metis
  moreover have "length t \<le> length s" using h(2) by (simp add: length_dropWhile_le)
  ultimately show "(p, s) \<in> measure length" by simp
qed simp

declare sjoin_nicks.simps [simp del]

definition sjoin_prefix :: "string \<Rightarrow> u32 \<times> string" where
  "sjoin_prefix s =
     (case s of
        c # t \<Rightarrow>
          if c = CHR ''@'' then
            (case t of d # r \<Rightarrow> if d = CHR ''+'' then (MODE_OPPED OR MODE_VOICED, r) else (MODE_OPPED, t) | [] \<Rightarrow> (MODE_OPPED, t))
          else if c = CHR ''+'' then
            (case t of d # r \<Rightarrow> if d = CHR ''@'' then (MODE_VOICED OR MODE_OPPED, r) else (MODE_VOICED, t) | [] \<Rightarrow> (MODE_VOICED, t))
          else (0, s)
      | [] \<Rightarrow> (0, s))"

definition sjoin_flags :: "bool \<Rightarrow> u32 \<Rightarrow> u32" where
  "sjoin_flags keep_new_modes fl =
     (if \<not> keep_new_modes then (if fl AND MODE_OPPED \<noteq> 0 then MODE_DEOPPED else 0) else fl)"

fun sjoin_members :: "rblib \<Rightarrow> addr \<Rightarrow> bool \<Rightarrow> string list \<Rightarrow> addr list \<Rightarrow> net \<Rightarrow> (addr list \<times> net) option" where
  "sjoin_members L c keep_new_modes [] joined s = Some (joined, s)"
| "sjoin_members L c keep_new_modes (tok # toks) joined s = do {
     let (fl, nick) = sjoin_prefix tok;
     r \<leftarrow> find_user nick True s;
     (case r of
        None \<Rightarrow> sjoin_members L c keep_new_modes toks joined s
      | Some target_p \<Rightarrow> do {
          m \<leftarrow> find_chmember c target_p s;
          (case m of
             Some mptr \<Rightarrow> sjoin_members L c keep_new_modes toks joined s
           | None \<Rightarrow> do {
               (mptr, s) \<leftarrow> add_chmember L c target_p (sjoin_flags keep_new_modes fl) s;
               sjoin_members L c keep_new_modes toks (dlinkAdd (rb_ptrs L) mptr joined) s
             })
        })
   }"

text \<open>The channel that is joined: found, or made with the time stamp of the message. The two flags are
  \<open>keep_old_modes\<close> and \<open>keep_new_modes\<close>.\<close>

definition sjoin_channel :: "rblib \<Rightarrow> string \<Rightarrow> int \<Rightarrow> net \<Rightarrow> (addr \<times> bool \<times> bool \<times> net) option" where
  "sjoin_channel L nm newts s = do {
     r \<leftarrow> find_channel nm s;
     (case r of
        None \<Rightarrow> do {
          let (c, s) = alloc_channel (new_channel (rb_strlcpy L nm (CHANNELLEN + 1)) newts) s;
          s \<leftarrow> add_channel L c s;
          Some (c, False, True, s)
        }
      | Some c \<Rightarrow> do {
          ch \<leftarrow> chans s c;
          if newts = 0 \<or> ch_tsinfo ch = 0 then do { s \<leftarrow> upd_chan c (\<lambda>ch. ch\<lparr>ch_tsinfo := 0\<rparr>) s; Some (c, True, True, s) }
          else if newts < ch_tsinfo ch then Some (c, False, True, s)
          else if ch_tsinfo ch < newts then Some (c, True, False, s)
          else Some (c, True, True, s)
        })
   }"

text \<open>The losing side's modes go, and the services in the channel join again.\<close>

definition lower_ts :: "env \<Rightarrow> addr \<Rightarrow> int \<Rightarrow> bool \<Rightarrow> net \<Rightarrow> net option" where
  "lower_ts E c newts with_bans s = do {
     s \<leftarrow> upd_chan c (\<lambda>ch. ch\<lparr>ch_tsinfo := newts\<rparr>) s;
     s \<leftarrow> remove_our_simple_modes c None False s;
     s \<leftarrow> remove_our_ov_modes (lib E) c s;
     s \<leftarrow> (if with_bans then remove_our_bans c None True True True s else Some s);
     ch \<leftarrow> chans s c;
     if sent_burst s then foreach (\<lambda>sv. rejoin_service E sv c True) (services ch) s else Some s
   }"

definition merge_mode :: "rblib \<Rightarrow> chmode \<Rightarrow> chmode \<Rightarrow> chmode" where
  "merge_mode L newmode old =
     (let m = old\<lparr>mode := mode old OR mode newmode\<rparr>;
          m = (if limit m = 0 \<or> limit m < limit newmode then m\<lparr>limit := limit newmode\<rparr> else m)
      in if key m = [] \<or> strcmp (key m) (key newmode) > 0 then m\<lparr>key := rb_strlcpy L (key newmode) (KEYLEN + 1)\<rparr> else m)"

text \<open>The modes of the two sides, and then the functions on the event of a lowered time stamp.\<close>

definition sjoin_modes :: "env \<Rightarrow> addr \<Rightarrow> int \<Rightarrow> bool \<Rightarrow> bool \<Rightarrow> chmode option \<Rightarrow> net \<Rightarrow> net option" where
  "sjoin_modes E c newts with_bans keep_old_modes merge s = do {
     s \<leftarrow> (if \<not> keep_old_modes then lower_ts E c newts with_bans s else Some s);
     s \<leftarrow> (case merge of Some newmode \<Rightarrow> upd_chan c (\<lambda>ch. ch\<lparr>cmode := merge_mode (lib E) newmode (cmode ch)\<rparr>) s | None \<Rightarrow> Some s);
     if \<not> keep_old_modes then hook_do E HOOK_CHANNEL_SJOIN_LOWERTS (ArgChannel c) ArgNull s else Some s
   }"

definition sjoin_nicklist :: "env \<Rightarrow> addr \<Rightarrow> bool \<Rightarrow> string \<Rightarrow> net \<Rightarrow> net option" where
  "sjoin_nicklist E c keep_new_modes nicks s =
     (if EmptyString nicks then Some s
      else do {
        (joined, s) \<leftarrow> sjoin_members (lib E) c keep_new_modes (sjoin_nicks nicks) [] s;
        ch \<leftarrow> chans s c;
        if users ch = [] \<and> services ch = [] then free_channel E c s
        else hook_do E HOOK_CHANNEL_JOIN (ArgChannel c) (ArgMembers joined) s
      })"

definition c_sjoin :: "env \<Rightarrow> addr \<Rightarrow> parv \<Rightarrow> net \<Rightarrow> net option" where
  "c_sjoin E client_p ps s =
     (if length ps < 4 \<or> EmptyString (arg ps 3) \<or> \<not> valid_chname (arg ps 1) then Some s
      else do {
        let newts = atol (arg ps 0);
        (c, keep_old_modes, keep_new_modes, s) \<leftarrow> sjoin_channel (lib E) (arg ps 1) newts s;
        let (args, newmode) = (if arg ps 2 \<noteq> ''0'' then parse_simple_mode (lib E) no_mode ps (length ps) 2 True else (3, no_mode));
        if args = 0 then Some s
        else do {
          cl \<leftarrow> clients s client_p;
          s \<leftarrow> sjoin_modes E c newts (\<not> EmptyString (uid cl)) keep_old_modes (if keep_new_modes then Some newmode else None) s;
          sjoin_nicklist E c keep_new_modes (arg ps args) s
        }
      })"

text \<open>A JOIN reads the modes but does not apply them. Its member joins without flags.\<close>

definition join_member :: "env \<Rightarrow> addr \<Rightarrow> addr \<Rightarrow> net \<Rightarrow> net option" where
  "join_member E c client_p s = do {
     m \<leftarrow> find_chmember c client_p s;
     (joined, s) \<leftarrow> (case m of
         Some mptr \<Rightarrow> Some ([], s)
       | None \<Rightarrow> do { (mptr, s) \<leftarrow> add_chmember (lib E) c client_p 0 s; Some (dlinkAdd (rb_ptrs (lib E)) mptr [], s) });
     hook_do E HOOK_CHANNEL_JOIN (ArgChannel c) (ArgMembers joined) s
   }"

definition c_join :: "env \<Rightarrow> addr \<Rightarrow> parv \<Rightarrow> net \<Rightarrow> net option" where
  "c_join E client_p ps s =
     (if EmptyString (arg ps 0) then Some s
      else do {
        cl \<leftarrow> clients s client_p;
        case user cl of None \<Rightarrow> Some s | Some u \<Rightarrow>
          if length ps = 1 \<and> hd (arg ps 0) = CHR ''0'' then foreach (del_chmember E) (channels u) s
          else if length ps < 3 \<or> \<not> valid_chname (arg ps 1) then Some s
          else do {
            let newts = atol (arg ps 0);
            (c, keep_old_modes, keep_new_modes, s) \<leftarrow> sjoin_channel (lib E) (arg ps 1) newts s;
            let (args, newmode) = parse_simple_mode (lib E) no_mode ps (length ps) 2 True;
            if args = 0 then Some s
            else do {
              s \<leftarrow> sjoin_modes E c newts False keep_old_modes None s;
              join_member E c client_p s
            }
          }
      })"

subsection \<open>The handlers keep the state well-formed\<close>

lemma net_ok_chan_frame:
  assumes "net_ok s" "chans s c = Some ch" "chname ch' = chname ch" "users ch' = users ch" "users_opped ch' = users_opped ch"
    "users_unopped ch' = users_unopped ch" "services ch' = services ch"
  shows "net_ok (set_chan c ch' s)" "chan_frame (set_chan c ch' s) s"
proof -
  have P: "chan_key (set_chan c ch' s) = chan_key s" "chan_lists (set_chan c ch' s) = chan_lists s"
    "chan_services (set_chan c ch' s) = chan_services s"
    using chan_projs [OF assms(2)] assms(3-7) by (simp_all add: fun_upd_same)
  show "chan_frame (set_chan c ch' s) s" using P by (simp add: chan_frame_def same_clients_def)
  then have "clients_ok (set_chan c ch' s)" using same_clients_ok assms(1) by (auto simp: chan_frame_def net_ok_alt)
  then show "net_ok (set_chan c ch' s)"
    using P assms(1) chtable_ok_cong [of "set_chan c ch' s" s] members_ok_cong [of "set_chan c ch' s" s]
      services_ok_cong [of "set_chan c ch' s" s] alloc_ok_cong [of "set_chan c ch' s" s]
    by (simp add: net_ok_alt chans_ok_def same_clients_def)
qed

lemma upd_chan_runs:
  assumes "net_ok s" "chans s c = Some ch"
    "\<And>ch. chname (f ch) = chname ch \<and> users (f ch) = users ch \<and> users_opped (f ch) = users_opped ch \<and>
      users_unopped (f ch) = users_unopped ch \<and> services (f ch) = services ch"
  shows "runs (upd_chan c f s) (\<lambda>s'. net_ok s' \<and> chan_frame s' s \<and> s' = set_chan c (f ch) s)"
  using net_ok_chan_frame [OF assms(1,2), of "f ch"] assms(3) by (simp add: upd_chan_eq [OF assms(2)])

lemma find_channel_runs:
  assumes "net_ok s" "\<And>c ch. chans s c = Some ch \<Longrightarrow> irccmp (chname ch) nm = 0 \<Longrightarrow> Q (Some c)"
    "(\<And>c ch. cstring nm \<Longrightarrow> chans s c = Some ch \<Longrightarrow> irccmp (chname ch) nm \<noteq> 0) \<Longrightarrow> Q None"
  shows "runs (find_channel nm s) Q"
proof -
  have "chtable_ok s" using assms(1) by blast
  then show ?thesis
  proof (rule find_channel_total [of s nm])
    fix r assume r: "find_channel nm s = Some r" "\<And>c. r = Some c \<Longrightarrow> \<exists>ch. chans s c = Some ch \<and> irccmp (chname ch) nm = 0"
      "\<And>c n. r = None \<Longrightarrow> cstring nm \<Longrightarrow> chan_key s c = Some n \<Longrightarrow> irccmp n nm \<noteq> 0"
    show ?thesis
    proof (cases r)
      case None
      have "Q None" by (rule assms(3)) (use r(3) [OF None] in \<open>auto simp: chan_key_def\<close>)
      then show ?thesis using r(1) None by simp
    next
      case (Some c)
      then show ?thesis using r(1) r(2) [OF Some] assms(2) by auto
    qed
  qed
qed

lemma links_ok_kind:
  assumes "links_ok s"
  shows "a \<in> set (user_list s) \<Longrightarrow> kind s a = Some (True, False, False)"
    "a \<in> set (server_list s) \<Longrightarrow> kind s a = Some (False, True, False)"
  using assms unfolding links_ok_def by blast+

lemma find_user_runs:
  assumes "net_ok s" "\<And>a u. hashed s a \<Longrightarrow> a \<in> set (user_list s) \<Longrightarrow> get_user a s = Some u \<Longrightarrow> Q (Some a)" "Q None"
  shows "runs (find_user nm b s) Q"
proof -
  have ok: "tables_ok s" "listed_ok s" "links_ok s" using assms(1) by blast+
  show ?thesis
  proof (rule find_user_total [OF ok(1), of nm b])
    fix r assume r: "find_user nm b s = Some r" "\<And>a. r = Some a \<Longrightarrow> hashed s a \<and> (\<exists>u. get_user a s = Some u)"
    show ?thesis
    proof (cases r)
      case (Some a)
      then obtain u where u: "hashed s a" "get_user a s = Some u" using r(2) by blast
      have "kind s a \<noteq> Some (False, x, y)" for x y using u(2) by (auto simp: kind_def get_user_def bind_eq_Some_conv)
      then have "a \<notin> set (server_list s)" "a \<notin> set (service_list s)"
        using ok(2) links_ok_kind(2) [OF ok(3)] by (auto simp: listed_ok_def)
      then have "a \<in> set (user_list s)" using u(1) ok(2) by (auto simp: listed_ok_def)
      then show ?thesis using r(1) Some assms(2) u by auto
    qed (use assms r in simp)
  qed
qed

lemma find_user_seq:
  assumes "net_ok s" "\<And>a u. find_user nm b s = Some (Some a) \<Longrightarrow> a \<in> set (user_list s) \<Longrightarrow> get_user a s = Some u \<Longrightarrow> runs (f (Some a)) Q"
    "find_user nm b s = Some None \<Longrightarrow> runs (f None) Q"
  shows "runs (Option.bind (find_user nm b s) f) Q"
proof -
  have "runs (find_user nm b s) (\<lambda>r. \<forall>a. r = Some a \<longrightarrow> a \<in> set (user_list s) \<and> (\<exists>u. get_user a s = Some u))"
    by (rule find_user_runs [OF assms(1)]) auto
  then obtain r where r: "find_user nm b s = Some r" "\<forall>a. r = Some a \<longrightarrow> a \<in> set (user_list s) \<and> (\<exists>u. get_user a s = Some u)"
    by (auto simp: runs_def)
  then show ?thesis using assms(2,3) by (cases r) auto
qed

lemma find_service_runs:
  assumes "net_ok s" "\<And>a v. hashed s a \<Longrightarrow> get_service a s = Some v \<Longrightarrow> Q (Some a)" "Q None"
  shows "runs (find_service nm s) Q"
proof -
  have ok: "tables_ok s" using assms(1) by blast
  show ?thesis
  proof (rule find_service_total [OF ok, of nm])
    fix r assume "find_service nm s = Some r" "\<And>a. r = Some a \<Longrightarrow> hashed s a \<and> (\<exists>u. get_service a s = Some u)"
    then show ?thesis using assms(2,3) by (cases r) auto
  qed
qed

lemma find_chmember_runs:
  assumes "net_ok s" "chans s c \<noteq> None" "get_user a s \<noteq> None"
    "\<And>m mp. members s m = Some mp \<Longrightarrow> chptr mp = c \<Longrightarrow> mclient mp = a \<Longrightarrow> Q (Some m)"
    "(\<And>m mp. members s m = Some mp \<Longrightarrow> chptr mp = c \<Longrightarrow> mclient mp \<noteq> a) \<Longrightarrow> Q None"
  shows "runs (find_chmember c a s) Q"
proof -
  have ok: "members_ok s" using assms(1) by blast
  obtain ch u where "chans s c = Some ch" "get_user a s = Some u" using assms(2,3) by blast
  then show ?thesis
  proof (rule find_chmember_total [OF ok])
    fix r assume r: "find_chmember c a s = Some r"
      "\<And>m. r = Some m \<longleftrightarrow> (\<exists>mp. members s m = Some mp \<and> chptr mp = c \<and> mclient mp = a)"
    show ?thesis
    proof (cases r)
      case None
      have "Q None" by (rule assms(5)) (use r(2) None in auto)
      then show ?thesis using r(1) None by simp
    next
      case (Some m)
      then show ?thesis using r(2) [of m] r(1) assms(4) by auto
    qed
  qed
qed

context env_ok
begin

lemma del_chmember_runs:
  assumes "net_ok s" "members s m = Some mp"
  shows "runs (del_chmember E m s) (\<lambda>s'. net_ok s' \<and> same_clients s' s \<and> members s' = (members s)(m := None))"
proof -
  obtain s' where s': "del_chmember E m s = Some s'" "chans_ok s'" "members s' = (members s)(m := None)"
    "same_clients s' s" "next_addr s' = next_addr s" "\<And>c. chan_key s' c = chan_key s c \<or> chan_key s' c = None"
    by (rule del_chmember_ok [of s m mp]) (use assms net_ok_alt in auto)
  have "alloc_ok s'" unfolding alloc_ok_def
  proof (intro allI impI)
    fix x assume "next_addr s' \<le> x"
    then have "keys s x = None \<and> chan_key s x = None \<and> members s x = None"
      using assms(1) s'(5) by (simp add: net_ok_alt alloc_ok_def)
    then show "keys s' x = None \<and> chan_key s' x = None \<and> members s' x = None"
      using s'(3,4) s'(6) [of x] by (auto simp: same_clients_def)
  qed
  then show ?thesis using s' same_clients_ok [OF s'(4)] assms(1) by (simp add: net_ok_alt)
qed

lemma rejoin_service_runs:
  assumes "clients s a = Some cl" "chans s c = Some ch"
  shows "runs (rejoin_service E a c reop s) (\<lambda>s'. quiet s' s)"
  using assms by (auto simp: rejoin_service_def Let_def send_sjoin_def intro: quiet_trans [OF quiet_sendto_server])

lemma c_kick_runs:
  assumes "net_ok s"
  shows "runs (c_kick E a ps s) (\<lambda>s'. net_ok s' \<and> same_clients s' s)"
proof -
  have "runs (rejoin_service E sv c False s) (\<lambda>s'. net_ok s' \<and> same_clients s' s)"
    if A: "get_service sv s = Some v" "chans s c = Some ch" for sv v c ch
  proof -
    obtain cl where "clients s sv = Some cl" using A(1) by (cases "clients s sv") (auto simp: get_service_def)
    from rejoin_service_runs [OF this A(2), of False] show ?thesis
      by (rule runs_mono) (use assms quiet_net_ok quiet_same_clients in auto)
  qed
  moreover have "runs (del_chmember E m s) (\<lambda>s'. net_ok s' \<and> same_clients s' s)" if "members s m = Some mp" for m mp
    using del_chmember_runs [OF assms that] by (auto elim: runs_mono)
  ultimately show ?thesis
    using assms unfolding c_kick_def
    by (auto intro!: find_channel_runs find_service_runs find_user_runs find_chmember_runs)
qed

lemma c_part_runs:
  assumes "net_ok s" "hashed s a"
  shows "runs (c_part E a ps s) (\<lambda>s'. net_ok s' \<and> same_clients s' s)"
proof -
  have del: "runs (del_chmember E m s) (\<lambda>s'. net_ok s' \<and> same_clients s' s)" if "members s m = Some mp" for m mp
    using del_chmember_runs [OF assms(1) that] by (auto elim: runs_mono)
  obtain cl where cl: "clients s a = Some cl" using hashed_client [OF assms(2)] by blast
  show ?thesis using assms(1) cl del unfolding c_part_def
    by (auto simp: get_user_def intro!: find_channel_runs find_chmember_runs)
qed

end

subsection \<open>Making a channel\<close>

definition opened_channel :: "rblib \<Rightarrow> channel \<Rightarrow> net \<Rightarrow> net" where
  "opened_channel L ch s =
     s\<lparr>chans := (chans s)(next_addr s \<mapsto> ch), next_addr := Suc (next_addr s),
       channel_table := (channel_table s)(hash_channel (chname ch) :=
         dlinkAdd (rb_ptrs L) (next_addr s) (channel_table s (hash_channel (chname ch)))),
       channel_list := dlinkAdd (rb_ptrs L) (next_addr s) (channel_list s)\<rparr>"

lemma opened_channel_proj [simp]:
  "chan_key (opened_channel L ch s) = (chan_key s)(next_addr s \<mapsto> chname ch)"
  "chan_lists (opened_channel L ch s) = (chan_lists s)(next_addr s \<mapsto> (users ch, users_opped ch, users_unopped ch))"
  "chan_services (opened_channel L ch s) = (chan_services s)(next_addr s \<mapsto> services ch)"
  "same_clients (opened_channel L ch s) s" "members (opened_channel L ch s) = members s"
  "service_chans (opened_channel L ch s) = service_chans s" "user_chans (opened_channel L ch s) = user_chans s"
  "next_addr (opened_channel L ch s) = Suc (next_addr s)" "service_list (opened_channel L ch s) = service_list s"
  "user_list (opened_channel L ch s) = user_list s" "clients (opened_channel L ch s) = clients s"
  "chans (opened_channel L ch s) = (chans s)(next_addr s \<mapsto> ch)" "deopped_list (opened_channel L ch s) = deopped_list s"
  by (auto simp: opened_channel_def projection_defs same_clients_def fun_eq_iff)

lemma open_channel_eq: "add_channel L (next_addr s) (snd (alloc_channel ch s)) = Some (opened_channel L ch s)"
  by (simp add: add_channel_def alloc_channel_def opened_channel_def Let_def)

lemma chan_None: "chan_key s c = None \<Longrightarrow> chan_lists s c = None \<and> chan_services s c = None"
  by (simp add: chan_key_def chan_lists_def chan_services_def)

lemma unallocated_channel:
  assumes "net_ok s" "chan_key s c = None"
  shows "members s m = Some mp \<Longrightarrow> chptr mp \<noteq> c" "service_chans s a = Some cs \<Longrightarrow> c \<notin> set cs"
proof -
  have N: "chan_lists s c = None" "chan_services s c = None" using chan_None [OF assms(2)] by auto
  have ok: "members_ok s" "services_ok s" using assms(1) by blast+
  show "chptr mp \<noteq> c" if "members s m = Some mp" using members_okD(1) [OF ok(1) that] N(1) by auto
  show "c \<notin> set cs" if "service_chans s a = Some cs" using that ok(2) N(2) unfolding services_ok_def by metis
qed

context rblib_ok
begin

lemma chtable_ok_opened:
  assumes ok: "chtable_ok s" "chan_key s (next_addr s) = None"
    and nm: "cstring (chname ch)" "\<And>c n. chan_key s c = Some n \<Longrightarrow> irccmp n (chname ch) \<noteq> 0"
  shows "chtable_ok (opened_channel L ch s)"
proof -
  let ?s = "opened_channel L ch s" and ?c = "next_addr s"
  note D = chtable_okD [OF ok(1)]
  have nin: "?c \<notin> set (channel_list s)" "?c \<notin> set (channel_table s h)" for h using D(3,4) ok(2) by auto
  have "distinct (channel_list ?s)" "set (channel_list ?s) = insert ?c (set (channel_list s))"
    using D(1) nin by (simp_all add: opened_channel_def)
  moreover have "distinct (channel_table ?s h)"
    "set (channel_table ?s h) = (if h = hash_channel (chname ch) then insert ?c (set (channel_table s h)) else set (channel_table s h))" for h
    using D(2) nin by (simp_all add: opened_channel_def)
  moreover have "irccmp (chname ch) n \<noteq> 0" if "chan_key s c = Some n" for c n using nm(2) [OF that] irccmp_0_sym by blast
  ultimately show ?thesis
    using D(3-6) nm ok(2) unfolding chtable_ok_def opened_channel_proj by (auto split: if_splits)
qed

lemma net_ok_opened:
  assumes ok: "net_ok s" and nm: "cstring (chname ch)" "\<And>c n. chan_key s c = Some n \<Longrightarrow> irccmp n (chname ch) \<noteq> 0"
    and new: "users ch = []" "users_opped ch = []" "users_unopped ch = []" "services ch = []"
  shows "net_ok (opened_channel L ch s)"
proof -
  let ?s = "opened_channel L ch s" and ?c = "next_addr s"
  have D: "chtable_ok s" "members_ok s" "services_ok s" "alloc_ok s" using ok by blast+
  note N = alloc_okD [OF D(4)]
  note U = unallocated_channel [OF ok, of ?c]
  have "members_ok ?s" using D(2) U(1) N new by (fastforce simp: members_ok_def chan_match_def)
  moreover have "services_ok ?s" using D(3) U(2) N new by (auto simp: services_ok_def)
  moreover have "chtable_ok ?s" using chtable_ok_opened D(1) N nm by blast
  moreover have "alloc_ok ?s" using D(4) same_clients_def [of ?s s] by (auto simp: alloc_ok_def)
  moreover have "clients_ok ?s" using ok same_clients_ok [of ?s s] by (simp add: net_ok_alt)
  ultimately show ?thesis by (simp add: net_ok_alt chans_ok_def)
qed

end

subsection \<open>Services join and leave\<close>

text \<open>The state after the two lists of a service and a channel were written.\<close>

definition relinked :: "addr \<Rightarrow> channel \<Rightarrow> addr list \<Rightarrow> addr \<Rightarrow> service \<Rightarrow> addr list \<Rightarrow> net \<Rightarrow> net" where
  "relinked c ch svs a v cs s = set_service a (v\<lparr>svc_channels := cs\<rparr>) (set_chan c (ch\<lparr>services := svs\<rparr>) s)"

lemma relinked_proj:
  assumes "chans s c = Some ch" "get_service a s = Some v"
  shows "chan_key (relinked c ch svs a v cs s) = chan_key s" "chan_lists (relinked c ch svs a v cs s) = chan_lists s"
    "chan_services (relinked c ch svs a v cs s) = (chan_services s)(c \<mapsto> svs)"
    "service_chans (relinked c ch svs a v cs s) = (service_chans s)(a \<mapsto> cs)"
    "same_clients (relinked c ch svs a v cs s) s" "members (relinked c ch svs a v cs s) = members s"
    "user_chans (relinked c ch svs a v cs s) = user_chans s" "user_list (relinked c ch svs a v cs s) = user_list s"
    "channel_table (relinked c ch svs a v cs s) = channel_table s" "channel_list (relinked c ch svs a v cs s) = channel_list s"
    "next_addr (relinked c ch svs a v cs s) = next_addr s" "service_list (relinked c ch svs a v cs s) = service_list s"
    "chans (relinked c ch svs a v cs s) c = Some (ch\<lparr>services := svs\<rparr>)" "sendq (relinked c ch svs a v cs s) = sendq s"
    "server_p (relinked c ch svs a v cs s) = server_p s" "deopped_list (relinked c ch svs a v cs s) = deopped_list s"
  using chan_projs [OF assms(1)] assms(2)
  by (simp_all add: relinked_def same_clients_def proj_simps fun_upd_same)

lemma service_chansI: "get_service a s = Some v \<Longrightarrow> service_chans s a = Some (svc_channels v)"
  by (simp add: service_chans_def)

lemma services_okD:
  assumes "services_ok s" "chan_services s c = Some svs" "service_chans s a = Some cs"
  shows "a \<in> set svs \<longleftrightarrow> c \<in> set cs" "distinct svs" "distinct cs"
  using assms unfolding services_ok_def by force+

lemma net_ok_relinked:
  assumes ok: "net_ok s" and c: "chans s c = Some ch" and a: "get_service a s = Some v"
    and lists: "distinct svs" "distinct cs" "set svs - {a} = set (services ch) - {a}"
      "set cs - {c} = set (svc_channels v) - {c}" "a \<in> set svs \<longleftrightarrow> c \<in> set cs"
  shows "net_ok (relinked c ch svs a v cs s)"
proof -
  let ?s = "relinked c ch svs a v cs s"
  note P = relinked_proj [OF c a]
  have D: "chtable_ok s" "members_ok s" "services_ok s" "alloc_ok s" using ok by blast+
  note S = services_okD [OF D(3)]
  have cs0: "chan_services s c = Some (services ch)" "service_chans s a = Some (svc_channels v)"
    using chan_projs [OF c] service_chansI [OF a] by auto
  have "services_ok ?s"
    unfolding services_ok_def P
  proof (intro conjI allI impI)
    fix d l assume "((chan_services s)(c \<mapsto> svs)) d = Some l"
    then have l: "if d = c then l = svs else chan_services s d = Some l" by (auto split: if_splits)
    then show "distinct l" using lists(1) D(3) by (auto simp: services_ok_def split: if_splits)
    fix b show "b \<in> set l \<longleftrightarrow> (\<exists>cs'. ((service_chans s)(a \<mapsto> cs)) b = Some cs' \<and> d \<in> set cs')"
    proof (cases "b = a")
      case True
      have "d \<noteq> c \<Longrightarrow> a \<in> set l \<longleftrightarrow> d \<in> set (svc_channels v)" using S(1) [OF _ cs0(2), of d l] l by auto
      then show ?thesis using True lists(4,5) l by (auto split: if_splits)
    next
      case False
      have "b \<in> set l \<longleftrightarrow> b \<in> set (if d = c then services ch else l)" using False lists(3) l by auto
      moreover have "chan_services s d = Some (if d = c then services ch else l)" using l cs0(1) by (auto split: if_splits)
      ultimately show ?thesis using False D(3) unfolding services_ok_def by auto
    qed
  next
    fix b l assume "((service_chans s)(a \<mapsto> cs)) b = Some l"
    then have l: "if b = a then l = cs else service_chans s b = Some l" by (auto split: if_splits)
    then show "distinct l" using lists(2) D(3) by (auto simp: services_ok_def split: if_splits)
    fix d assume "d \<in> set l"
    then have "d = c \<or> (\<exists>l'. service_chans s b = Some l' \<and> d \<in> set l')" using l lists(4) cs0(2) by (auto split: if_splits)
    then show "((chan_services s)(c \<mapsto> svs)) d \<noteq> None" using D(3) unfolding services_ok_def by auto
  qed (use D(3) in \<open>auto simp: services_ok_def\<close>)
  moreover have "chtable_ok ?s" "members_ok ?s" "alloc_ok ?s" "clients_ok ?s"
    using D P chtable_ok_cong [of ?s s] members_ok_cong [of ?s s] alloc_ok_cong [of ?s s] same_clients_ok [OF P(5)] ok
    by (auto simp: net_ok_alt same_clients_def)
  ultimately show ?thesis by (simp add: net_ok_alt chans_ok_def)
qed

lemma upd_services_eq:
  assumes "chans s c = Some ch" "get_service a s = Some v"
  shows "(do { s \<leftarrow> upd_chan c (\<lambda>ch. ch\<lparr>services := f (services ch)\<rparr>) s; upd_service a (\<lambda>sv. sv\<lparr>svc_channels := g (svc_channels sv)\<rparr>) s }) =
    Some (relinked c ch (f (services ch)) a v (g (svc_channels v)) s)"
  using assms by (simp add: relinked_def upd_chan_eq upd_service_eq proj_simps)

lemma get_service_client: "get_service a s = Some v \<Longrightarrow> \<exists>cl. clients s a = Some cl"
  by (cases "clients s a") (auto simp: get_service_def)

lemma same_clients_service: "same_clients s' s \<Longrightarrow> get_service a s = Some v \<Longrightarrow> \<exists>v'. get_service a s' = Some v'"
  by (auto simp: same_clients_def fun_eq_iff kind_def get_service_def map_option_case bind_eq_Some_conv
      dest!: spec [of _ a] split: option.splits)

context env_ok
begin

lemma join_link_runs:
  assumes ok: "net_ok s" and c: "chans s c = Some ch" and a: "get_service a s = Some v" and new: "a \<notin> set (services ch)"
  shows "runs (do {
      s \<leftarrow> upd_chan c (\<lambda>ch. ch\<lparr>services := dlinkAdd (rb_ptrs (lib E)) a (services ch)\<rparr>) s;
      s \<leftarrow> upd_service a (\<lambda>sv. sv\<lparr>svc_channels := dlinkAdd (rb_ptrs (lib E)) c (svc_channels sv)\<rparr>) s;
      ch \<leftarrow> chans s c;
      sv \<leftarrow> clients s a;
      Some (if sent_burst s then send_sjoin E sv ch s else s) })
    (\<lambda>s'. net_ok s' \<and> chan_frame s' s \<and> members s' = members s \<and>
      chans s' c = Some (ch\<lparr>services := dlinkAdd (rb_ptrs (lib E)) a (services ch)\<rparr>))"
proof -
  let ?svs = "dlinkAdd (rb_ptrs (lib E)) a (services ch)" and ?cs = "dlinkAdd (rb_ptrs (lib E)) c (svc_channels v)"
  let ?s = "relinked c ch ?svs a v ?cs s"
  note P = relinked_proj [OF c a, of ?svs ?cs]
  have D: "services_ok s" using ok by blast
  note S = services_okD [OF D conjunct1 [OF conjunct2 [OF chan_projs [OF c]]] service_chansI [OF a]]
  have "c \<notin> set (svc_channels v)" using S(1) new by simp
  then have ok': "net_ok ?s" using S(2,3) new by (intro net_ok_relinked [OF ok c a]) auto
  obtain cl where cl: "clients ?s a = Some cl" using get_service_client [OF a] same_clients_client [OF P(5)] by blast
  have "net_ok t \<and> chan_frame t s \<and> members t = members s \<and> chans t c = Some (ch\<lparr>services := ?svs\<rparr>)" if q: "quiet t ?s" for t
    using ok' P quiet_net_ok [OF q] quiet_fields(2,3) [OF q] chan_frame_trans [OF quiet_chan_frame [OF q]]
    by (simp add: chan_frame_def)
  then show ?thesis
    using P(13) cl a by (simp add: upd_chan_eq [OF c] upd_service_eq [of a _ v] send_sjoin_def flip: relinked_def)
qed

end

lemma chan_in_key: "chans s c = Some ch \<Longrightarrow> chan_key s c = Some (chname ch)"
  by (simp add: chan_key_def)

lemma chan_frame_key: "chan_frame s' s \<Longrightarrow> chans s' c = Some ch' \<Longrightarrow> \<exists>ch. chans s c = Some ch \<and> chname ch = chname ch'"
  by (auto simp: chan_frame_def chan_key_def fun_eq_iff map_option_case dest!: spec [of _ c] split: option.splits)

context env_ok
begin

text \<open>The channel of a name that no channel has.\<close>

lemma open_runs:
  assumes ok: "net_ok s" and nm: "cstring nm" "length nm \<le> CHANNELLEN" "\<And>c ch. chans s c = Some ch \<Longrightarrow> irccmp (chname ch) nm \<noteq> 0"
    and ch: "chname ch = rb_strlcpy (lib E) nm (CHANNELLEN + 1)" "users ch = []" "users_opped ch = []" "users_unopped ch = []" "services ch = []"
  shows "net_ok (opened_channel (lib E) ch s)" "chname ch = nm"
proof -
  show n: "chname ch = nm" using ch(1) nm(2) by (simp add: strlcpy_id)
  show "net_ok (opened_channel (lib E) ch s)"
    using nm ch n by (intro net_ok_opened [OF ok]) (auto simp: chan_key_def)
qed

lemma join_service_runs:
  assumes ok: "net_ok s" and a: "get_service a s = Some v" and nm: "cstring nm" "length nm \<le> CHANNELLEN"
  shows "runs (join_service E a nm ts md override s)
    (\<lambda>s'. net_ok s' \<and> same_clients s' s \<and> members s' = members s \<and>
      (\<exists>c ch. chans s' c = Some ch \<and> irccmp (chname ch) nm = 0 \<and> a \<in> set (services ch)))"
    (is "runs _ ?Q")
proof -
  let ?link = "\<lambda>c s. do {
      s \<leftarrow> upd_chan c (\<lambda>ch. ch\<lparr>services := dlinkAdd (rb_ptrs (lib E)) a (services ch)\<rparr>) s;
      s \<leftarrow> upd_service a (\<lambda>sv. sv\<lparr>svc_channels := dlinkAdd (rb_ptrs (lib E)) c (svc_channels sv)\<rparr>) s;
      ch \<leftarrow> chans s c;
      sv \<leftarrow> clients s a;
      Some (if sent_burst s then send_sjoin E sv ch s else s) }"
  have link: "runs (?link c t) ?Q"
    if t: "net_ok t" "chans t c = Some ch" "irccmp (chname ch) nm = 0" "a \<notin> set (services ch)" "same_clients t s" "members t = members s"
    for c t ch
  proof -
    obtain v' where "get_service a t = Some v'" using same_clients_service [OF t(5) a] by blast
    from join_link_runs [OF t(1,2) this t(4)] show ?thesis
      by (rule runs_mono) (use t same_clients_trans in \<open>auto simp: chan_frame_def intro!: exI [of _ c]\<close>)
  qed
  show ?thesis
    unfolding join_service_def Let_def runs_bind
  proof (rule find_channel_runs [OF ok], goal_cases)
    case c: (1 c ch)
    show ?case
    proof (cases "a \<in> set (services ch)")
      case True
      then show ?thesis using c ok by (auto simp: ptrs.Find_iff)
    next
      case False
      let ?ch = "ch\<lparr>ch_tsinfo := ts, cmode := take_mode (lib E) md (cmode ch)\<rparr>"
      have "runs (?link c (set_chan c ?ch s)) ?Q"
        by (rule link [where ch = ?ch]) (use net_ok_chan_frame [OF ok c(1), of ?ch] c False in \<open>auto simp: chan_frame_def\<close>)
      moreover have "runs (?link c s) ?Q" by (rule link [OF ok c False]) simp_all
      ultimately show ?thesis
        using c False by (simp add: ptrs.Find_iff upd_chan_eq [of s c ch] del: runs_bind)
    qed
  next
    case none: 2
    let ?ch = "(new_channel (rb_strlcpy (lib E) nm (CHANNELLEN + 1)) (if ts \<noteq> 0 then ts else now s))\<lparr>cmode := take_mode (lib E) md no_mode\<rparr>"
    have n: "chname ?ch = nm" using nm(2) by (simp add: new_channel_def strlcpy_id)
    have "net_ok (opened_channel (lib E) ?ch s)"
      by (rule open_runs(1) [OF ok nm none [OF nm(1)]], assumption) (simp_all add: new_channel_def)
    with n have "runs (?link (next_addr s) (opened_channel (lib E) ?ch s)) ?Q"
      by (intro link [where ch = ?ch]) (simp_all add: nm irccmp_0_iff_lower new_channel_def)
    then show ?case
      using open_channel_eq [of "lib E" s ?ch] by (simp add: alloc_channel_def del: runs_bind)
  qed
qed

end

context env_ok
begin

lemma free_channel_runs:
  assumes ok: "net_ok s" and c: "chans s c = Some ch" "users ch = []" "services ch = []"
  shows "runs (free_channel E c s) (\<lambda>s'. net_ok s' \<and> same_clients s' s \<and> members s' = members s \<and> chan_key s' = (chan_key s)(c := None))"
proof -
  have D: "chtable_ok s" "members_ok s" "services_ok s" "alloc_ok s" using ok by blast+
  obtain q where q: "free_channel E c s = Some (freed_channel (lib E) c ch (s\<lparr>sendq := q\<rparr>))"
    by (rule free_channel_eq [OF D(1) c(1)])
  let ?t = "s\<lparr>sendq := q\<rparr>"
  let ?s = "freed_channel (lib E) c ch ?t"
  have t: "net_ok ?t" "chans ?t c = Some ch" using quiet_net_ok [of ?t s] ok c by simp_all
  have "members s m \<noteq> Some mp \<or> chptr mp \<noteq> c" for m mp
    using members_okD(3) [OF D(2), of c] chan_projs [OF c(1)] c(2) by (auto simp: chan_match_def)
  then have "members_ok ?s" using D(2) unfolding members_ok_def by (auto split: if_splits)
  moreover have "chtable_ok ?s" "services_ok ?s"
    using chtable_ok_freed [of ?t c ch] services_ok_freed [of ?t c ch] t c(3) D by simp_all
  moreover have sc: "same_clients ?s s" using same_clients_trans [OF freed_channel_proj(4)] by simp
  moreover have "clients_ok ?s" using same_clients_ok [OF sc] ok by (simp add: net_ok_alt)
  moreover have "alloc_ok ?s" using D(4) sc by (auto simp: alloc_ok_def same_clients_def)
  ultimately have "net_ok ?s" by (simp add: net_ok_alt chans_ok_def)
  then show ?thesis using q sc by simp
qed

lemma part_service_runs:
  assumes ok: "net_ok s" and a: "get_service a s = Some v"
  shows "runs (part_service E a nm s) (\<lambda>(b, s'). net_ok s' \<and> same_clients s' s \<and> members s' = members s \<and>
    (cstring nm \<longrightarrow> (\<forall>c ch. chans s' c = Some ch \<longrightarrow> irccmp (chname ch) nm = 0 \<longrightarrow> a \<notin> set (services ch))))"
    (is "runs _ ?Q")
proof -
  have D: "services_ok s" "chtable_ok s" using ok by blast+
  have uniq: "c' = c" if "chans s c = Some ch" "irccmp (chname ch) nm = 0" "chan_key s c' = Some n" "irccmp n nm = 0" "cstring nm" for c c' ch n
  proof -
    have "cstring n" "cstring (chname ch)" using chtable_okD(5) [OF D(2)] that chan_in_key by blast+
    then have "irccmp n (chname ch) = 0" using that by (simp add: irccmp_0_iff_lower)
    then show ?thesis using chtable_okD(6) [OF D(2)] that chan_in_key by blast
  qed
  show ?thesis
    unfolding part_service_def Let_def runs_bind
  proof (rule find_channel_runs [OF ok], goal_cases)
    case c: (1 c ch)
    let ?svs = "dlinkDelete (rb_ptrs (lib E)) a (services ch)" and ?cs = "dlinkDelete (rb_ptrs (lib E)) c (svc_channels v)"
    let ?s = "relinked c ch ?svs a v ?cs s"
    note P = relinked_proj [OF c(1) a, of ?svs ?cs]
    note S = services_okD [OF D(1) conjunct1 [OF conjunct2 [OF chan_projs [OF c(1)]]] service_chansI [OF a]]
    have ok': "net_ok ?s" using S by (intro net_ok_relinked [OF ok c(1) a]) auto
    obtain cl where cl: "clients ?s a = Some cl" using get_service_client [OF a] same_clients_client [OF P(5)] by blast
    show ?case
    proof (cases "a \<in> set (services ch)")
      case False
      have "a \<notin> set (services ch')" if "cstring nm" "chans s c' = Some ch'" "irccmp (chname ch') nm = 0" for c' ch'
        using uniq [OF c, of c'] that False c(1) chan_in_key by auto
      then show ?thesis using c False ok by (auto simp: ptrs.Find_iff)
    next
      case True
      have fin: "runs (if users (ch\<lparr>services := ?svs\<rparr>) = [] \<and> services (ch\<lparr>services := ?svs\<rparr>) = [] then free_channel E c t else Some t) (\<lambda>s'. ?Q (True, s'))"
        if q: "quiet t ?s" for t
      proof -
        note F = quiet_net_ok [OF q] conjunct1 [OF conjunct2 [OF quiet_chan_frame [OF q, unfolded chan_frame_def]]] quiet_fields [OF q] same_clients_trans [OF quiet_same_clients [OF q] P(5)]
        have t: "net_ok t" "chans t c = Some (ch\<lparr>services := ?svs\<rparr>)" "same_clients t s" "members t = members s"
          "chan_key t = chan_key s"
          using F ok' P by simp_all
        have gone: "a \<notin> set (services ch')"
          if h: "cstring nm" "chans s' c' = Some ch'" "irccmp (chname ch') nm = 0" "chan_key s' = chan_key s" "chans s' c = Some (ch\<lparr>services := ?svs\<rparr>)"
          for s' c' ch'
          using uniq [OF c, of c' "chname ch'"] h S(2) chan_in_key [OF h(2)] by auto
        have no: "\<not> (chans s' c' = Some ch' \<and> irccmp (chname ch') nm = 0)" if h: "cstring nm" "chan_key s' = (chan_key t)(c := None)" for s' c' ch'
          using uniq [OF c, of c' "chname ch'"] h t(5) chan_in_key [of s' c' ch'] by (auto split: if_splits)
        show ?thesis
        proof (cases "users ch = [] \<and> ?svs = []")
          case True
          then show ?thesis using free_channel_runs [OF t(1,2)] t no same_clients_trans by (fastforce elim!: runs_mono)
        next
          case False
          then show ?thesis using t gone by auto
        qed
      qed
      let ?t = "if sent_burst ?s then sendto_server ['':'', SVC_UID cl ?s, '' PART '', chname (ch\<lparr>services := ?svs\<rparr>)] ?s else ?s"
      have "quiet ?t ?s" by simp
      from fin [OF this] show ?thesis
        using True c(1) cl a P(13)
        by (simp add: ptrs.Find_iff upd_chan_eq [OF c(1)] upd_service_eq [of a _ v] flip: relinked_def split del: if_split)
    qed
  next
    case 2
    then show ?case using ok by auto
  qed
qed

end

subsection \<open>Modes and topics\<close>

lemma set_chan_twice [simp]: "set_chan c x (set_chan c y s) = set_chan c x s"
  by (simp add: set_chan_def)

lemma remove_our_simple_modes_runs:
  assumes "net_ok s" "chans s c = Some ch"
  shows "runs (remove_our_simple_modes c None pj s)
    (\<lambda>s'. s' = set_chan c (ch\<lparr>cmode := (cmode ch)\<lparr>mode := 0, key := [], limit := 0\<rparr>\<rparr>) s \<and> net_ok s' \<and> chan_frame s' s)"
  using net_ok_chan_frame [OF assms, of "ch\<lparr>cmode := (cmode ch)\<lparr>mode := 0, key := [], limit := 0\<rparr>\<rparr>"] assms(2)
  by (simp add: remove_our_simple_modes_def upd_chan_eq)

lemma remove_our_bans_runs:
  assumes "net_ok s" "chans s c = Some ch"
  shows "runs (remove_our_bans c None True True True s) (\<lambda>s'. net_ok s' \<and> chan_frame s' s \<and>
    chans s' c = Some (ch\<lparr>bans := [], excepts := [], invites := []\<rparr>))"
  using net_ok_chan_frame [OF assms, of "ch\<lparr>bans := [], excepts := [], invites := []\<rparr>"] assms(2)
  by (simp add: remove_our_bans_def upd_chan_eq [of _ c])

text \<open>\<open>remove_our_ov_modes\<close> clears the flags of every member and moves the opped list.\<close>

definition unmoded :: "addr \<Rightarrow> chmember \<Rightarrow> chmember" where
  "unmoded c mp = (if chptr mp = c then mp\<lparr>mflags := mflags mp AND NOT (MODE_OPPED OR MODE_VOICED)\<rparr> else mp)"

lemma unmoded_simps [simp]: "chptr (unmoded c mp) = chptr mp" "mclient (unmoded c mp) = mclient mp"
  by (simp_all add: unmoded_def)

lemma not_opped_unmoded: "is_opped (unmoded c mp) \<longleftrightarrow> is_opped mp \<and> chptr mp \<noteq> c"
  by (auto simp: unmoded_def is_opped_def and.assoc)

lemma ex_map_option: "(\<exists>y. map_option f x = Some y \<and> P y) \<longleftrightarrow> (\<exists>z. x = Some z \<and> P (f z))"
  by auto

lemma members_ok_remap:
  assumes ok: "members_ok s" and mem: "members s' = (\<lambda>m. map_option f (members s m))"
    and f: "\<And>mp. chptr (f mp) = chptr mp \<and> mclient (f mp) = mclient mp"
    and same: "user_list s' = user_list s" "user_chans s' = user_chans s" "chan_key s' = chan_key s"
    and match: "\<And>c l. chan_lists s' c = Some l \<Longrightarrow> chan_match (members s') c l"
  shows "members_ok s'"
proof -
  have ex: "members s' m = Some mp \<Longrightarrow> \<exists>p. members s m = Some p \<and> chptr p = chptr mp \<and> mclient p = mclient mp" for m mp
    using f by (auto simp: mem)
  have "chan_lists s' c \<noteq> None" if "chan_lists s c \<noteq> None" for c
    using that fun_cong [OF same(3), of c] by (auto simp: chan_key_def chan_lists_def split: option.splits)
  then have "chan_lists s' (chptr mp) \<noteq> None \<and> user_chans s' (mclient mp) \<noteq> None \<and> mclient mp \<in> set (user_list s')"
    if "members s' m = Some mp" for m mp
    using ex [OF that] members_okD(1) [OF ok] same(1,2) by metis
  moreover have "m = m'" if "members s' m = Some mp" "members s' m' = Some mp'" "chptr mp = chptr mp'" "mclient mp = mclient mp'" for m m' mp mp'
    using ex [OF that(1)] ex [OF that(2)] members_okD(2) [OF ok] that(3,4) by metis
  moreover have "user_match (members s') a ms" if "user_chans s' a = Some ms" for a ms
    using that members_okD(4) [OF ok, of a ms] same(2) f
    by (simp add: user_match_def mem ex_map_option del: map_option_eq_Some)
  ultimately show ?thesis using match unfolding members_ok_def by blast
qed

lemma clear_flags_loop:
  assumes "distinct ms" "\<And>m. m \<in> set ms \<Longrightarrow> members s m \<noteq> None"
  shows "foreach (\<lambda>m. upd_member m f) ms s = Some (s\<lparr>members := (\<lambda>m. if m \<in> set ms then map_option f (members s m) else members s m)\<rparr>)"
  using assms
proof (induction ms arbitrary: s)
  case (Cons m ms)
  then obtain mp where mp: "members s m = Some mp" by auto
  let ?s = "s\<lparr>members := (members s)(m \<mapsto> f mp)\<rparr>"
  have "foreach (\<lambda>m. upd_member m f) ms ?s = Some (?s\<lparr>members := (\<lambda>m. if m \<in> set ms then map_option f (members ?s m) else members ?s m)\<rparr>)"
    by (rule Cons.IH) (use Cons.prems in auto)
  moreover have "(\<lambda>x. if x \<in> set ms then map_option f (members ?s x) else members ?s x) =
      (\<lambda>x. if x \<in> set (m # ms) then map_option f (members s x) else members s x)"
    using Cons.prems(1) mp by (auto simp: fun_eq_iff)
  ultimately show ?case using upd_member_eq [OF mp, of f] by (simp add: set_member_def)
qed simp

context rblib_ok
begin

lemma remove_our_ov_modes_runs:
  assumes ok: "net_ok s" and c: "chans s c = Some ch"
  shows "runs (remove_our_ov_modes L c s) (\<lambda>s'. net_ok s' \<and> chan_frame s' s \<and>
    members s' = (\<lambda>m. map_option (unmoded c) (members s m)) \<and>
    (\<exists>l. chans s' c = Some (ch\<lparr>users_unopped := l, users_opped := []\<rparr>)))"
proof -
  let ?f = "\<lambda>mp. mp\<lparr>mflags := mflags mp AND NOT (MODE_OPPED OR MODE_VOICED)\<rparr>"
  let ?M = "\<lambda>m. map_option (unmoded c) (members s m)"
  let ?ch = "ch\<lparr>users_unopped := dlinkMoveList (rb_ptrs L) (users_opped ch) (users_unopped ch), users_opped := []\<rparr>"
  let ?s = "set_chan c ?ch (s\<lparr>members := ?M\<rparr>)"
  have D: "chtable_ok s" "members_ok s" "services_ok s" "alloc_ok s" using ok by blast+
  have match: "chan_match (members s) c (users ch, users_opped ch, users_unopped ch)"
    using members_okD(3) [OF D(2)] chan_projs [OF c] by blast
  then have us: "distinct (users ch)" "\<And>m. m \<in> set (users ch) \<longleftrightarrow> (\<exists>mp. members s m = Some mp \<and> chptr mp = c)"
    by (auto simp: chan_match_def)
  have "foreach (\<lambda>m. upd_member m ?f) (users ch) s =
      Some (s\<lparr>members := (\<lambda>m. if m \<in> set (users ch) then map_option ?f (members s m) else members s m)\<rparr>)"
    by (rule clear_flags_loop) (use us in auto)
  moreover have "(\<lambda>m. if m \<in> set (users ch) then map_option ?f (members s m) else members s m) = ?M"
  proof
    fix m show "(if m \<in> set (users ch) then map_option ?f (members s m) else members s m) = ?M m"
      using us(2) [of m] by (cases "members s m") (auto simp: unmoded_def)
  qed
  ultimately have run: "remove_our_ov_modes L c s = Some ?s"
    using c by (simp add: remove_our_ov_modes_def upd_chan_eq)
  have P: "chan_key ?s = chan_key s" "chan_services ?s = chan_services s" "same_clients ?s s"
    using chan_projs [OF c] by (simp_all add: fun_upd_same same_clients_def)
  have opped: "chan_match ?M c' l" if "chan_match (members s) c' l" "c' \<noteq> c" for c' l
    using that by (cases l) (simp add: chan_match_def ex_map_option not_opped_unmoded del: map_option_eq_Some cong: conj_cong)
  have "chan_match ?M c (users ch, [], users_unopped ?ch)"
    using match by (simp add: chan_match_def ex_map_option not_opped_unmoded ptrs.distinct_MoveList del: map_option_eq_Some cong: conj_cong) (fastforce simp: set_eq_iff)
  then have "chan_match (members ?s) d l" if "chan_lists ?s d = Some l" for d l
    using that opped [of d l] members_okD(3) [OF D(2), of d l] by (auto split: if_splits)
  then have "members_ok ?s"
    by (intro members_ok_remap [OF D(2), of _ "unmoded c"]) (use P(1) in simp_all)
  then have "net_ok ?s"
    using D P ok chtable_ok_cong [of ?s s] services_ok_cong [of ?s s] same_clients_ok [OF P(3)]
    by (auto simp: net_ok_alt chans_ok_def alloc_ok_def same_clients_def)
  then show ?thesis using run P by (auto simp: chan_frame_def dom_def)
qed

end

lemma services_clients:
  assumes "net_ok s" "chans s c = Some ch" "a \<in> set (services ch)"
  shows "\<exists>cl. clients s a = Some cl"
proof -
  have "services_ok s" using assms(1) by blast
  then have "\<exists>cs. service_chans s a = Some cs"
    using chan_projs [OF assms(2)] assms(3) unfolding services_ok_def by blast
  then show ?thesis by (auto simp: service_chans_def dest: get_service_client)
qed

text \<open>The mode and the lists of the channel of a lowered time stamp.\<close>

definition stripped :: "int \<Rightarrow> bool \<Rightarrow> channel \<Rightarrow> channel \<Rightarrow> bool" where
  "stripped newts with_bans ch ch' \<longleftrightarrow> ch_tsinfo ch' = newts \<and> cmode ch' = (cmode ch)\<lparr>mode := 0, key := [], limit := 0\<rparr> \<and>
     users_opped ch' = [] \<and> users ch' = users ch \<and> services ch' = services ch \<and> chname ch' = chname ch \<and>
     (with_bans \<longrightarrow> bans ch' = [] \<and> excepts ch' = [] \<and> invites ch' = [])"

context env_ok
begin

lemma rejoin_loop_runs:
  assumes "net_ok s" "chans s c = Some ch" "set svs \<subseteq> set (services ch)"
  shows "runs (foreach (\<lambda>sv. rejoin_service E sv c reop) svs s) (\<lambda>s'. quiet s' s)"
proof (rule runs_foreach)
  fix sv t assume sv: "sv \<in> set svs" and q: "quiet t s"
  obtain cl where "clients s sv = Some cl" using services_clients [OF assms(1,2)] sv assms(3) by blast
  then have "clients t sv = Some cl" "chans t c = Some ch" using quiet_fields [OF q] assms(2) by auto
  from rejoin_service_runs [OF this] show "runs (rejoin_service E sv c reop t) (\<lambda>s'. quiet s' s)"
    by (rule runs_mono) (use q quiet_trans in blast)
qed simp

lemma lower_ts_runs:
  assumes ok: "net_ok s" and c: "chans s c = Some ch"
  shows "runs (lower_ts E c newts with_bans s) (\<lambda>s'. net_ok s' \<and> chan_frame s' s \<and>
    members s' = (\<lambda>m. map_option (unmoded c) (members s m)) \<and> (\<exists>ch'. chans s' c = Some ch' \<and> stripped newts with_bans ch ch'))"
    (is "runs _ ?Q")
proof -
  let ?M = "\<lambda>m. map_option (unmoded c) (members s m)"
  let ?c1 = "ch\<lparr>ch_tsinfo := newts\<rparr>"
  let ?c2 = "?c1\<lparr>cmode := (cmode ch)\<lparr>mode := 0, key := [], limit := 0\<rparr>\<rparr>"
  let ?R = "\<lambda>wb t. net_ok t \<and> chan_frame t s \<and> members t = ?M \<and> (\<exists>d. chans t c = Some d \<and> stripped newts wb ch d)"
  note S2 = net_ok_chan_frame [OF ok c, of ?c2, simplified]
  have 1: "upd_chan c (\<lambda>ch. ch\<lparr>ch_tsinfo := newts\<rparr>) s = Some (set_chan c ?c1 s)" by (rule upd_chan_eq [OF c])
  have 2: "remove_our_simple_modes c None False (set_chan c ?c1 s) = Some (set_chan c ?c2 s)"
    by (simp add: remove_our_simple_modes_def upd_chan_eq [of _ c])
  have "chans (set_chan c ?c2 s) c = Some ?c2" by simp
  from remove_our_ov_modes_runs [OF S2(1) this] have 3: "runs (remove_our_ov_modes (lib E) c (set_chan c ?c2 s)) (?R False)"
    by (rule runs_mono) (use chan_frame_trans [OF _ S2(2)] in \<open>auto simp: stripped_def\<close>)
  have 4: "runs (if with_bans then remove_our_bans c None True True True t else Some t) (?R with_bans)" if t: "?R False t" for t
  proof (cases with_bans)
    case True
    obtain d where d: "chans t c = Some d" "stripped newts False ch d" using t by blast
    have tn: "net_ok t" using t by blast
    let ?d = "d\<lparr>bans := [], excepts := [], invites := []\<rparr>"
    note F = net_ok_chan_frame [OF tn d(1), of ?d, simplified]
    have "remove_our_bans c None True True True t = Some (set_chan c ?d t)"
      using d(1) by (simp add: remove_our_bans_def upd_chan_eq [of _ c])
    then show ?thesis using True t d F chan_frame_trans [OF F(2)] by (simp add: stripped_def)
  qed (use t in simp)
  have 5: "runs (do { ch \<leftarrow> chans t c; if sent_burst t then foreach (\<lambda>sv. rejoin_service E sv c True) (services ch) t else Some t })
      (?R with_bans)" if t: "?R with_bans t" for t
  proof -
    obtain d where d: "chans t c = Some d" using t by blast
    have "runs (foreach (\<lambda>sv. rejoin_service E sv c True) (services d) t) (?R with_bans)"
      using rejoin_loop_runs [OF conjunct1 [OF t] d order_refl, of True]
    proof (rule runs_mono)
      fix x assume q: "quiet x t"
      then show "?R with_bans x"
        using t quiet_net_ok [OF q] quiet_fields(2,3) [OF q] chan_frame_trans [OF quiet_chan_frame [OF q]] by auto
    qed
    then show ?thesis using t d by simp
  qed
  show ?thesis
    unfolding lower_ts_def 1 2 bind.bind_lunit by (intro runs_seq [OF 3] runs_seq [OF 4] 5)
qed

end

subsection \<open>The join commands\<close>

lemma cstring_arg: "list_all cstring ps \<Longrightarrow> cstring (arg ps i)"
  by (auto simp: arg_def list_all_length)

text \<open>The time stamp rules: which side's modes survive.\<close>

definition ts_keep :: "int \<Rightarrow> int \<Rightarrow> bool \<times> bool" where
  "ts_keep oldts newts = (if newts = 0 \<or> oldts = 0 then (True, True) else (oldts \<le> newts, newts \<le> oldts))"

context env_ok
begin

lemma sjoin_channel_runs:
  assumes ok: "net_ok s" and nm: "cstring nm" "length nm \<le> CHANNELLEN"
  shows "runs (sjoin_channel (lib E) nm newts s) (\<lambda>(c, old, new, s'). net_ok s' \<and> same_clients s' s \<and> members s' = members s \<and>
    (\<exists>ch. chans s' c = Some ch \<and> irccmp (chname ch) nm = 0 \<and>
      (case chans s c of None \<Rightarrow> (old, new) = (False, True) \<and> ch_tsinfo ch = newts
       | Some d \<Rightarrow> (old, new) = ts_keep (ch_tsinfo d) newts)))"
    (is "runs _ ?Q")
  unfolding sjoin_channel_def runs_bind
proof (rule find_channel_runs [OF ok], goal_cases)
  case c: (1 c ch)
  have "?Q (c, True, True, set_chan c (ch\<lparr>ch_tsinfo := 0\<rparr>) s)" if "newts = 0 \<or> ch_tsinfo ch = 0"
    using net_ok_chan_frame [OF ok c(1), of "ch\<lparr>ch_tsinfo := 0\<rparr>"] c that by (auto simp: chan_frame_def ts_keep_def)
  then show ?case using c ok by (auto simp: upd_chan_eq [OF c(1)] ts_keep_def)
next
  case none: 2
  let ?ch = "new_channel (rb_strlcpy (lib E) nm (CHANNELLEN + 1)) newts"
  have n: "chname ?ch = nm" using nm(2) by (simp add: new_channel_def strlcpy_id)
  have "net_ok (opened_channel (lib E) ?ch s)"
    by (rule open_runs(1) [OF ok nm none [OF nm(1)]], assumption) (simp_all add: new_channel_def)
  moreover have "chans s (next_addr s) = None"
    using alloc_okD [of s] ok by (auto simp: net_ok_alt chan_key_def)
  ultimately show ?case
    using n nm open_channel_eq [of "lib E" s ?ch] by (simp add: alloc_channel_def irccmp_0_iff_lower) (simp add: new_channel_def)
qed

lemma add_chmember_runs:
  assumes ok: "net_ok s" and c: "chans s c \<noteq> None" and a: "a \<in> set (user_list s)"
    and new: "\<And>m mp. members s m = Some mp \<Longrightarrow> chptr mp = c \<Longrightarrow> mclient mp \<noteq> a"
  shows "runs (add_chmember (lib E) c a fl s) (\<lambda>(m, s'). net_ok s' \<and> same_clients s' s \<and> chan_key s' = chan_key s \<and>
    members s m = None \<and> members s' = (members s)(m \<mapsto> \<lparr>chptr = c, mclient = a, mflags = fl\<rparr>))"
proof -
  have D: "links_ok s" "alloc_ok s" using ok by blast+
  obtain ch where ch: "chans s c = Some ch" using c by blast
  obtain u where u: "get_user a s = Some u"
    using links_ok_kind(1) [OF D(1) a] by (auto simp: kind_def get_user_def split: option.splits)
  show ?thesis
    using add_chmember_ok [OF ok ch a u new] add_chmember_eq [OF ch u] added_member_proj [OF ch u] alloc_okD [OF D(2)] by simp
qed

end

lemma chan_key_None: "chan_key s c = None \<longleftrightarrow> chans s c = None"
  by (simp add: chan_key_def)

text \<open>What the nick list of an SJOIN leaves: the old members as they were, and new ones of this channel, which
  the list of the joined has.\<close>

definition sjoined :: "addr \<Rightarrow> bool \<Rightarrow> net \<Rightarrow> addr list \<Rightarrow> net \<Rightarrow> bool" where
  "sjoined c keep s l s' \<longleftrightarrow> net_ok s' \<and> same_clients s' s \<and> chan_key s' = chan_key s \<and>
     (\<forall>m mp. members s m = Some mp \<longrightarrow> members s' m = Some mp) \<and> (\<forall>m \<in> set l. members s' m \<noteq> None) \<and>
     (\<forall>m mp. members s' m = Some mp \<longrightarrow> members s m = Some mp \<or> chptr mp = c \<and> m \<in> set l \<and> (\<exists>fl. mflags mp = sjoin_flags keep fl))"

lemma sjoinedD:
  assumes "sjoined c keep s l s'"
  shows "net_ok s'" "same_clients s' s" "chan_key s' = chan_key s" "members s m = Some mp \<Longrightarrow> members s' m = Some mp"
    "m \<in> set l \<Longrightarrow> members s' m \<noteq> None"
    "members s' m = Some mp \<Longrightarrow> members s m = Some mp \<or> chptr mp = c \<and> m \<in> set l \<and> (\<exists>fl. mflags mp = sjoin_flags keep fl)"
  using assms unfolding sjoined_def by blast+

lemma sjoined_step:
  assumes t: "same_clients t s" "chan_key t = chan_key s" "members s m = None"
      "members t = (members s)(m \<mapsto> \<lparr>chptr = c, mclient = a, mflags = sjoin_flags keep fl\<rparr>)"
    and l: "sjoined c keep t l s'" "m \<in> set l"
  shows "sjoined c keep s l s'"
proof -
  note D = sjoinedD [OF l(1)]
  have "members s' x = Some p" if "members s x = Some p" for x p
    using D(4) [of x p] that t(3,4) by (cases "x = m") auto
  moreover have "members s x = Some p \<or> chptr p = c \<and> x \<in> set l \<and> (\<exists>fl. mflags p = sjoin_flags keep fl)"
    if "members s' x = Some p" for x p
    using D(6) [OF that] t(4) l(2) by (auto split: if_splits)
  ultimately show ?thesis
    using D(1-3,5) t(1,2) same_clients_trans [OF D(2) t(1)] unfolding sjoined_def by metis
qed

definition in_chan :: "net \<Rightarrow> addr \<Rightarrow> addr \<Rightarrow> bool" where
  "in_chan s c a \<longleftrightarrow> (\<exists>m mp. members s m = Some mp \<and> chptr mp = c \<and> mclient mp = a)"

lemma sjoined_in_chan: "sjoined c keep s l s' \<Longrightarrow> in_chan s c a \<Longrightarrow> in_chan s' c a"
  unfolding in_chan_def using sjoinedD(4) by blast

lemma same_clients_tables: "same_clients t s \<Longrightarrow> tables_ok s \<Longrightarrow> tables_ok t"
  using tables_ok_cong [of t s] by (simp add: same_clients_def)

lemma same_clients_find:
  assumes "same_clients t s" "tables_ok s"
  shows "find_client nm t = find_client nm s" "find_named_client nm t = find_named_client nm s"
proof -
  have t: "tables_ok t" by (rule same_clients_tables [OF assms])
  have "client_name t = client_name s" "client_uid t = client_uid s" "name_table t = name_table s" "uid_table t = uid_table s"
    using assms(1) by (auto simp: same_clients_def client_name_def client_uid_def fun_eq_iff)
  then show "find_client nm t = find_client nm s" "find_named_client nm t = find_named_client nm s"
    by (simp_all only: find_client_eq [OF assms(2)] find_client_eq [OF t] find_named_client_eq [OF assms(2)] find_named_client_eq [OF t])
qed

lemma keep_if_user: "keep_if (\<lambda>c. user c \<noteq> None) r s =
    (case r of None \<Rightarrow> Some None | Some a \<Rightarrow> map_option (\<lambda>(u, v, w). if u then Some a else None) (kind s a))"
  by (auto simp: keep_if_def kind_def map_option_case bind_eq_Some_conv split: option.splits)

lemma same_clients_find_user:
  assumes "same_clients t s" "tables_ok s"
  shows "find_user nm b t = find_user nm b s"
proof -
  have "kind t = kind s" using assms(1) by (simp add: same_clients_def)
  then show ?thesis by (simp only: find_user_def keep_if_user same_clients_find [OF assms])
qed

context env_ok
begin

lemma sjoin_members_runs:
  assumes "net_ok s" "chans s c \<noteq> None" "\<And>m. m \<in> set joined \<Longrightarrow> members s m \<noteq> None"
  shows "runs (sjoin_members (lib E) c keep toks joined s) (\<lambda>(l, s'). sjoined c keep s l s' \<and> set joined \<subseteq> set l \<and>
    (\<forall>tok \<in> set toks. \<forall>a. find_user (snd (sjoin_prefix tok)) True s = Some (Some a) \<longrightarrow> in_chan s' c a))"
    (is "runs _ (?Q s joined toks)")
  using assms
proof (induction toks arbitrary: s joined)
  case (Cons tok toks)
  obtain fl nick where tok: "sjoin_prefix tok = (fl, nick)" by fastforce
  have tab: "tables_ok s" using Cons.prems(1) by blast
  have skip: "runs (sjoin_members (lib E) c keep toks joined s) (?Q s joined (tok # toks))"
    if "\<And>a. find_user nick True s = Some (Some a) \<Longrightarrow> in_chan s c a"
    by (rule runs_mono [OF Cons.IH [OF Cons.prems]]) (use that tok sjoined_in_chan in auto)
  have add: "runs (do { (mptr, s) \<leftarrow> add_chmember (lib E) c a (sjoin_flags keep fl) s;
        sjoin_members (lib E) c keep toks (dlinkAdd (rb_ptrs (lib E)) mptr joined) s }) (?Q s joined (tok # toks))"
    if a: "a \<in> set (user_list s)" "\<And>m mp. members s m = Some mp \<Longrightarrow> chptr mp = c \<Longrightarrow> mclient mp \<noteq> a" "find_user nick True s = Some (Some a)" for a
  proof (rule runs_seq [OF add_chmember_runs [OF Cons.prems(1,2) a(1,2)]], assumption)
    fix x assume x: "case x of (m, t) \<Rightarrow> net_ok t \<and> same_clients t s \<and> chan_key t = chan_key s \<and> members s m = None \<and>
      members t = (members s)(m \<mapsto> \<lparr>chptr = c, mclient = a, mflags = sjoin_flags keep fl\<rparr>)"
    obtain m t where mt: "x = (m, t)" by fastforce
    have t: "net_ok t" "same_clients t s" "chan_key t = chan_key s" "members s m = None"
      "members t = (members s)(m \<mapsto> \<lparr>chptr = c, mclient = a, mflags = sjoin_flags keep fl\<rparr>)" using x mt by auto
    have "chans t c \<noteq> None" using Cons.prems(2) t(3) chan_key_None by metis
    then have "runs (sjoin_members (lib E) c keep toks (dlinkAdd (rb_ptrs (lib E)) m joined) t) (?Q t (dlinkAdd (rb_ptrs (lib E)) m joined) toks)"
      by (rule Cons.IH [OF t(1)]) (use Cons.prems(3) t in auto)
    moreover have "in_chan t c a" using t(5) by (auto simp: in_chan_def)
    ultimately show "runs (case x of (mptr, s) \<Rightarrow> sjoin_members (lib E) c keep toks (dlinkAdd (rb_ptrs (lib E)) mptr joined) s) (?Q s joined (tok # toks))"
      unfolding mt case_prod_conv
      by (elim runs_mono) (use sjoined_step [OF t(2-5)] sjoined_in_chan same_clients_find_user [OF t(2) tab] a(3) tok in auto)
  qed
  have "runs (find_chmember c a s) (\<lambda>m. runs (case m of Some mptr \<Rightarrow> sjoin_members (lib E) c keep toks joined s
      | None \<Rightarrow> do { (mptr, s) \<leftarrow> add_chmember (lib E) c a (sjoin_flags keep fl) s;
        sjoin_members (lib E) c keep toks (dlinkAdd (rb_ptrs (lib E)) mptr joined) s }) (?Q s joined (tok # toks)))"
    if f: "a \<in> set (user_list s)" "get_user a s = Some u" "find_user nick True s = Some (Some a)" for a u
  proof (rule find_chmember_runs [OF Cons.prems(1,2)], goal_cases)
    case (2 m mp)
    then show ?case using skip f(3) by (auto simp: in_chan_def)
  next
    case 3
    then show ?case using add [OF f(1) _ f(3)] by (simp del: runs_bind)
  qed (use f in simp)
  then show ?case
    unfolding sjoin_members.simps tok Let_def case_prod_conv
    by (intro find_user_seq [OF Cons.prems(1)]) (use skip in simp_all)
qed (simp add: sjoined_def)

end

lemma same_clients_now: "same_clients s' s \<Longrightarrow> hashed s a \<Longrightarrow> \<exists>cl. clients s' a = Some cl"
  using same_clients_hashed hashed_client by blast

lemma user_in_list:
  assumes "net_ok s" "hashed s a" "clients s a = Some cl" "user cl \<noteq> None"
  shows "a \<in> set (user_list s)"
proof -
  have D: "listed_ok s" "links_ok s" using assms(1) by blast+
  have "kind s a \<noteq> Some (False, x, y)" for x y using assms(3,4) by (auto simp: kind_def)
  then have "a \<notin> set (server_list s)" "a \<notin> set (service_list s)"
    using D(1) links_ok_kind(2) [OF D(2)] by (auto simp: listed_ok_def)
  then show ?thesis using assms(2) D(1) by (auto simp: listed_ok_def)
qed

context env_active
begin

text \<open>A write to a channel that leaves its lists alone, and then the functions of an event.\<close>

lemma upd_hook_runs:
  assumes "net_ok s" "chans s c = Some ch" "h \<in> set chan_hooks"
    "\<And>ch. chname (f ch) = chname ch \<and> users (f ch) = users ch \<and> users_opped (f ch) = users_opped ch \<and>
      users_unopped (f ch) = users_unopped ch \<and> services (f ch) = services ch"
  shows "runs (do { s \<leftarrow> upd_chan c f s; hook_do E h (ArgChannel c) b s }) (\<lambda>s'. net_ok s' \<and> same_clients s' s)"
proof -
  note F = net_ok_chan_frame [OF assms(1,2), of "f ch"]
  have "runs (hook_do E h (ArgChannel c) b (set_chan c (f ch) s)) (\<lambda>s'. net_ok s' \<and> same_clients s' s)"
    using hook_do_chan [OF assms(3), of "set_chan c (f ch) s" c "f ch" b] F assms(4) same_clients_trans
    by (fastforce simp: chan_frame_def elim: runs_mono)
  then show ?thesis by (simp add: upd_chan_eq [OF assms(2)])
qed

lemma topic_hook_runs:
  assumes "net_ok s" "chans s c = Some ch"
    "\<And>ch. chname (f ch) = chname ch \<and> users (f ch) = users ch \<and> users_opped (f ch) = users_opped ch \<and>
      users_unopped (f ch) = users_unopped ch \<and> services (f ch) = services ch"
  shows "runs (upd_chan c f s) (\<lambda>t. runs (hook_do E HOOK_CHANNEL_TOPIC (ArgChannel c) ArgNull t) (\<lambda>s'. net_ok s' \<and> same_clients s' s))"
  using upd_hook_runs [OF assms(1,2) _ assms(3), of HOOK_CHANNEL_TOPIC ArgNull] by (simp add: chan_hooks_def)

lemma c_topic_runs:
  assumes ok: "net_ok s" and a: "hashed s a"
  shows "runs (c_topic E a ps s) (\<lambda>s'. net_ok s' \<and> same_clients s' s)"
proof -
  obtain cl where cl: "clients s a = Some cl" using hashed_client [OF a] by blast
  show ?thesis using ok cl unfolding c_topic_def by (auto simp: Let_def intro!: find_channel_runs topic_hook_runs)
qed

lemma c_tb_runs:
  assumes ok: "net_ok s" and a: "hashed s a"
  shows "runs (c_tb E a ps s) (\<lambda>s'. net_ok s' \<and> same_clients s' s)"
proof -
  obtain cl where cl: "clients s a = Some cl" using hashed_client [OF a] by blast
  show ?thesis using ok cl unfolding c_tb_def by (auto simp: Let_def intro!: find_channel_runs topic_hook_runs)
qed

lemma valid_chname_length: "valid_chname nm \<Longrightarrow> length nm \<le> CHANNELLEN"
  by (auto simp: valid_chname_def split: if_splits)

text \<open>The lowering of the time stamp, the merge of the modes and the functions of the event.\<close>

lemma sjoin_modes_runs:
  assumes ok: "net_ok s" and c: "chans s c \<noteq> None"
  shows "runs (sjoin_modes E c newts wb old merge s) (\<lambda>s'. net_ok s' \<and> chan_frame s' s)"
proof -
  have ex: "\<exists>ch. chans t c = Some ch" if "net_ok t \<and> chan_frame t s" for t using that c chan_frame_chans by blast
  have 1: "runs (if \<not> old then lower_ts E c newts wb s else Some s) (\<lambda>t. net_ok t \<and> chan_frame t s)"
  proof -
    obtain ch where "chans s c = Some ch" using c by blast
    from lower_ts_runs [OF ok this, of newts wb] have "runs (lower_ts E c newts wb s) (\<lambda>t. net_ok t \<and> chan_frame t s)"
      by (rule runs_mono) simp
    then show ?thesis using ok by simp
  qed
  have 2: "runs (case merge of Some newmode \<Rightarrow> upd_chan c (\<lambda>ch. ch\<lparr>cmode := merge_mode (lib E) newmode (cmode ch)\<rparr>) t | None \<Rightarrow> Some t)
      (\<lambda>t. net_ok t \<and> chan_frame t s)" if t: "net_ok t \<and> chan_frame t s" for t
  proof (cases merge)
    case (Some newmode)
    obtain ch where ch: "chans t c = Some ch" using ex [OF t] by blast
    then show ?thesis
      using t Some net_ok_chan_frame [OF conjunct1 [OF t] ch, of "ch\<lparr>cmode := merge_mode (lib E) newmode (cmode ch)\<rparr>"] chan_frame_trans
      by (auto simp: upd_chan_eq [OF ch])
  qed (use t in simp)
  have 3: "runs (if \<not> old then hook_do E HOOK_CHANNEL_SJOIN_LOWERTS (ArgChannel c) ArgNull t else Some t) (\<lambda>t. net_ok t \<and> chan_frame t s)"
    if t: "net_ok t \<and> chan_frame t s" for t
  proof -
    obtain ch where ch: "chans t c = Some ch" using ex [OF t] by blast
    have "runs (hook_do E HOOK_CHANNEL_SJOIN_LOWERTS (ArgChannel c) ArgNull t) (\<lambda>t. net_ok t \<and> chan_frame t s)"
      by (rule runs_mono [OF hook_do_chan [OF _ conjunct1 [OF t] ch]]) (use t chan_frame_trans in \<open>auto simp: chan_hooks_def\<close>)
    then show ?thesis using t by simp
  qed
  show ?thesis unfolding sjoin_modes_def by (intro runs_seq [OF 1] runs_seq [OF 2] 3)
qed

lemma join_hook_runs:
  assumes "net_ok s" "chans s c \<noteq> None" "same_clients s s0"
  shows "runs (hook_do E HOOK_CHANNEL_JOIN (ArgChannel c) b s) (\<lambda>s'. net_ok s' \<and> same_clients s' s0)"
proof -
  obtain ch where ch: "chans s c = Some ch" using assms(2) by blast
  show ?thesis
    by (rule runs_mono [OF hook_do_chan [OF _ assms(1) ch]]) (use assms(3) same_clients_trans in \<open>auto simp: chan_hooks_def\<close>)
qed

lemma sjoin_nicklist_runs:
  assumes u: "net_ok u" "chans u c \<noteq> None" "same_clients u s"
  shows "runs (sjoin_nicklist E c keep nicks u) (\<lambda>s'. net_ok s' \<and> same_clients s' s)" (is "runs _ ?Q")
proof -
  have "runs (case y of (joined, s) \<Rightarrow> do { ch \<leftarrow> chans s c;
      if users ch = [] \<and> services ch = [] then free_channel E c s
      else hook_do E HOOK_CHANNEL_JOIN (ArgChannel c) (ArgMembers joined) s }) ?Q"
    if y: "case y of (l, s') \<Rightarrow> sjoined c keep u l s' \<and> set [] \<subseteq> set l \<and>
      (\<forall>tok \<in> set (sjoin_nicks nicks). \<forall>a. find_user (snd (sjoin_prefix tok)) True u = Some (Some a) \<longrightarrow> in_chan s' c a)" for y
  proof -
    obtain l w where lw: "y = (l, w)" by fastforce
    then have j: "sjoined c keep u l w" using y by simp
    have w: "net_ok w" "same_clients w s" "chans w c \<noteq> None"
      using sjoinedD(1-3) [OF j] u same_clients_trans chan_key_None [of w c] chan_key_None [of u c] by auto
    then obtain ch where ch: "chans w c = Some ch" by blast
    have "runs (free_channel E c w) ?Q" if "users ch = []" "services ch = []"
      by (rule runs_mono [OF free_channel_runs [OF w(1) ch that]]) (use same_clients_trans [OF _ w(2)] in auto)
    then show ?thesis using lw ch join_hook_runs [OF w(1,3,2)] by simp
  qed
  from runs_seq [OF sjoin_members_runs [of u c "[]" keep "sjoin_nicks nicks", OF u(1,2)], OF _ this] show ?thesis
    using u by (simp add: sjoin_nicklist_def)
qed

lemma c_sjoin_runs:
  assumes ok: "net_ok s" and a: "hashed s a" and ps: "list_all cstring ps"
  shows "runs (c_sjoin E a ps s) (\<lambda>s'. net_ok s' \<and> same_clients s' s)" (is "runs _ ?Q")
proof (cases "length ps < 4 \<or> EmptyString (arg ps 3) \<or> \<not> valid_chname (arg ps 1)")
  case False
  then have nm: "cstring (arg ps 1)" "length (arg ps 1) \<le> CHANNELLEN"
    using cstring_arg [OF ps, of 1] valid_chname_length by blast+
  have rest: "runs (sjoin_modes E c newts wb old merge t) (\<lambda>u. runs (sjoin_nicklist E c new nicks u) ?Q)"
    if t: "net_ok t" "same_clients t s" "chans t c = Some ch" for t c ch newts wb old merge new nicks
  proof (rule runs_mono [OF sjoin_modes_runs [OF t(1)]])
    fix u assume u: "net_ok u \<and> chan_frame u t"
    show "runs (sjoin_nicklist E c new nicks u) ?Q"
      by (rule sjoin_nicklist_runs)
        (use u t chan_frame_chans [of u t c ch] same_clients_trans in \<open>auto simp: chan_frame_def\<close>)
  qed (use t in simp)
  obtain args newmode where md: "(if arg ps 2 \<noteq> ''0'' then parse_simple_mode (lib E) no_mode ps (length ps) 2 True else (3, no_mode)) = (args, newmode)"
    by fastforce
  have run: "c_sjoin E a ps s = do { (c, old, new, t) \<leftarrow> sjoin_channel (lib E) (arg ps 1) (atol (arg ps 0)) s;
      if args = 0 then Some t else do {
        cl \<leftarrow> clients t a;
        s \<leftarrow> sjoin_modes E c (atol (arg ps 0)) (\<not> EmptyString (uid cl)) old (if new then Some newmode else None) t;
        sjoin_nicklist E c new (arg ps args) s } }"
    using False md by (simp add: c_sjoin_def Let_def)
  show ?thesis
    unfolding run
  proof (rule runs_seq [OF sjoin_channel_runs [OF ok nm]], goal_cases)
    case (1 x)
    obtain c old new t where x: "x = (c, old, new, t)" by (metis prod_cases4)
    then obtain ch where t: "net_ok t" "same_clients t s" "chans t c = Some ch" using 1 by auto
    obtain cl where "clients t a = Some cl" using same_clients_now [OF t(2) a] by blast
    then show ?case using t rest [OF t] x by simp
  qed
qed (use ok in \<open>auto simp: c_sjoin_def\<close>)

lemma join_member_runs:
  assumes u: "net_ok u" "chans u c \<noteq> None" "same_clients u s" and a: "a \<in> set (user_list s)"
  shows "runs (join_member E c a u) (\<lambda>s'. net_ok s' \<and> same_clients s' s)" (is "runs _ ?Q")
proof -
  have D: "links_ok u" "a \<in> set (user_list u)" using u(1,3) a by (auto simp: same_clients_def)
  have au: "get_user a u \<noteq> None" using links_ok_kind(1) [OF D] by (auto simp: kind_def get_user_def split: option.splits)
  have add: "runs (add_chmember (lib E) c a 0 u) (\<lambda>(m, t). runs (hook_do E HOOK_CHANNEL_JOIN (ArgChannel c) (b m) t) ?Q)"
    if new: "\<And>m mp. members u m = Some mp \<Longrightarrow> chptr mp = c \<Longrightarrow> mclient mp \<noteq> a" for b
  proof (rule runs_mono [OF add_chmember_runs [OF u(1,2) D(2) new]], assumption, assumption, goal_cases)
    case (1 x)
    obtain m t where x: "x = (m, t)" by fastforce
    then have t: "net_ok t" "same_clients t s" "chans t c \<noteq> None"
      using 1 u same_clients_trans chan_key_None [of t c] chan_key_None [of u c] by auto
    from join_hook_runs [OF t(1,3,2)] show ?case using x by simp
  qed
  show ?thesis
    unfolding join_member_def runs_bind
  proof (rule find_chmember_runs [OF u(1,2) au], goal_cases)
    case (1 m mp)
    then show ?case using join_hook_runs [OF u] by simp
  next
    case 2
    have "runs (add_chmember (lib E) c a 0 u)
        (\<lambda>(m, t). runs (hook_do E HOOK_CHANNEL_JOIN (ArgChannel c) (ArgMembers (dlinkAdd (rb_ptrs (lib E)) m [])) t) ?Q)"
      by (rule add) (rule 2)
    then show ?case by (simp add: case_prod_unfold)
  qed
qed

lemma leave_all_runs:
  assumes "net_ok s" "distinct ms" "\<And>m. m \<in> set ms \<Longrightarrow> members s m \<noteq> None"
  shows "runs (foreach (del_chmember E) ms s) (\<lambda>s'. net_ok s' \<and> same_clients s' s \<and> members s' = (\<lambda>m. if m \<in> set ms then None else members s m))"
  using assms
proof (induction ms arbitrary: s)
  case (Cons m ms)
  then obtain mp where mp: "members s m = Some mp" by auto
  show ?case
    unfolding foreach.simps
  proof (rule runs_seq [OF del_chmember_runs [OF Cons.prems(1) mp]], goal_cases)
    case (1 t)
    have "runs (foreach (del_chmember E) ms t) (\<lambda>s'. net_ok s' \<and> same_clients s' t \<and> members s' = (\<lambda>m. if m \<in> set ms then None else members t m))"
      by (rule Cons.IH) (use 1 Cons.prems in auto)
    then show ?case by (rule runs_mono) (use 1 same_clients_trans in \<open>auto simp: fun_eq_iff\<close>)
  qed
qed simp

lemma c_join_runs:
  assumes ok: "net_ok s" and a: "hashed s a" and ps: "list_all cstring ps"
  shows "runs (c_join E a ps s) (\<lambda>s'. net_ok s' \<and> same_clients s' s)" (is "runs _ ?Q")
proof -
  obtain cl where cl: "clients s a = Some cl" using hashed_client [OF a] by blast
  obtain args newmode where md: "parse_simple_mode (lib E) no_mode ps (length ps) 2 True = (args, newmode)" by fastforce
  have zero: "runs (foreach (del_chmember E) (channels u) s) ?Q" if "user cl = Some u" for u
  proof -
    have "members_ok s" using ok by blast
    from members_okD(4) [OF this, of a "channels u"] have "user_match (members s) a (channels u)"
      using cl that by (simp add: user_chans_def get_user_def)
    then show ?thesis
      by (intro runs_mono [OF leave_all_runs [OF ok]]) (auto simp: user_match_def)
  qed
  have join: "runs (do { (c, old, new, t) \<leftarrow> sjoin_channel (lib E) (arg ps 1) newts s;
      if args = 0 then Some t else do { s \<leftarrow> sjoin_modes E c newts False old None t; join_member E c a s } }) ?Q"
    if v: "valid_chname (arg ps 1)" "user cl \<noteq> None" for newts
  proof (rule runs_seq [OF sjoin_channel_runs [OF ok cstring_arg [OF ps] valid_chname_length [OF v(1)]]], goal_cases)
    case (1 x)
    obtain c old new t where x: "x = (c, old, new, t)" by (metis prod_cases4)
    then obtain ch where t: "net_ok t" "same_clients t s" "chans t c = Some ch" using 1 by auto
    have "runs (sjoin_modes E c newts False old None t) (\<lambda>u. runs (join_member E c a u) ?Q)"
    proof (rule runs_mono [OF sjoin_modes_runs [OF t(1)]])
      fix u assume u: "net_ok u \<and> chan_frame u t"
      show "runs (join_member E c a u) ?Q"
        by (rule join_member_runs)
          (use u t chan_frame_chans [of u t c ch] same_clients_trans user_in_list [OF ok a cl v(2)] in \<open>auto simp: chan_frame_def\<close>)
    qed (use t in simp)
    then show ?case using t x by simp
  qed
  show ?thesis
    using cl md ok zero join [of "atol (arg ps 0)"] by (auto simp: c_join_def Let_def simp del: runs_bind split: option.splits)
qed

end

lemma distinct_only: "distinct xs \<Longrightarrow> m \<in> set xs \<Longrightarrow> set xs - {m} = {} \<longleftrightarrow> xs = [m]"
  by (cases xs) (auto simp: subset_singleton_iff)

context env_ok
begin

text \<open>When the removal of a member frees the channel.\<close>

lemma del_chmember_frees:
  assumes ok: "net_ok s" and m: "members s m = Some mp" and ch: "chans s (chptr mp) = Some ch" and run: "del_chmember E m s = Some s'"
  shows "chans s' (chptr mp) = None \<longleftrightarrow> users ch = [m] \<and> services ch = []"
proof -
  have D: "members_ok s" "chtable_ok s" using ok by blast+
  obtain u where u: "get_user (mclient mp) s = Some u" using members_user [OF D(1) m] by metis
  let ?c = "chptr mp" and ?u = "unlisted_member (lib E) m mp ch u s"
  note P = unlisted_member_proj [OF ch u, where L = "lib E" and m = m]
  obtain q where q: "del_chmember E m s = do { let s = ?u\<lparr>sendq := q\<rparr>; ch \<leftarrow> chans s ?c;
      s \<leftarrow> (if users ch = [] \<and> services ch = [] then free_channel E ?c s else Some s);
      Some (s\<lparr>members := (members s)(m := None)\<rparr>) }"
    by (rule del_chmember_eq [OF D(1) m ch u])
  obtain ch' where ch': "chans ?u ?c = Some ch'" "services ch' = services ch" "users ch' = dlinkDelete (rb_ptrs (lib E)) m (users ch)"
    using P(11) by blast
  have "m \<in> set (users ch)" "distinct (users ch)"
    using members_okE [OF D(1) m] chan_projs [OF ch] by (metis Pair_inject option.inject)+
  then have us: "users ch' = [] \<longleftrightarrow> users ch = [m]"
    using del_lists_facts(1) [OF D(1) m ch u] ch'(3) distinct_only by (metis set_empty)
  have "chtable_ok (?u\<lparr>sendq := q\<rparr>)" using D(2) chtable_ok_cong [OF P(2,5,6)] by simp
  then have "chans t ?c = None" if "free_channel E ?c (?u\<lparr>sendq := q\<rparr>) = Some t" for t
    using that free_channel_eq [of "?u\<lparr>sendq := q\<rparr>" ?c ch'] ch'(1) by (fastforce simp: freed_channel_def)
  then show ?thesis
    using run q ch' us by (auto simp: Let_def bind_eq_Some_conv split: if_splits)
qed

end

lemma flag_swap:
  fixes f a b :: u32
  assumes "f AND a = 0" "a AND b = 0"
  shows "((f AND NOT b) OR a) AND NOT a = f AND NOT b" "((f AND NOT b) OR a) AND b = 0"
proof -
  have "\<not> (bit f n \<and> bit a n)" "\<not> (bit a n \<and> bit b n)" for n
    using assms by (metis bit_and_iff bit_0_eq bot_apply bot_bool_def)+
  then show "((f AND NOT b) OR a) AND NOT a = f AND NOT b" "((f AND NOT b) OR a) AND b = 0"
    by (auto intro!: bit_word_eqI simp: bit_simps)
qed

lemma net_ok_same_chans:
  assumes "net_ok s" "chans_ok t" "same_clients t s" "chan_key t = chan_key s" "next_addr t = next_addr s" "dom (members t) = dom (members s)"
  shows "net_ok t"
proof -
  have "members t x = None" if "members s x = None" for x using assms(6) that by (metis domIff)
  then have "alloc_ok t" using assms unfolding net_ok_alt alloc_ok_def same_clients_def by metis
  then show ?thesis using assms(1-3) same_clients_ok [OF assms(3)] by (simp add: net_ok_alt)
qed

subsection \<open>Properties\<close>

text \<open>
  \<open>find_chmember\<close> searches the shorter of the list of the channel's users and the list of the
  user's channels, and in a well-formed state finds the same in both: it returns, and what it returns
  is the membership of the user in the channel, or NULL when the user is not in it.
\<close>

theorem find_chmember_correct:
  assumes "net_ok s" and "chans s c = Some ch" and "get_user a s = Some u"
  shows "\<exists>r. find_chmember c a s = Some r \<and>
    (\<forall>m. r = Some m \<longleftrightarrow> (\<exists>mp. members s m = Some mp \<and> chptr mp = c \<and> mclient mp = a))"
proof -
  have "members_ok s" using assms(1) by blast
  then show ?thesis by (rule find_chmember_total [OF _ assms(2,3)]) blast
qed

theorem find_chmember_correct_witness: "find_chmember 3 1 sample_net = Some (Some 4)"
proof -
  have "get_user 1 sample_net = Some sample_user" by (simp add: get_user_def sample_clients_def)
  then obtain r where "find_chmember 3 1 sample_net = Some r"
    "\<forall>m. r = Some m \<longleftrightarrow> (\<exists>mp. members sample_net m = Some mp \<and> chptr mp = 3 \<and> mclient mp = 1)"
    using find_chmember_correct [OF sample_net_ok, of 3 sample_channel 1 sample_user] by auto
  then show ?thesis by (simp add: spec [of _ 4])
qed

text \<open>
  C9. \<open>del_chmember\<close> on a well-formed state returns and leaves a well-formed state in which exactly that
  membership is gone. The channel is freed when, and only when, this was its last user and no service
  is in it; every other channel and every client stay as they were.
\<close>

theorem del_chmember_correct:
  assumes "env_ok E" and "net_ok s" and "members s m = Some mp" and "chans s (chptr mp) = Some ch"
  shows "\<exists>s'. del_chmember E m s = Some s' \<and> net_ok s' \<and> same_clients s' s \<and> members s' = (members s)(m := None) \<and>
    (chans s' (chptr mp) = None \<longleftrightarrow> users ch = [m] \<and> services ch = []) \<and>
    (\<forall>c. c \<noteq> chptr mp \<longrightarrow> chan_key s' c = chan_key s c)"
proof -
  have ok: "chans_ok s" using assms(2) by (simp add: net_ok_alt)
  obtain s' where s': "del_chmember E m s = Some s'" "net_ok s'" "same_clients s' s" "members s' = (members s)(m := None)"
    using env_ok.del_chmember_runs [OF assms(1-3)] by (auto simp: runs_def)
  moreover have "chan_key s' c = chan_key s c" if "c \<noteq> chptr mp" for c
  proof (rule env_ok.del_chmember_ok [OF assms(1) ok assms(3)])
    fix t assume t: "del_chmember E m s = Some t" "\<And>c. chan_key t c = chan_key s c \<or> chan_key t c = None"
      "\<And>c. chan_key t c = None \<Longrightarrow> chan_key s c \<noteq> None \<Longrightarrow> c = chptr mp \<and> (\<forall>x p. members t x = Some p \<longrightarrow> chptr p \<noteq> c)"
    then show ?thesis using s'(1) that by (metis option.inject)
  qed
  moreover have "chans s' (chptr mp) = None \<longleftrightarrow> users ch = [m] \<and> services ch = []"
    by (rule env_ok.del_chmember_frees [OF assms s'(1)])
  ultimately show ?thesis by (intro exI [of _ s']) simp
qed

theorem del_chmember_correct_witness:
  "\<exists>s'. del_chmember sample_env 4 sample_net = Some s' \<and> net_ok s' \<and> members s' = Map.empty \<and> chans s' 3 = None"
  using del_chmember_correct [OF sample_env_ok(2) sample_net_ok, of 4 "\<lparr>chptr = 3, mclient = 1, mflags = MODE_OPPED\<rparr>" sample_channel]
  by (auto simp: sample_channel_def new_channel_def)

text \<open>
  Giving and taking channel operator status keeps the state well-formed: the flag of the membership and
  the lists of opped and unopped users change together. \<open>op_chmember\<close> leaves the member opped and
  not marked as deopped, \<open>deop_chmember\<close> leaves it unopped, and one after the other
  gives back the flags that an unopped member had, less the deopped mark.
\<close>

theorem op_deop_chmember:
  assumes "env_ok E" and "net_ok s" and "members s m = Some mp"
  shows "(\<exists>t. op_chmember (lib E) m s = Some t \<and> net_ok t \<and> chan_frame t s \<and>
      (\<exists>mp'. members t m = Some mp' \<and> is_opped mp' \<and> (\<not> is_opped mp \<longrightarrow> mflags mp' AND MODE_DEOPPED = 0) \<and>
      (\<exists>t'. deop_chmember E m t = Some t' \<and> net_ok t' \<and> chan_frame t' t \<and>
        (\<exists>mp''. members t' m = Some mp'' \<and> \<not> is_opped mp'' \<and>
          (\<not> is_opped mp \<longrightarrow> mflags mp'' = mflags mp AND NOT MODE_DEOPPED)))))"
proof -
  have ok: "chans_ok s" using assms(2) by (simp add: net_ok_alt)
  obtain t where t: "op_chmember (lib E) m s = Some t" "chans_ok t" "same_clients t s" "chan_key t = chan_key s" "next_addr t = next_addr s"
    "members t = (if is_opped mp then members s else (members s)(m \<mapsto> mp\<lparr>mflags := (mflags mp AND NOT MODE_DEOPPED) OR MODE_OPPED\<rparr>))"
    by (rule env_ok.op_chmember_ok [OF assms(1) ok assms(3)])
  have "dom (members t) = dom (members s)" using t(6) assms(3) by auto
  then have nt: "net_ok t" "chan_frame t s" using net_ok_same_chans [OF assms(2) t(2-5)] t(3,4) by (auto simp: chan_frame_def)
  obtain mp' where mp': "members t m = Some mp'" "is_opped mp'" "\<not> is_opped mp \<Longrightarrow> mflags mp' = (mflags mp AND NOT MODE_DEOPPED) OR MODE_OPPED"
    using t(6) assms(3) by (cases "is_opped mp") auto
  obtain t' where t': "deop_chmember E m t = Some t'" "chans_ok t'" "same_clients t' t" "chan_key t' = chan_key t" "next_addr t' = next_addr t"
    "members t' = (if is_opped mp' then (members t)(m \<mapsto> mp'\<lparr>mflags := mflags mp' AND NOT MODE_OPPED\<rparr>) else members t)"
    by (rule env_ok.deop_chmember_ok [OF assms(1) t(2) mp'(1)])
  have "dom (members t') = dom (members t)" using t'(6) mp' by auto
  then have nt': "net_ok t'" "chan_frame t' t" using net_ok_same_chans [OF nt(1) t'(2-5)] t'(3,4) by (auto simp: chan_frame_def)
  have "mflags mp' AND MODE_DEOPPED = 0" "mflags mp' AND NOT MODE_OPPED = mflags mp AND NOT MODE_DEOPPED" if "\<not> is_opped mp"
    using mp'(3) [OF that] flag_swap [of "mflags mp" MODE_OPPED MODE_DEOPPED] that by (simp_all add: is_opped_def)
  then show ?thesis
    using t(1) nt mp' t'(1,6) nt' by simp
qed

theorem op_deop_chmember_witness:
  "\<exists>t. op_chmember (lib sample_env) 4 sample_net = Some t \<and> net_ok t \<and>
    (\<exists>t'. deop_chmember sample_env 4 t = Some t' \<and> net_ok t')"
  using op_deop_chmember [OF sample_env_ok(2) sample_net_ok, of 4 "\<lparr>chptr = 3, mclient = 1, mflags = MODE_OPPED\<rparr>"] by auto

text \<open>
  C39. A service that joins a channel is in it afterwards, whether the channel was there or had to be
  made, and a service that parts is in no channel of that name; both leave a well-formed state
  with the same clients and memberships. The name is that of a channel of at most \<open>CHANNELLEN\<close> characters.
\<close>

theorem join_part_service:
  assumes "env_ok E" and "net_ok s" and "get_service a s = Some v" and "cstring nm" and "length nm \<le> CHANNELLEN"
  shows "\<exists>t. join_service E a nm ts md override s = Some t \<and> net_ok t \<and> same_clients t s \<and> members t = members s \<and>
    (\<exists>c ch. chans t c = Some ch \<and> irccmp (chname ch) nm = 0 \<and> a \<in> set (services ch)) \<and>
    (\<exists>b t'. part_service E a nm t = Some (b, t') \<and> net_ok t' \<and> same_clients t' s \<and> members t' = members s \<and>
      (\<forall>c ch. chans t' c = Some ch \<longrightarrow> irccmp (chname ch) nm = 0 \<longrightarrow> a \<notin> set (services ch)))"
proof -
  obtain t where t: "join_service E a nm ts md override s = Some t" "net_ok t" "same_clients t s" "members t = members s"
    "\<exists>c ch. chans t c = Some ch \<and> irccmp (chname ch) nm = 0 \<and> a \<in> set (services ch)"
    using env_ok.join_service_runs [OF assms, of ts md override] by (auto simp: runs_def)
  obtain v' where "get_service a t = Some v'" using same_clients_service [OF t(3) assms(3)] by blast
  from env_ok.part_service_runs [OF assms(1) t(2) this, of nm]
  obtain b t' where "part_service E a nm t = Some (b, t')" "net_ok t'" "same_clients t' t" "members t' = members t"
    "\<forall>c ch. chans t' c = Some ch \<longrightarrow> irccmp (chname ch) nm = 0 \<longrightarrow> a \<notin> set (services ch)"
    using assms(4) by (auto simp: runs_def)
  then show ?thesis using t same_clients_trans [of t' t s] by (intro exI [of _ t]) auto
qed

theorem join_part_service_witness:
  "\<exists>t. join_service sample_env 2 ''#new'' 0 None False sample_net = Some t \<and> net_ok t \<and>
    (\<exists>b t'. part_service sample_env 2 ''#new'' t = Some (b, t') \<and> net_ok t')"
proof -
  have "get_service 2 sample_net = Some sample_service" by (simp add: get_service_def sample_clients_def)
  from join_part_service [OF sample_env_ok(2) sample_net_ok this, of "''#new''" 0 None False] show ?thesis by auto
qed

text \<open>
  C20. The time stamp rules of SJOIN. The channel of the name is found or made; the side with the older
  time stamp keeps its modes, both do when they are equal or one is zero, and a new channel takes
  the message's. When the old modes lose, the channel is left with the new time stamp, with no
  mode, key or limit, with nobody opped or voiced, and, for a source with an id, with no ban,
  exception or invitation; its members and services stay in it.
\<close>

theorem sjoin_timestamps:
  assumes "env_ok E" and "net_ok s" and "cstring nm" and "length nm \<le> CHANNELLEN"
  shows "\<exists>c old new t. sjoin_channel (lib E) nm newts s = Some (c, old, new, t) \<and> net_ok t \<and>
    (\<exists>ch. chans t c = Some ch \<and> irccmp (chname ch) nm = 0 \<and>
      (case chans s c of None \<Rightarrow> (old, new) = (False, True) \<and> ch_tsinfo ch = newts
       | Some d \<Rightarrow> (old, new) = ts_keep (ch_tsinfo d) newts) \<and>
      (\<exists>t' ch'. lower_ts E c newts with_bans t = Some t' \<and> net_ok t' \<and> chans t' c = Some ch' \<and> stripped newts with_bans ch ch' \<and>
        (\<forall>m mp. members t' m = Some mp \<longrightarrow> chptr mp = c \<longrightarrow> mflags mp AND (MODE_OPPED OR MODE_VOICED) = 0) \<and>
        dom (members t') = dom (members s)))"
proof -
  obtain c old new t ch where t: "sjoin_channel (lib E) nm newts s = Some (c, old, new, t)" "net_ok t" "members t = members s"
    "chans t c = Some ch" "irccmp (chname ch) nm = 0"
    "case chans s c of None \<Rightarrow> (old, new) = (False, True) \<and> ch_tsinfo ch = newts | Some d \<Rightarrow> (old, new) = ts_keep (ch_tsinfo d) newts"
    using env_ok.sjoin_channel_runs [OF assms, of newts] by (auto simp: runs_def)
  obtain t' ch' where t': "lower_ts E c newts with_bans t = Some t'" "net_ok t'" "chans t' c = Some ch'" "stripped newts with_bans ch ch'"
    "members t' = (\<lambda>m. map_option (unmoded c) (members t m))"
    using env_ok.lower_ts_runs [OF assms(1) t(2,4), of newts with_bans] by (auto simp: runs_def)
  have "mflags mp AND (MODE_OPPED OR MODE_VOICED) = 0" if h: "members t' m = Some mp" "chptr mp = c" for m mp
  proof -
    obtain z where z: "mp = unmoded c z" using h(1) t'(5) by auto
    then have "chptr z = c" using h(2) by simp
    then show ?thesis by (simp add: z unmoded_def and.assoc)
  qed
  moreover have "dom (members t') = dom (members s)" using t'(5) t(3) by (auto simp: dom_def)
  ultimately have "\<exists>t' ch'. lower_ts E c newts with_bans t = Some t' \<and> net_ok t' \<and> chans t' c = Some ch' \<and> stripped newts with_bans ch ch' \<and>
        (\<forall>m mp. members t' m = Some mp \<longrightarrow> chptr mp = c \<longrightarrow> mflags mp AND (MODE_OPPED OR MODE_VOICED) = 0) \<and> dom (members t') = dom (members s)"
    using t'(1-4) by (intro exI [of _ t'] exI [of _ ch'] conjI allI impI)
  then show ?thesis using t by (intro exI [of _ c] exI [of _ old] exI [of _ new] exI [of _ t]) simp
qed

theorem sjoin_timestamps_witness:
  "ts_keep (ch_tsinfo sample_channel) 90 = (False, True) \<and>
   (\<exists>c old new t. sjoin_channel (lib sample_env) ''#A'' 90 sample_net = Some (c, old, new, t) \<and>
     (\<exists>t'. lower_ts sample_env c 90 True t = Some t' \<and> dom (members t') = {4}))"
proof (rule conjI)
  show "ts_keep (ch_tsinfo sample_channel) 90 = (False, True)" by (simp add: ts_keep_def sample_channel_def new_channel_def)
  show "\<exists>c old new t. sjoin_channel (lib sample_env) ''#A'' 90 sample_net = Some (c, old, new, t) \<and>
     (\<exists>t'. lower_ts sample_env c 90 True t = Some t' \<and> dom (members t') = {4})"
    using sjoin_timestamps [OF sample_env_ok(2) sample_net_ok, of "''#A''" 90 True] by fastforce
qed

text \<open>
  C8. The nick list of an SJOIN: every user it names is in the channel afterwards, members that were there
  keep their flags, no other channel gets a member, and when the new modes lose nobody who joins
  is opped or voiced.
\<close>

theorem sjoin_members_correct:
  assumes "env_ok E" and "net_ok s" and "chans s c \<noteq> None"
  shows "\<exists>l s'. sjoin_members (lib E) c keep toks [] s = Some (l, s') \<and> net_ok s' \<and> same_clients s' s \<and>
    (\<forall>tok \<in> set toks. \<forall>a. find_user (snd (sjoin_prefix tok)) True s = Some (Some a) \<longrightarrow> in_chan s' c a) \<and>
    (\<forall>m mp. members s m = Some mp \<longrightarrow> members s' m = Some mp) \<and>
    (\<forall>m mp. members s' m = Some mp \<longrightarrow> members s m = None \<longrightarrow>
      chptr mp = c \<and> m \<in> set l \<and> (keep \<or> mflags mp AND (MODE_OPPED OR MODE_VOICED) = 0))"
proof -
  obtain l s' where r: "sjoin_members (lib E) c keep toks [] s = Some (l, s')" "sjoined c keep s l s'"
    "\<forall>tok \<in> set toks. \<forall>a. find_user (snd (sjoin_prefix tok)) True s = Some (Some a) \<longrightarrow> in_chan s' c a"
    using env_ok.sjoin_members_runs [OF assms, of "[]" keep toks] by (auto simp: runs_def)
  have "sjoin_flags False fl AND (MODE_OPPED OR MODE_VOICED) = 0" for fl by (simp add: sjoin_flags_def)
  then have "chptr mp = c \<and> m \<in> set l \<and> (keep \<or> mflags mp AND (MODE_OPPED OR MODE_VOICED) = 0)"
    if "members s' m = Some mp" "members s m = None" for m mp
    using sjoinedD(6) [OF r(2) that(1)] that(2) by (cases keep) auto
  then show ?thesis using r sjoinedD [OF r(2)] by (intro exI [of _ l] exI [of _ s']) auto
qed

theorem sjoin_members_correct_witness:
  "\<exists>l s'. sjoin_members (lib sample_env) 3 False (sjoin_nicks ''@alice +nobody'') [] sample_net = Some (l, s') \<and> net_ok s'"
  using sjoin_members_correct [OF sample_env_ok(2) sample_net_ok, of 3 False "sjoin_nicks ''@alice +nobody''"] by auto

text \<open>
  C4. The commands on channels are safe. In a well-formed state, with a hashed client as the source and C
  strings as parameters, KICK, PART, TOPIC, TB, SJOIN and JOIN return (no NULL or freed object is
  used and no list is broken) and leave a well-formed state with the same clients.
\<close>

theorem channel_commands_safe:
  assumes "env_active E" and "net_ok s" and "hashed s a" and "list_all cstring ps"
    and "handler \<in> {c_kick, c_part, c_topic, c_tb, c_sjoin, c_join}"
  shows "\<exists>s'. handler E a ps s = Some s' \<and> net_ok s' \<and> same_clients s' s"
proof -
  have E: "env_ok E" using assms(1) by (rule env_active.axioms)
  note R = env_ok.c_kick_runs [OF E assms(2)] env_ok.c_part_runs [OF E assms(2,3)]
    env_active.c_topic_runs [OF assms(1-3)] env_active.c_tb_runs [OF assms(1-3)]
    env_active.c_sjoin_runs [OF assms(1-4)] env_active.c_join_runs [OF assms(1-4)]
  show ?thesis using assms(5) R unfolding runs_def by blast
qed

theorem channel_commands_safe_witness:
  "\<exists>s'. c_sjoin sample_env 0 [''90'', ''#a'', ''+s'', ''@alice''] sample_net = Some s' \<and> net_ok s'"
  using channel_commands_safe [OF sample_env_ok(1) sample_net_ok, of 0 "[''90'', ''#a'', ''+s'', ''@alice'']" c_sjoin]
  by (auto simp: sample_hashed)

end
