(* ===== verification/Opers.thy ===== *)
theory Opers
  imports Channel_Handlers
begin

section \<open>Opers: operator blocks and the opers of a split (src/conf.c)\<close>

text \<open>
  Operator blocks of the configuration are counted: a logged in user and an entry of
  \<open>client_oper_list\<close>, which remembers an oper that left in a split, each hold a reference. A block
  that a rehash marked as dead is freed with its last reference.
\<close>

definition deallocate_conf_oper :: "addr \<Rightarrow> net \<Rightarrow> net option" where
  "deallocate_conf_oper p s = do {
     co \<leftarrow> conf_opers s p;
     let co = co\<lparr>refcount := refcount co - 1\<rparr>;
     if op_flags co AND CONF_DEAD \<noteq> 0 \<and> refcount co = 0
     then Some (s\<lparr>conf_opers := (conf_opers s)(p := None)\<rparr>)
     else Some (s\<lparr>conf_opers := (conf_opers s)(p \<mapsto> co)\<rparr>)
   }"

definition oper_matches :: "string \<Rightarrow> string \<Rightarrow> string \<Rightarrow> string \<Rightarrow> conf_oper \<Rightarrow> bool" where
  "oper_matches un ho sv oper_username co \<longleftrightarrow>
     op_flags co AND CONF_DEAD = 0 \<and> match (op_username co) un \<and> match (op_host co) ho \<and>
     (EmptyString (op_server co) \<or> match (op_server co) sv) \<and>
     (EmptyString oper_username \<or> irccmp (op_name co) oper_username = 0)"

definition find_conf_oper :: "string \<Rightarrow> string \<Rightarrow> string \<Rightarrow> string \<Rightarrow> net \<Rightarrow> addr option option" where
  "find_conf_oper un ho sv oper_username s =
     hunt (\<lambda>p. do { co \<leftarrow> conf_opers s p; Some (oper_matches un ho sv oper_username co) }) (conf_oper_list s)"

definition store_client_oper :: "env \<Rightarrow> addr \<Rightarrow> net \<Rightarrow> net option" where
  "store_client_oper E client_p s = do {
     let L = lib E;
     cl \<leftarrow> clients s client_p;
     u \<leftarrow> user cl;
     v \<leftarrow> uplink cl;
     up \<leftarrow> clients s v;
     p \<leftarrow> oper u;
     co \<leftarrow> conf_opers s p;
     let coper = \<lparr>co_uid = rb_strlcpy L (uid cl) (UIDLEN + 1), co_username = rb_strlcpy L (username u) (USERLEN + 1),
       co_host = rb_strlcpy L (host u) (HOSTLEN + 1), co_sid = rb_strlcpy L (uid up) (UIDLEN + 1), co_oper = p, timestamp = now s\<rparr>;
     Some (s\<lparr>conf_opers := (conf_opers s)(p \<mapsto> co\<lparr>refcount := refcount co + 1\<rparr>),
             client_oper_list := dlinkAdd (coper_lib E) coper (client_oper_list s)\<rparr>)
   }"

definition free_client_oper :: "env \<Rightarrow> client_oper \<Rightarrow> net \<Rightarrow> net option" where
  "free_client_oper E coper s = do {
     s \<leftarrow> deallocate_conf_oper (co_oper coper) s;
     if coper \<in> set (client_oper_list s)
     then Some (s\<lparr>client_oper_list := dlinkDelete (coper_lib E) coper (client_oper_list s)\<rparr>)
     else None
   }"

definition clear_client_oper_sid :: "env \<Rightarrow> addr \<Rightarrow> net \<Rightarrow> net option" where
  "clear_client_oper_sid E client_p s = do {
     cl \<leftarrow> clients s client_p;
     foreach (\<lambda>coper t. if irccmp (co_sid coper) (uid cl) = 0 then free_client_oper E coper t else Some t) (client_oper_list s) s
   }"

definition expire_client_oper :: "env \<Rightarrow> net \<Rightarrow> net option" where
  "expire_client_oper E s =
     foreach (\<lambda>coper t. if timestamp coper + split_oper_time (config_file E) < now s then free_client_oper E coper t else Some t)
       (client_oper_list s) s"

subsection \<open>References\<close>

definition list_refs :: "net \<Rightarrow> addr \<Rightarrow> nat" where
  "list_refs s p = length (filter (\<lambda>a. user_oper s a = Some p) (user_list s))"

definition stored_refs :: "client_oper list \<Rightarrow> addr \<Rightarrow> nat" where
  "stored_refs l p = length (filter (\<lambda>co. co_oper co = p) l)"

lemma oper_refs_alt: "oper_refs s p = list_refs s p + stored_refs (client_oper_list s) p"
  by (simp add: oper_refs_def list_refs_def stored_refs_def)

lemma stored_refs_simps [simp]: "stored_refs [] p = 0" "stored_refs (co # l) p = (if co_oper co = p then 1 else 0) + stored_refs l p"
  by (simp_all add: stored_refs_def)

text \<open>A block with \<open>n\<close> references: allocated if there are any, and counted at least that often.\<close>

definition counted :: "(addr \<Rightarrow> conf_oper option) \<Rightarrow> addr \<Rightarrow> nat \<Rightarrow> bool" where
  "counted M p n \<longleftrightarrow> (0 < n \<longrightarrow> M p \<noteq> None) \<and> (\<forall>co. M p = Some co \<longrightarrow> int n \<le> refcount co)"

definition listed_opers :: "net \<Rightarrow> bool" where
  "listed_opers s \<longleftrightarrow> (\<forall>p \<in> set (conf_oper_list s). \<exists>co. conf_opers s p = Some co \<and> op_flags co AND CONF_DEAD = 0)"

definition user_regs_ok :: "net \<Rightarrow> bool" where
  "user_regs_ok s \<longleftrightarrow> (\<forall>a r. a \<in> set (user_list s) \<longrightarrow> user_link s a = Some r \<longrightarrow> user_regs s r \<noteq> None)"

lemma opers_ok_alt:
  "opers_ok s \<longleftrightarrow> (\<forall>p. counted (conf_opers s) p (oper_refs s p)) \<and> listed_opers s \<and> user_regs_ok s"
  by (auto simp: opers_ok_def counted_def listed_opers_def user_regs_ok_def)

text \<open>Giving back one reference.\<close>

lemma deallocate_conf_oper_runs:
  assumes "\<And>q. counted (conf_opers s) q (n q)" "0 < n p" "listed_opers s"
  shows "runs (deallocate_conf_oper p s) (\<lambda>s'. (\<exists>M. s' = s\<lparr>conf_opers := M\<rparr>) \<and> listed_opers s' \<and>
    (\<forall>q. counted (conf_opers s') q (if q = p then n q - 1 else n q)))"
proof -
  obtain co where co: "conf_opers s p = Some co" "int (n p) \<le> refcount co" using assms(1,2) by (auto simp: counted_def)
  show ?thesis
  proof (cases "op_flags co AND CONF_DEAD \<noteq> 0 \<and> refcount co = 1")
    case True
    then have "n p = 1" "p \<notin> set (conf_oper_list s)" using co assms(2,3) by (auto simp: listed_opers_def)
    then show ?thesis using co True assms by (auto simp: deallocate_conf_oper_def Let_def counted_def listed_opers_def)
  next
    case False
    let ?s = "s\<lparr>conf_opers := (conf_opers s)(p \<mapsto> co\<lparr>refcount := refcount co - 1\<rparr>)\<rparr>"
    have run: "deallocate_conf_oper p s = Some ?s" using False co by (auto simp: deallocate_conf_oper_def Let_def)
    have "counted (conf_opers ?s) q (if q = p then n q - 1 else n q)" for q
      using assms(1) [of q] assms(2) co by (cases "q = p") (simp_all add: counted_def of_nat_diff)
    moreover have "listed_opers ?s" using assms(3) co by (auto simp: listed_opers_def)
    ultimately show ?thesis unfolding run by auto
  qed
qed

lemma stored_refs_mset: "stored_refs l p = size (filter_mset (\<lambda>co. co_oper co = p) (mset l))"
  by (simp add: stored_refs_def flip: mset_filter)

lemma net_ok_opers:
  assumes "net_ok s" "opers_ok (s\<lparr>conf_opers := M, client_oper_list := l, oper_list := o', user_regs := r\<rparr>)"
  shows "net_ok (s\<lparr>conf_opers := M, client_oper_list := l, oper_list := o', user_regs := r\<rparr>)"
proof -
  let ?s = "s\<lparr>conf_opers := M, client_oper_list := l, oper_list := o', user_regs := r\<rparr>"
  have P: "keys ?s = keys s" "kind ?s = kind s" "parent ?s = parent s" "dead ?s = dead s" "server_lists ?s = server_lists s"
    "chan_key ?s = chan_key s" "chan_lists ?s = chan_lists s" "chan_services ?s = chan_services s" "service_chans ?s = service_chans s"
    "user_chans ?s = user_chans s"
    by (auto simp: projection_defs fun_eq_iff)
  note D = net_okD [OF assms(1)]
  show ?thesis
    unfolding net_ok_def
    using D assms(2) tables_ok_cong [of ?s s] chtable_ok_cong [of ?s s] members_ok_cong [of ?s s] services_ok_cong [of ?s s]
      links_ok_cong [of ?s s] alloc_ok_cong [of ?s s] listed_ok_cong [of ?s s] P by simp
qed

text \<open>The part of the state the operations on opers change.\<close>

definition oper_frame :: "net \<Rightarrow> net \<Rightarrow> bool" where
  "oper_frame s' s \<longleftrightarrow> (\<exists>M l. s' = s\<lparr>conf_opers := M, client_oper_list := l\<rparr>)"

lemma oper_frame_refl [simp]: "oper_frame s s"
  unfolding oper_frame_def by (rule exI [of _ "conf_opers s"], rule exI [of _ "client_oper_list s"]) simp

lemma oper_frame_trans [trans]:
  assumes "oper_frame s'' s'" "oper_frame s' s"
  shows "oper_frame s'' s"
proof -
  obtain M l M' l' where "s'' = s'\<lparr>conf_opers := M, client_oper_list := l\<rparr>" "s' = s\<lparr>conf_opers := M', client_oper_list := l'\<rparr>"
    using assms unfolding oper_frame_def by blast
  then show ?thesis unfolding oper_frame_def by (intro exI [of _ M] exI [of _ l]) simp
qed

lemma oper_frame_net_ok:
  assumes "oper_frame s' s" "net_ok s" "opers_ok s'"
  shows "net_ok s'"
proof -
  obtain M l where s': "s' = s\<lparr>conf_opers := M, client_oper_list := l\<rparr>" using assms(1) by (auto simp: oper_frame_def)
  then have "s' = s\<lparr>conf_opers := M, client_oper_list := l, oper_list := oper_list s, user_regs := user_regs s\<rparr>" by simp
  then show ?thesis using net_ok_opers assms(2,3) by metis
qed

context env_ok
begin

lemma stored_refs_Add: "stored_refs (dlinkAdd (coper_lib E) co l) p = (if co_oper co = p then 1 else 0) + stored_refs l p"
  by (simp add: stored_refs_mset copers.mset_Add)

lemma stored_refs_Delete: "co \<in> set l \<Longrightarrow> stored_refs (dlinkDelete (coper_lib E) co l) p = stored_refs l p - (if co_oper co = p then 1 else 0)"
  by (simp add: stored_refs_mset copers.mset_Delete size_Diff_singleton)

lemma stored_refs_pos: "co \<in> set l \<Longrightarrow> 0 < stored_refs l (co_oper co)"
  by (auto simp: stored_refs_def filter_empty_conv)

lemma free_client_oper_runs:
  assumes ok: "opers_ok s" and co: "co \<in> set (client_oper_list s)"
  shows "runs (free_client_oper E co s) (\<lambda>s'. opers_ok s' \<and> oper_frame s' s \<and>
    mset (client_oper_list s') = mset (client_oper_list s) - {#co#})"
proof -
  let ?p = "co_oper co"
  have n: "\<And>q. counted (conf_opers s) q (oper_refs s q)" "0 < oper_refs s ?p" "listed_opers s" "user_regs_ok s"
    using ok stored_refs_pos [OF co] by (auto simp: opers_ok_alt oper_refs_alt)
  show ?thesis
    unfolding free_client_oper_def
  proof (rule runs_seq [OF deallocate_conf_oper_runs [OF n(1-3)]])
    fix t assume t: "(\<exists>M. t = s\<lparr>conf_opers := M\<rparr>) \<and> listed_opers t \<and> (\<forall>q. counted (conf_opers t) q (if q = ?p then oper_refs s q - 1 else oper_refs s q))"
    then obtain M where M: "t = s\<lparr>conf_opers := M\<rparr>" by blast
    let ?t = "t\<lparr>client_oper_list := dlinkDelete (coper_lib E) co (client_oper_list t)\<rparr>"
    have "oper_refs ?t q = (if q = ?p then oper_refs s q - 1 else oper_refs s q)" for q
      using co stored_refs_pos [OF co] by (auto simp: oper_refs_alt M list_refs_def stored_refs_Delete)
    then have "opers_ok ?t" using t n(4) by (simp add: opers_ok_alt listed_opers_def user_regs_ok_def M)
    moreover have "oper_frame ?t s" unfolding oper_frame_def M by (intro exI) simp
    ultimately show "runs (if co \<in> set (client_oper_list t) then Some ?t else None)
        (\<lambda>s'. opers_ok s' \<and> oper_frame s' s \<and> mset (client_oper_list s') = mset (client_oper_list s) - {#co#})"
      using co by (simp add: M copers.mset_Delete)
  qed
qed

lemma free_opers_loop:
  assumes "opers_ok s" "mset xs \<subseteq># mset (client_oper_list s)"
  shows "runs (foreach (\<lambda>co t. if P co then free_client_oper E co t else Some t) xs s) (\<lambda>s'. opers_ok s' \<and> oper_frame s' s \<and>
    mset (client_oper_list s') = mset (client_oper_list s) - filter_mset P (mset xs))"
  using assms
proof (induction xs arbitrary: s)
  case (Cons co xs)
  have co: "co \<in> set (client_oper_list s)" using Cons.prems(2) by (metis mset_subset_eqD set_mset_mset list.set_intros(1))
  show ?case
  proof (cases "P co")
    case True
    show ?thesis
      unfolding foreach.simps
    proof (rule runs_seq)
      show "runs (if P co then free_client_oper E co s else Some s) (\<lambda>s'. opers_ok s' \<and> oper_frame s' s \<and>
          mset (client_oper_list s') = mset (client_oper_list s) - {#co#})"
        using free_client_oper_runs [OF Cons.prems(1) co] True by simp
    next
      fix t assume t: "opers_ok t \<and> oper_frame t s \<and> mset (client_oper_list t) = mset (client_oper_list s) - {#co#}"
      have "mset xs \<subseteq># mset (client_oper_list t)" using t Cons.prems(2) by (simp add: insert_subset_eq_iff)
      then show "runs (foreach (\<lambda>co t. if P co then free_client_oper E co t else Some t) xs t) (\<lambda>s'. opers_ok s' \<and> oper_frame s' s \<and>
          mset (client_oper_list s') = mset (client_oper_list s) - filter_mset P (mset (co # xs)))"
        by (intro runs_mono [OF Cons.IH]) (use t True oper_frame_trans in auto)
    qed
  next
    case False
    moreover have "mset xs \<subseteq># mset (client_oper_list s)"
      using Cons.prems(2) by (simp add: mset_subset_eq_insertD subset_mset.less_imp_le)
    ultimately show ?thesis using Cons.IH [OF Cons.prems(1)] by simp
  qed
qed simp

end

text \<open>
  C19. Operator blocks are never used after they were freed. Expiring the remembered opers of a split, or
  dropping those of one server, returns on a well-formed state: every block an entry refers to is allocated
  and counted. Exactly the entries that are stale (of that server) go, and every block
  that a logged in user or a remaining entry refers to is still allocated with a count that covers
  them.
\<close>

theorem client_opers_counted:
  assumes "env_ok E" and "net_ok s" and "clients s v = Some cl"
  shows "(\<exists>s'. expire_client_oper E s = Some s' \<and> net_ok s' \<and>
      mset (client_oper_list s') = filter_mset (\<lambda>co. \<not> timestamp co + split_oper_time (config_file E) < now s) (mset (client_oper_list s))) \<and>
    (\<exists>s'. clear_client_oper_sid E v s = Some s' \<and> net_ok s' \<and>
      mset (client_oper_list s') = filter_mset (\<lambda>co. irccmp (co_sid co) (uid cl) \<noteq> 0) (mset (client_oper_list s)))"
proof -
  have ok: "opers_ok s" using assms(2) by blast
  have "runs (foreach (\<lambda>co t. if P co then free_client_oper E co t else Some t) (client_oper_list s) s)
      (\<lambda>s'. net_ok s' \<and> mset (client_oper_list s') = filter_mset (\<lambda>co. \<not> P co) (mset (client_oper_list s)))" for P
  proof (rule runs_mono [OF env_ok.free_opers_loop [OF assms(1) ok]])
    fix t assume t: "opers_ok t \<and> oper_frame t s \<and> mset (client_oper_list t) = mset (client_oper_list s) - filter_mset P (mset (client_oper_list s))"
    have "mset (client_oper_list s) = filter_mset P (mset (client_oper_list s)) + filter_mset (\<lambda>co. \<not> P co) (mset (client_oper_list s))"
      by (rule multiset_partition)
    then show "net_ok t \<and> mset (client_oper_list t) = filter_mset (\<lambda>co. \<not> P co) (mset (client_oper_list s))"
      using t oper_frame_net_ok assms(2) by (metis add_diff_cancel_left')
  qed simp
  then show ?thesis
    using assms(3) unfolding expire_client_oper_def clear_client_oper_sid_def runs_def by auto
qed

text \<open>A state with one oper of a split to remember.\<close>

definition split_net :: net where
  "split_net = sample_net\<lparr>conf_opers := [9 \<mapsto> \<lparr>op_name = ''root'', op_username = ''*'', op_host = ''*'', op_pass = ''x'', op_server = [],
       op_flags = CONF_DEAD, op_sflags = 0, refcount = 1\<rparr>],
     client_oper_list := [\<lparr>co_uid = ''3LFAAAAAA'', co_username = ''op'', co_host = ''h'', co_sid = ''3LF'', co_oper = 9, timestamp = 100\<rparr>]\<rparr>"

lemma split_net_ok: "net_ok split_net"
proof -
  have e: "split_net = sample_net\<lparr>conf_opers := conf_opers split_net, client_oper_list := client_oper_list split_net,
      oper_list := oper_list sample_net, user_regs := user_regs sample_net\<rparr>"
    by (simp add: split_net_def)
  have "user_oper split_net = (\<lambda>a. None)" "user_link split_net = (\<lambda>a. None)"
    using sample_proj by (simp_all add: split_net_def)
  then have "opers_ok split_net" by (auto simp: opers_ok_def oper_refs_def) (auto simp: split_net_def split: if_splits)
  then show ?thesis using net_ok_opers [OF sample_net_ok] e by metis
qed

theorem client_opers_counted_witness: "\<exists>s'. expire_client_oper sample_env split_net = Some s' \<and> net_ok s' \<and> client_oper_list s' = []"
proof -
  have "clients split_net 0 = Some (the (sample_clients 0))" by (simp add: split_net_def sample_clients_def)
  from client_opers_counted [OF sample_env_ok(2) split_net_ok this] show ?thesis
    by (auto simp: split_net_def sample_net_def sample_env_def sample_config_def)
qed

end
