(* ===== verification/Exits.thy ===== *)
theory Exits
  imports Opers
begin

section \<open>Exits: a client leaves with everything behind it (src/client.c, src/io.c)\<close>

text \<open>
  \<open>exit_client\<close> and \<open>exit_server\<close> call each other. \<open>exit_loop\<close> takes the depth of calls as fuel;
  \<open>exit_client\<close> gives it one more than the number of addresses ever allocated, which is enough
  because a client has a higher address than its uplink. An exited client is off every list but
  \<open>exited_list\<close>, whose members \<open>cleanup_exited_clients\<close> frees.
\<close>

subsection \<open>The exit of a user, a server and a client\<close>

definition find_destroy :: "rblib \<Rightarrow> addr \<Rightarrow> addr list \<Rightarrow> addr list" where
  "find_destroy L x xs = (if dlinkFind (rb_ptrs L) x xs then dlinkDelete (rb_ptrs L) x xs else xs)"

text \<open>What a user that leaves holds: the link from its account and its operator block.\<close>

definition release_user :: "env \<Rightarrow> addr \<Rightarrow> bool \<Rightarrow> net \<Rightarrow> net option" where
  "release_user E target_p split s = do {
     u \<leftarrow> get_user target_p s;
     s \<leftarrow> (if split \<and> split_oper_time (config_file E) > 0 \<and> oper u \<noteq> None then store_client_oper E target_p s else Some s);
     s \<leftarrow> (case user_reg u of
             None \<Rightarrow> Some s
           | Some r \<Rightarrow> do { rg \<leftarrow> user_regs s r;
               Some (s\<lparr>user_regs := (user_regs s)(r \<mapsto> rg\<lparr>reg_users := find_destroy (lib E) target_p (reg_users rg)\<rparr>)\<rparr>) });
     case oper u of
       None \<Rightarrow> Some s
     | Some p \<Rightarrow> deallocate_conf_oper p (s\<lparr>oper_list := find_destroy (lib E) target_p (oper_list s)\<rparr>)
   }"

text \<open>The end of \<open>exit_user\<close>: off the user list and off the uplink's list.\<close>

definition unlink_user :: "env \<Rightarrow> addr \<Rightarrow> net \<Rightarrow> net option" where
  "unlink_user E target_p s = do {
     l \<leftarrow> dl_delete (lib E) target_p (user_list s);
     let s = s\<lparr>user_list := l, exited_list := dlinkAdd (rb_ptrs (lib E)) target_p (exited_list s)\<rparr>;
     cl \<leftarrow> clients s target_p;
     up \<leftarrow> uplink cl;
     v \<leftarrow> get_server up s;
     l \<leftarrow> dl_delete (lib E) target_p (server_users v);
     upd_server up (\<lambda>v. v\<lparr>server_users := l\<rparr>) s
   }"

definition set_dead :: "addr \<Rightarrow> net \<Rightarrow> net option" where
  "set_dead target_p = upd_client target_p (\<lambda>c. c\<lparr>flags := flags c OR FLAGS_DEAD\<rparr>)"

definition exit_user :: "env \<Rightarrow> addr \<Rightarrow> bool \<Rightarrow> net \<Rightarrow> net option" where
  "exit_user E target_p split s = do {
     cl \<leftarrow> clients s target_p;
     if flags cl AND FLAGS_DEAD \<noteq> 0 then Some s
     else do {
       s \<leftarrow> set_dead target_p s;
       s \<leftarrow> hook_do E HOOK_CLIENT_EXIT (ArgClient target_p) ArgNull s;
       s \<leftarrow> release_user E target_p split s;
       u \<leftarrow> get_user target_p s;
       s \<leftarrow> foreach (del_chmember E) (channels u) s;
       unlink_user E target_p s
     }
   }"

definition unlink_server :: "env \<Rightarrow> addr \<Rightarrow> net \<Rightarrow> net option" where
  "unlink_server E target_p s = do {
     l \<leftarrow> dl_delete (lib E) target_p (server_list s);
     let s = s\<lparr>server_list := l, exited_list := dlinkAdd (rb_ptrs (lib E)) target_p (exited_list s)\<rparr>;
     cl \<leftarrow> clients s target_p;
     case uplink cl of
       None \<Rightarrow> Some s
     | Some up \<Rightarrow> do {
         v \<leftarrow> get_server up s;
         l \<leftarrow> dl_delete (lib E) target_p (servers v);
         upd_server up (\<lambda>v. v\<lparr>servers := l\<rparr>) s
       }
   }"

definition exit_server :: "(addr \<Rightarrow> net \<Rightarrow> net option) \<Rightarrow> env \<Rightarrow> addr \<Rightarrow> net \<Rightarrow> net option" where
  "exit_server exit E target_p s = do {
     cl \<leftarrow> clients s target_p;
     if flags cl AND FLAGS_DEAD \<noteq> 0 then Some s
     else do {
       s \<leftarrow> set_dead target_p s;
       s \<leftarrow> hook_do E HOOK_SERVER_EXIT_WARNING (ArgClient target_p) ArgNull s;
       v \<leftarrow> get_server target_p s;
       s \<leftarrow> foreach (\<lambda>b s. do { s \<leftarrow> hook_do E HOOK_CLIENT_EXIT_SPLIT (ArgClient b) ArgNull s; exit b s }) (server_users v) s;
       v \<leftarrow> get_server target_p s;
       s \<leftarrow> foreach exit (servers v) s;
       s \<leftarrow> hook_do E HOOK_SERVER_EXIT (ArgClient target_p) ArgNull s;
       unlink_server E target_p s
     }
   }"

fun exit_loop :: "nat \<Rightarrow> env \<Rightarrow> bool \<Rightarrow> addr \<Rightarrow> net \<Rightarrow> net option" where
  "exit_loop 0 E split target_p s = None"
| "exit_loop (Suc n) E split target_p s = do {
     cl \<leftarrow> clients s target_p;
     if service cl \<noteq> None then Some s
     else do {
       s \<leftarrow> (if server cl \<noteq> None then exit_server (exit_loop n E split) E target_p s
             else if user cl \<noteq> None then exit_user E target_p split s
             else Some s);
       del_client (lib E) target_p s
     }
   }"

definition exit_client :: "env \<Rightarrow> addr \<Rightarrow> bool \<Rightarrow> net \<Rightarrow> net option" where
  "exit_client E target_p split s = exit_loop (Suc (next_addr s)) E split target_p s"

text \<open>Freeing memory that is not allocated, or twice, is \<^const>\<open>None\<close>.\<close>

definition free_client :: "addr \<Rightarrow> net \<Rightarrow> net option" where
  "free_client target_p s = do { cl \<leftarrow> clients s target_p; Some (s\<lparr>clients := (clients s)(target_p := None)\<rparr>) }"

definition cleanup_exited_clients :: "net \<Rightarrow> net option" where
  "cleanup_exited_clients s = do { s \<leftarrow> foreach free_client (exited_list s) s; Some (s\<lparr>exited_list := []\<rparr>) }"

definition cleaned :: "net \<Rightarrow> net" where
  "cleaned s = s\<lparr>clients := (\<lambda>a. if a \<in> set (exited_list s) then None else clients s a), exited_list := []\<rparr>"

subsection \<open>The client tables\<close>

text \<open>States that differ in the tables of the clients only.\<close>

definition table_frame :: "net \<Rightarrow> net \<Rightarrow> bool" where
  "table_frame s' s \<longleftrightarrow> (\<exists>nt ut. s' = s\<lparr>name_table := nt, uid_table := ut\<rparr>)"

lemma tables_okD:
  assumes "tables_ok s"
  shows "distinct (name_table s h)" "distinct (uid_table s h)"
    "a \<in> set (name_table s h) \<longleftrightarrow> hashed s a \<and> (\<exists>n u. keys s a = Some (n, u) \<and> hash_name n = h)"
    "a \<in> set (uid_table s h) \<longleftrightarrow> hashed s a \<and> (\<exists>n u. keys s a = Some (n, u) \<and> u \<noteq> [] \<and> hash_name u = h)"
proof -
  show "distinct (name_table s h)" "distinct (uid_table s h)"
    "a \<in> set (uid_table s h) \<longleftrightarrow> hashed s a \<and> (\<exists>n u. keys s a = Some (n, u) \<and> u \<noteq> [] \<and> hash_name u = h)"
    using assms by (simp_all add: tables_ok_def)
  show "a \<in> set (name_table s h) \<longleftrightarrow> hashed s a \<and> (\<exists>n u. keys s a = Some (n, u) \<and> hash_name n = h)"
    using assms unfolding tables_ok_def hashed_def by fastforce
qed

lemma tables_okI:
  assumes "\<And>h. distinct (name_table s h)" "\<And>h. distinct (uid_table s h)"
    "\<And>h a. a \<in> set (name_table s h) \<longleftrightarrow> H a \<and> (\<exists>n u. keys s a = Some (n, u) \<and> hash_name n = h)"
    "\<And>h a. a \<in> set (uid_table s h) \<longleftrightarrow> H a \<and> (\<exists>n u. keys s a = Some (n, u) \<and> u \<noteq> [] \<and> hash_name u = h)"
    "\<And>a. H a \<Longrightarrow> keys s a \<noteq> None"
  shows "tables_ok s" "hashed s a \<longleftrightarrow> H a"
proof -
  show h: "hashed s a \<longleftrightarrow> H a" for a using assms(3,5) by (fastforce simp: hashed_def)
  show "tables_ok s" unfolding tables_ok_def using assms h by auto
qed

context rblib_ok
begin

lemma del_client_runs:
  assumes ok: "tables_ok s" and a: "hashed s a"
  shows "runs (del_client L a s) (\<lambda>s'. table_frame s' s \<and> tables_ok s' \<and> (\<forall>b. hashed s' b \<longleftrightarrow> hashed s b \<and> b \<noteq> a))"
proof -
  note D = tables_okD [OF ok]
  obtain cl where cl: "clients s a = Some cl" using hashed_client [OF a] by blast
  then have k: "keys s a = Some (name cl, uid cl)" by (simp add: keys_def)
  define nt where "nt = (name_table s)(hash_name (name cl) := dlinkDelete (rb_ptrs L) a (name_table s (hash_name (name cl))))"
  define ut where "ut = (if EmptyString (uid cl) then uid_table s
    else (uid_table s)(hash_name (uid cl) := dlinkDelete (rb_ptrs L) a (uid_table s (hash_name (uid cl)))))"
  let ?s = "s\<lparr>name_table := nt, uid_table := ut\<rparr>"
  have "a \<in> set (name_table s (hash_name (name cl)))" "\<not> EmptyString (uid cl) \<Longrightarrow> a \<in> set (uid_table s (hash_name (uid cl)))"
    using D(3,4) a k by (auto simp: EmptyString_def)
  then have run: "del_client L a s = Some ?s"
    using cl by (auto simp: del_client_def dl_delete_def Let_def nt_def ut_def)
  have set_nt: "set (nt h) = set (name_table s h) - {a}" "distinct (nt h)" for h
    using D(1) D(3) [of a h] k by (auto simp: nt_def)
  have set_ut: "set (ut h) = set (uid_table s h) - {a}" "distinct (ut h)" for h
    using D(2) D(4) [of a h] k by (auto simp: ut_def EmptyString_def)
  have "keys ?s = keys s" by (simp add: keys_def fun_eq_iff)
  moreover have "\<And>b. hashed s b \<Longrightarrow> keys s b \<noteq> None" by (auto simp: hashed_def)
  ultimately have "tables_ok ?s" "hashed ?s b \<longleftrightarrow> hashed s b \<and> b \<noteq> a" for b
    by (intro tables_okI [where H = "\<lambda>b. hashed s b \<and> b \<noteq> a"]; use set_nt set_ut D(3,4) in auto)+
  then show ?thesis using run by (auto simp: table_frame_def)
qed

lemma add_client_runs:
  assumes ok: "tables_ok s" and a: "\<not> hashed s a" "clients s a = Some cl"
  shows "runs (add_client L a s) (\<lambda>s'. table_frame s' s \<and> tables_ok s' \<and> (\<forall>b. hashed s' b \<longleftrightarrow> hashed s b \<or> b = a))"
proof -
  note D = tables_okD [OF ok]
  have k: "keys s a = Some (name cl, uid cl)" using a(2) by (simp add: keys_def)
  define nt where "nt = (name_table s)(hash_name (name cl) := dlinkAdd (rb_ptrs L) a (name_table s (hash_name (name cl))))"
  define ut where "ut = (if EmptyString (uid cl) then uid_table s
    else (uid_table s)(hash_name (uid cl) := dlinkAdd (rb_ptrs L) a (uid_table s (hash_name (uid cl)))))"
  let ?s = "s\<lparr>name_table := nt, uid_table := ut\<rparr>"
  have run: "add_client L a s = Some ?s"
    using a(2) by (auto simp: add_client_def Let_def nt_def ut_def)
  have set_nt: "set (nt h) = (if h = hash_name (name cl) then insert a (set (name_table s h)) else set (name_table s h))" "distinct (nt h)" for h
    using D(1) D(3) [of a h] a(1) by (auto simp: nt_def)
  have set_ut: "set (ut h) = (if uid cl \<noteq> [] \<and> h = hash_name (uid cl) then insert a (set (uid_table s h)) else set (uid_table s h))" "distinct (ut h)" for h
    using D(2) D(4) [of a h] a(1) by (auto simp: ut_def EmptyString_def)
  have "keys ?s = keys s" by (simp add: keys_def fun_eq_iff)
  moreover have "\<And>b. hashed s b \<Longrightarrow> keys s b \<noteq> None" by (auto simp: hashed_def)
  ultimately have "tables_ok ?s" "hashed ?s b \<longleftrightarrow> hashed s b \<or> b = a" for b
    by (intro tables_okI [where H = "\<lambda>b. hashed s b \<or> b = a"]; use set_nt set_ut D(3,4) k a(1) in \<open>auto\<close>)+
  then show ?thesis using run by (auto simp: table_frame_def)
qed

end

subsection \<open>Operator references of a user that leaves\<close>

text \<open>The references without those of one user.\<close>

definition refs_without :: "net \<Rightarrow> addr \<Rightarrow> addr \<Rightarrow> nat" where
  "refs_without s a q = length (filter (\<lambda>b. b \<noteq> a \<and> user_oper s b = Some q) (user_list s)) + stored_refs (client_oper_list s) q"

lemma length_filter_split:
  "distinct xs \<Longrightarrow> a \<in> set xs \<Longrightarrow> length (filter P xs) = length (filter (\<lambda>b. b \<noteq> a \<and> P b) xs) + (if P a then 1 else 0)"
proof (induction xs)
  case (Cons x xs)
  show ?case
  proof (cases "x = a")
    case True
    then have "filter (\<lambda>b. b \<noteq> a \<and> P b) xs = filter P xs" using Cons.prems by (intro filter_cong) auto
    then show ?thesis using True by simp
  next
    case False
    then show ?thesis using Cons by auto
  qed
qed simp

lemma oper_refs_user:
  assumes "distinct (user_list s)" "a \<in> set (user_list s)"
  shows "oper_refs s q = refs_without s a q + (if user_oper s a = Some q then 1 else 0)"
  using length_filter_split [OF assms, of "\<lambda>b. user_oper s b = Some q"] by (simp add: oper_refs_def refs_without_def stored_refs_def)

definition oper_write :: "net \<Rightarrow> net \<Rightarrow> bool" where
  "oper_write s' s \<longleftrightarrow> (\<exists>M l o' r. s' = s\<lparr>conf_opers := M, client_oper_list := l, oper_list := o', user_regs := r\<rparr>)"

lemma oper_writeI:
  assumes "s' = s\<lparr>conf_opers := M, client_oper_list := l, oper_list := o', user_regs := r\<rparr>"
  shows "oper_write s' s"
  using assms unfolding oper_write_def by blast

lemma oper_write_refl [simp]: "oper_write s s"
  by (rule oper_writeI [where M = "conf_opers s" and l = "client_oper_list s" and o' = "oper_list s" and r = "user_regs s"]) simp

lemma oper_write_step [simp]:
  assumes "oper_write t s"
  shows "oper_write (t\<lparr>conf_opers := M\<rparr>) s" "oper_write (t\<lparr>client_oper_list := l\<rparr>) s" "oper_write (t\<lparr>oper_list := o'\<rparr>) s"
    "oper_write (t\<lparr>user_regs := r\<rparr>) s"
proof -
  obtain M0 l0 o0 r0 where t: "t = s\<lparr>conf_opers := M0, client_oper_list := l0, oper_list := o0, user_regs := r0\<rparr>"
    using assms unfolding oper_write_def by blast
  show "oper_write (t\<lparr>conf_opers := M\<rparr>) s" by (rule oper_writeI [where M = M and l = l0 and o' = o0 and r = r0]) (simp add: t)
  show "oper_write (t\<lparr>client_oper_list := l\<rparr>) s" by (rule oper_writeI [where M = M0 and l = l and o' = o0 and r = r0]) (simp add: t)
  show "oper_write (t\<lparr>oper_list := o'\<rparr>) s" by (rule oper_writeI [where M = M0 and l = l0 and o' = o' and r = r0]) (simp add: t)
  show "oper_write (t\<lparr>user_regs := r\<rparr>) s" by (rule oper_writeI [where M = M0 and l = l0 and o' = o0 and r = r]) (simp add: t)
qed

lemma oper_write_fields:
  assumes "oper_write s' s"
  shows "user_list s' = user_list s" "clients s' = clients s" "user_oper s' = user_oper s" "user_link s' = user_link s"
    "conf_oper_list s' = conf_oper_list s"
  using assms by (auto simp: oper_write_def user_oper_def user_link_def get_user_def fun_eq_iff)

text \<open>Every block is counted for the references without the user's, and once more for the user's own.\<close>

definition released :: "net \<Rightarrow> addr \<Rightarrow> addr option \<Rightarrow> net \<Rightarrow> bool" where
  "released s a p s' \<longleftrightarrow> oper_write s' s \<and> listed_opers s' \<and> user_regs_ok s' \<and>
     (\<forall>q. counted (conf_opers s') q (refs_without s' a q + (if p = Some q then 1 else 0)))"

context env_ok
begin

lemma store_client_oper_runs:
  assumes rel: "released s a (Some p) t" and cl: "clients t a = Some cl" "user cl = Some u" "oper u = Some p" "uplink cl = Some v" "clients t v = Some up"
  shows "runs (store_client_oper E a t) (released s a (Some p))"
proof -
  have c: "\<And>q. counted (conf_opers t) q (refs_without t a q + (if Some p = Some q then 1 else 0))" using rel by (simp add: released_def)
  obtain co where co: "conf_opers t p = Some co" "int (refs_without t a p + 1) \<le> refcount co"
    using c [of p] by (auto simp: counted_def)
  obtain x where run: "store_client_oper E a t = Some (t\<lparr>conf_opers := (conf_opers t)(p \<mapsto> co\<lparr>refcount := refcount co + 1\<rparr>),
      client_oper_list := dlinkAdd (coper_lib E) x (client_oper_list t)\<rparr>)" and x: "co_oper x = p"
    using cl co by (simp add: store_client_oper_def Let_def)
  let ?t = "t\<lparr>conf_opers := (conf_opers t)(p \<mapsto> co\<lparr>refcount := refcount co + 1\<rparr>), client_oper_list := dlinkAdd (coper_lib E) x (client_oper_list t)\<rparr>"
  have r: "refs_without ?t a q = refs_without t a q + (if q = p then 1 else 0)" for q
    using x by (simp add: refs_without_def stored_refs_Add)
  have "counted (conf_opers ?t) q (refs_without ?t a q + (if Some p = Some q then 1 else 0))" for q
    unfolding r using c [of q] co by (auto simp: counted_def)
  moreover have "oper_write ?t s" using rel by (simp add: released_def)
  moreover have "listed_opers ?t" "user_regs_ok ?t" using rel co by (auto simp: released_def listed_opers_def user_regs_ok_def)
  ultimately show ?thesis using run by (simp add: released_def)
qed

lemma release_user_runs:
  assumes ok: "opers_ok s" and a: "a \<in> set (user_list s)" "distinct (user_list s)"
    and cl: "clients s a = Some cl" "user cl = Some u" "uplink cl = Some v" "clients s v = Some up"
  shows "runs (release_user E a split s) (released s a None)"
proof -
  have u: "get_user a s = Some u" using cl by (simp add: get_user_def)
  have o': "user_oper s a = oper u" "user_link s a = user_reg u" using user_projs [OF u] by auto
  have 0: "released s a (oper u) s"
    using ok oper_refs_user [OF a(2,1)] o' by (auto simp: released_def opers_ok_alt)
  have 1: "runs (if split \<and> split_oper_time (config_file E) > 0 \<and> oper u \<noteq> None then store_client_oper E a s else Some s) (released s a (oper u))"
    using 0 store_client_oper_runs [of s a _ s cl u v up] cl by (cases "oper u") auto
  have 2: "runs (case user_reg u of None \<Rightarrow> Some t | Some r \<Rightarrow> do { rg \<leftarrow> user_regs t r;
      Some (t\<lparr>user_regs := (user_regs t)(r \<mapsto> rg\<lparr>reg_users := find_destroy (lib E) a (reg_users rg)\<rparr>)\<rparr>) }) (released s a (oper u))"
    if t: "released s a (oper u) t" for t
  proof (cases "user_reg u")
    case (Some r)
    have f: "user_list t = user_list s" "user_link t = user_link s" using t oper_write_fields [of t s] by (auto simp: released_def)
    have "user_regs_ok t" using t by (simp add: released_def)
    then obtain rg where rg: "user_regs t r = Some rg"
      using f Some a(1) o'(2) unfolding user_regs_ok_def by (metis not_None_eq)
    show ?thesis
      using t rg Some by (auto simp: released_def listed_opers_def user_regs_ok_def refs_without_def)
  qed (use t in simp)
  have 3: "runs (case oper u of None \<Rightarrow> Some t | Some p \<Rightarrow> deallocate_conf_oper p (t\<lparr>oper_list := find_destroy (lib E) a (oper_list t)\<rparr>))
      (released s a None)" if t: "released s a (oper u) t" for t
  proof (cases "oper u")
    case (Some p)
    let ?t = "t\<lparr>oper_list := find_destroy (lib E) a (oper_list t)\<rparr>"
    let ?n = "\<lambda>q. refs_without t a q + (if Some p = Some q then 1 else 0)"
    have "\<And>q. counted (conf_opers ?t) q (?n q)" "0 < ?n p" "listed_opers ?t" using t Some by (auto simp: released_def listed_opers_def)
    from deallocate_conf_oper_runs [OF this] have "runs (deallocate_conf_oper p ?t) (released s a None)"
    proof (rule runs_mono)
      fix w assume w: "(\<exists>M. w = ?t\<lparr>conf_opers := M\<rparr>) \<and> listed_opers w \<and> (\<forall>q. counted (conf_opers w) q (if q = p then ?n q - 1 else ?n q))"
      then obtain M where M: "w = ?t\<lparr>conf_opers := M\<rparr>" by blast
      have "refs_without w a q = refs_without t a q" for q by (simp add: M refs_without_def)
      then have "counted (conf_opers w) q (refs_without w a q)" for q using w by (auto dest: spec [of _ q] split: if_splits)
      then show "released s a None w" using w t by (auto simp: released_def M user_regs_ok_def)
    qed
    then show ?thesis using Some by simp
  qed (use t in simp)
  show ?thesis
    unfolding release_user_def u bind.bind_lunit by (intro runs_seq [OF 1] runs_seq [OF 2] 3)
qed

end

subsection \<open>A user leaves\<close>

lemma links_okD:
  assumes "links_ok s"
  shows "distinct (user_list s)" "distinct (server_list s)"
    "a \<in> set (user_list s) \<Longrightarrow> hashed s a \<and> kind s a = Some (True, False, False) \<and> \<not> dead s a \<and>
       (\<exists>v. parent s a = Some v \<and> v \<in> set (server_list s) \<and> v < a)"
    "a \<in> set (server_list s) \<Longrightarrow> hashed s a \<and> kind s a = Some (False, True, False)"
    "a \<in> set (server_list s) \<Longrightarrow> parent s a = Some v \<Longrightarrow> v \<in> set (server_list s) \<and> v < a"
    "a \<in> set (server_list s) \<Longrightarrow> server_lists s a = Some (us, vs) \<Longrightarrow> distinct us \<and> distinct vs \<and>
       (\<forall>b. b \<in> set us \<longleftrightarrow> b \<in> set (user_list s) \<and> parent s b = Some a) \<and>
       (\<forall>b. b \<in> set vs \<longleftrightarrow> b \<in> set (server_list s) \<and> parent s b = Some a)"
    "a \<in> set (exited_list s) \<Longrightarrow> (\<exists>x y. kind s a = Some (x, y, False)) \<and> \<not> hashed s a"
    "distinct (exited_list s)"
  using assms unfolding links_ok_def by blast+

text \<open>One client, a user or a server with nothing behind it, is taken off its list and off the list of its uplink.\<close>

definition client_gone :: "net \<Rightarrow> addr \<Rightarrow> net \<Rightarrow> bool" where
  "client_gone s a s' \<longleftrightarrow>
     keys s' = keys s \<and> kind s' = kind s \<and> parent s' = parent s \<and> (\<forall>b. b \<noteq> a \<longrightarrow> dead s' b = dead s b) \<and> dead s' a \<and>
     distinct (user_list s') \<and> set (user_list s') = set (user_list s) - {a} \<and>
     distinct (server_list s') \<and> set (server_list s') = set (server_list s) - {a} \<and>
     service_list s' = service_list s \<and> set (exited_list s') = insert a (set (exited_list s)) \<and> distinct (exited_list s') \<and>
     (\<forall>b us vs. b \<in> set (server_list s) \<longrightarrow> server_lists s' b = Some (us, vs) \<longrightarrow>
        (\<exists>us0 vs0. server_lists s b = Some (us0, vs0) \<and> distinct us \<and> distinct vs \<and> set us = set us0 - {a} \<and> set vs = set vs0 - {a})) \<and>
     (\<forall>b. hashed s' b \<longleftrightarrow> hashed s b \<and> b \<noteq> a)"

lemma links_ok_gone:
  assumes ok: "links_ok s" and g: "client_gone s a s'" and k: "\<exists>x y. kind s a = Some (x, y, False)"
    and leaf: "\<And>b. b \<in> set (user_list s) \<union> set (server_list s) \<Longrightarrow> parent s b \<noteq> Some a"
  shows "links_ok s'"
proof -
  note D = links_okD [OF ok]
  have G: "keys s' = keys s" "kind s' = kind s" "parent s' = parent s" "\<And>b. b \<noteq> a \<Longrightarrow> dead s' b = dead s b"
    "distinct (user_list s')" "set (user_list s') = set (user_list s) - {a}"
    "distinct (server_list s')" "set (server_list s') = set (server_list s) - {a}"
    "set (exited_list s') = insert a (set (exited_list s))" "\<And>b. hashed s' b \<longleftrightarrow> hashed s b \<and> b \<noteq> a"
    "distinct (exited_list s')"
    using g by (auto simp: client_gone_def)
  have L: "\<exists>us0 vs0. server_lists s b = Some (us0, vs0) \<and> distinct us \<and> distinct vs \<and> set us = set us0 - {a} \<and> set vs = set vs0 - {a}"
    if "b \<in> set (server_list s)" "server_lists s' b = Some (us, vs)" for b us vs
    using g that by (simp add: client_gone_def)
  have lists: "distinct us \<and> distinct vs \<and> (\<forall>b. b \<in> set us \<longleftrightarrow> b \<in> set (user_list s') \<and> parent s' b = Some c) \<and>
       (\<forall>b. b \<in> set vs \<longleftrightarrow> b \<in> set (server_list s') \<and> parent s' b = Some c)"
    if h: "c \<in> set (server_list s')" "server_lists s' c = Some (us, vs)" for c us vs
  proof -
    have c: "c \<in> set (server_list s)" using h(1) G(8) by simp
    obtain us0 vs0 where l: "server_lists s c = Some (us0, vs0)" "distinct us" "distinct vs" "set us = set us0 - {a}" "set vs = set vs0 - {a}"
      using L [OF c h(2)] by blast
    then show ?thesis using D(6) [OF c l(1)] G by auto
  qed
  have users: "hashed s' b \<and> kind s' b = Some (True, False, False) \<and> \<not> dead s' b \<and>
      (\<exists>v. parent s' b = Some v \<and> v \<in> set (server_list s') \<and> v < b)" if "b \<in> set (user_list s')" for b
    using D(3) [of b] that G leaf [of b] by auto
  have servers: "hashed s' b \<and> kind s' b = Some (False, True, False) \<and> (\<forall>v. parent s' b = Some v \<longrightarrow> v \<in> set (server_list s') \<and> v < b)"
    if "b \<in> set (server_list s')" for b
    using D(4) [of b] D(5) [of b] that G leaf [of b] by auto
  have "(\<exists>x y. kind s' b = Some (x, y, False)) \<and> \<not> hashed s' b" if "b \<in> set (exited_list s')" for b
    using D(7) [of b] that G k by auto
  then show ?thesis unfolding links_ok_def using G(5,7,11) users servers lists by blast
qed

lemma listed_ok_gone:
  assumes "listed_ok s" "client_gone s a s'"
  shows "listed_ok s'"
  using assms unfolding listed_ok_def client_gone_def by auto

lemma alloc_ok_gone:
  assumes "alloc_ok s" "client_gone s a s'" "next_addr s' = next_addr s" "\<And>c. chan_key s' c = None \<or> chan_key s' c = chan_key s c"
    "\<And>m. members s' m = None \<or> members s' m = members s m"
  shows "alloc_ok s'"
  unfolding alloc_ok_def
proof (intro allI impI)
  fix x assume "next_addr s' \<le> x"
  then have "keys s x = None \<and> chan_key s x = None \<and> members s x = None" using assms(1,3) by (auto simp: alloc_ok_def)
  then show "keys s' x = None \<and> chan_key s' x = None \<and> members s' x = None"
    using assms(2) assms(4) [of x] assms(5) [of x] by (auto simp: client_gone_def)
qed

text \<open>What an exit leaves, for a set of clients that go.\<close>

definition exited :: "addr set \<Rightarrow> net \<Rightarrow> net \<Rightarrow> bool" where
  "exited P s s' \<longleftrightarrow> net_ok s' \<and> keys s' = keys s \<and> kind s' = kind s \<and> parent s' = parent s \<and>
     set (user_list s') = set (user_list s) - P \<and> set (server_list s') = set (server_list s) - P \<and>
     service_list s' = service_list s \<and> (\<forall>b. b \<in> set (service_list s) \<longrightarrow> hashed s' b = hashed s b) \<and>
     next_addr s' = next_addr s \<and> server_p s' = server_p s \<and>
     (\<forall>b. b \<in> set (server_list s') \<longrightarrow> dead s' b = dead s b) \<and>
     (\<forall>m. members s' m = (case members s m of None \<Rightarrow> None | Some mp \<Rightarrow> if mclient mp \<in> P then None else Some mp)) \<and>
     (\<forall>c. chan_key s' c = None \<or> chan_key s' c = chan_key s c) \<and>
     (\<forall>b. b \<in> P \<longrightarrow> dead s' b \<and> b \<in> set (exited_list s')) \<and> (\<forall>b. b \<in> set (exited_list s) \<longrightarrow> b \<in> set (exited_list s')) \<and>
     (\<forall>b. dead s b \<longrightarrow> dead s' b)"

lemma exitedD:
  assumes "exited P s s'"
  shows "net_ok s'" "keys s' = keys s" "kind s' = kind s" "parent s' = parent s" "set (user_list s') = set (user_list s) - P"
    "set (server_list s') = set (server_list s) - P" "service_list s' = service_list s"
    "b \<in> set (service_list s) \<Longrightarrow> hashed s' b = hashed s b" "next_addr s' = next_addr s" "server_p s' = server_p s"
    "b \<in> set (server_list s') \<Longrightarrow> dead s' b = dead s b"
    "members s' m = (case members s m of None \<Rightarrow> None | Some mp \<Rightarrow> if mclient mp \<in> P then None else Some mp)"
    "chan_key s' c = None \<or> chan_key s' c = chan_key s c"
    "b \<in> P \<Longrightarrow> dead s' b" "b \<in> P \<Longrightarrow> b \<in> set (exited_list s')" "b \<in> set (exited_list s) \<Longrightarrow> b \<in> set (exited_list s')" "dead s b \<Longrightarrow> dead s' b"
  using assms unfolding exited_def by blast+

lemma exited_trans:
  assumes "exited P s s'" "exited Q s' s''"
  shows "exited (P \<union> Q) s s''"
proof -
  note A = exitedD [OF assms(1)] and B = exitedD [OF assms(2)]
  have "members s'' m = (case members s m of None \<Rightarrow> None | Some mp \<Rightarrow> if mclient mp \<in> P \<union> Q then None else Some mp)" for m
    using A(12) [of m] B(12) [of m] by (auto split: option.splits if_splits)
  moreover have "chan_key s'' c = None \<or> chan_key s'' c = chan_key s c" for c using A(13) [of c] B(13) [of c] by auto
  moreover have "dead s'' b = dead s b" if "b \<in> set (server_list s'')" for b using that A(11) B(6,11) by auto
  ultimately show ?thesis using A(2-10,14-) B(1-10,14-) unfolding exited_def by auto
qed

lemma exited_empty: "net_ok s \<Longrightarrow> exited {} s s"
  by (auto simp: exited_def split: option.splits)

text \<open>The client marked as dead.\<close>

definition dead_client :: "addr \<Rightarrow> client \<Rightarrow> net \<Rightarrow> net" where
  "dead_client a cl s = s\<lparr>clients := (clients s)(a \<mapsto> cl\<lparr>flags := flags cl OR FLAGS_DEAD\<rparr>)\<rparr>"

lemma set_dead_eq: "clients s a = Some cl \<Longrightarrow> set_dead a s = Some (dead_client a cl s)"
  by (simp add: set_dead_def upd_client_def dead_client_def)

lemma dead_client_proj:
  assumes "clients s a = Some cl"
  shows "keys (dead_client a cl s) = keys s" "kind (dead_client a cl s) = kind s" "parent (dead_client a cl s) = parent s"
    "dead (dead_client a cl s) = (dead s)(a := True)" "server_lists (dead_client a cl s) = server_lists s"
    "user_oper (dead_client a cl s) = user_oper s" "user_link (dead_client a cl s) = user_link s"
    "user_chans (dead_client a cl s) = user_chans s" "service_chans (dead_client a cl s) = service_chans s"
    "chan_key (dead_client a cl s) = chan_key s" "chan_lists (dead_client a cl s) = chan_lists s"
    "chan_services (dead_client a cl s) = chan_services s" "get_user b (dead_client a cl s) = get_user b s"
    "get_server b (dead_client a cl s) = get_server b s"
proof -
  have "(flags cl OR FLAGS_DEAD) AND FLAGS_DEAD \<noteq> 0" by (simp add: bit.conj_disj_distrib2)
  then show "dead (dead_client a cl s) = (dead s)(a := True)"
    using assms by (auto simp: dead_def dead_client_def fun_eq_iff)
qed (use assms in \<open>auto simp: projection_defs dead_client_def fun_eq_iff\<close>)

lemma dead_client_fields [simp]:
  "chans (dead_client a cl s) = chans s" "members (dead_client a cl s) = members s" "next_addr (dead_client a cl s) = next_addr s"
  "name_table (dead_client a cl s) = name_table s" "uid_table (dead_client a cl s) = uid_table s"
  "channel_table (dead_client a cl s) = channel_table s" "channel_list (dead_client a cl s) = channel_list s"
  "user_list (dead_client a cl s) = user_list s" "server_list (dead_client a cl s) = server_list s"
  "service_list (dead_client a cl s) = service_list s" "exited_list (dead_client a cl s) = exited_list s"
  "conf_opers (dead_client a cl s) = conf_opers s" "client_oper_list (dead_client a cl s) = client_oper_list s"
  "conf_oper_list (dead_client a cl s) = conf_oper_list s" "user_regs (dead_client a cl s) = user_regs s"
  "server_p (dead_client a cl s) = server_p s" "deopped_list (dead_client a cl s) = deopped_list s"
  by (simp_all add: dead_client_def)

lemma chans_ok_cong:
  assumes "chan_key s' = chan_key s" "channel_table s' = channel_table s" "channel_list s' = channel_list s" "members s' = members s"
    "chan_lists s' = chan_lists s" "user_chans s' = user_chans s" "user_list s' = user_list s" "chan_services s' = chan_services s"
    "service_chans s' = service_chans s" "service_list s' = service_list s" "deopped_list s' = deopped_list s"
  shows "chans_ok s' = chans_ok s"
  using assms chtable_ok_cong [of s' s] members_ok_cong [of s' s] services_ok_cong [of s' s] by (simp add: chans_ok_def)

lemma table_frame_proj:
  assumes "table_frame y x"
  shows "keys y = keys x" "kind y = kind x" "parent y = parent x" "dead y = dead x" "server_lists y = server_lists x"
    "user_oper y = user_oper x" "user_link y = user_link x" "user_chans y = user_chans x" "service_chans y = service_chans x"
    "chan_key y = chan_key x" "chan_lists y = chan_lists x" "chan_services y = chan_services x"
  using assms by (auto simp: table_frame_def projection_defs fun_eq_iff)

lemma table_frame_fields:
  assumes "table_frame y x"
  shows "clients y = clients x" "chans y = chans x" "members y = members x" "next_addr y = next_addr x"
    "channel_table y = channel_table x" "channel_list y = channel_list x" "user_list y = user_list x" "server_list y = server_list x"
    "service_list y = service_list x" "exited_list y = exited_list x" "conf_opers y = conf_opers x"
    "client_oper_list y = client_oper_list x" "conf_oper_list y = conf_oper_list x" "user_regs y = user_regs x" "server_p y = server_p x"
    "deopped_list y = deopped_list x"
  using assms by (auto simp: table_frame_def)

lemma members_ok_shrink:
  assumes "members_ok w" "members y = members w" "chan_lists y = chan_lists w" "user_chans y = user_chans w"
    "set (user_list y) = set (user_list w) - {a}" "\<And>m mp. members w m = Some mp \<Longrightarrow> mclient mp \<noteq> a"
  shows "members_ok y"
  using assms unfolding members_ok_def by (simp only:) blast

lemma client_goneI:
  assumes ok: "links_ok s" and p: "keys s' = keys s" "kind s' = kind s" "parent s' = parent s" "dead s' = (dead s)(a := True)"
    and ul: "distinct (user_list s')" "set (user_list s') = set (user_list s) - {a}"
    and vl: "distinct (server_list s')" "set (server_list s') = set (server_list s) - {a}"
    and rest: "service_list s' = service_list s" "set (exited_list s') = insert a (set (exited_list s))" "distinct (exited_list s')"
      "\<And>b. hashed s' b \<longleftrightarrow> hashed s b \<and> b \<noteq> a"
    and up: "case parent s a of None \<Rightarrow> server_lists s' = server_lists s
      | Some v \<Rightarrow> \<exists>us vs us0 vs0. server_lists s v = Some (us0, vs0) \<and> server_lists s' = (server_lists s)(v \<mapsto> (us, vs)) \<and>
          set us = set us0 - {a} \<and> set vs = set vs0 - {a} \<and> distinct us \<and> distinct vs"
  shows "client_gone s a s'"
proof -
  have L: "\<exists>us0 vs0. server_lists s b = Some (us0, vs0) \<and> distinct us \<and> distinct vs \<and> set us = set us0 - {a} \<and> set vs = set vs0 - {a}"
    if b: "b \<in> set (server_list s)" "server_lists s' b = Some (us, vs)" for b us vs
  proof (cases "parent s a = Some b")
    case True
    then show ?thesis using up b(2) by auto
  next
    case False
    have l: "server_lists s b = Some (us, vs)"
    proof (cases "parent s a")
      case None
      then show ?thesis using up b(2) by simp
    next
      case (Some v)
      then obtain us1 vs1 where "server_lists s' = (server_lists s)(v \<mapsto> (us1, vs1))" using up by auto
      then show ?thesis using b(2) Some False by simp
    qed
    have "distinct us" "distinct vs" "a \<notin> set us" "a \<notin> set vs" using links_okD(6) [OF ok b(1) l] False by simp_all
    then show ?thesis using l by simp
  qed
  show ?thesis
    unfolding client_gone_def
  proof (intro conjI allI impI)
    fix b us vs assume "b \<in> set (server_list s)" "server_lists s' b = Some (us, vs)"
    then show "\<exists>us0 vs0. server_lists s b = Some (us0, vs0) \<and> distinct us \<and> distinct vs \<and> set us = set us0 - {a} \<and> set vs = set vs0 - {a}"
      by (rule L)
  qed (use p ul vl rest in simp_all)
qed

text \<open>The last step of an exit: the client was unlinked in \<open>x\<close> and is taken out of the tables.\<close>

lemma exited_gone:
  assumes ok: "net_ok s" and g: "client_gone s a y" and leaf: "\<And>b. b \<in> set (user_list s) \<union> set (server_list s) \<Longrightarrow> parent s b \<noteq> Some a"
    and a: "a \<in> set (user_list s) \<union> set (server_list s)"
    and tabs: "tables_ok y" and chans: "chans_ok y" and opers: "opers_ok y"
    and rest: "next_addr y = next_addr s" "server_p y = server_p s"
      "\<And>m. members y m = (case members s m of None \<Rightarrow> None | Some mp \<Rightarrow> if mclient mp \<in> {a} then None else Some mp)"
      "\<And>c. chan_key y c = None \<or> chan_key y c = chan_key s c"
  shows "exited {a} s y"
proof -
  have D: "links_ok s" "listed_ok s" "alloc_ok s" using ok by blast+
  have h: "hashed s a" using a links_okD(3,4) [OF D(1)] by blast
  have k: "\<exists>x y. kind s a = Some (x, y, False)" using a links_ok_kind [OF D(1)] by blast
  have srv: "a \<notin> set (service_list s)" using a links_ok_kind [OF D(1), of a] D(2) by (auto simp: listed_ok_def)
  have m: "members y m = None \<or> members y m = members s m" for m using rest(3) [of m] by (auto split: option.splits)
  have "links_ok y" "listed_ok y" "alloc_ok y"
    using links_ok_gone [OF D(1) g k leaf] listed_ok_gone [OF D(2) g] alloc_ok_gone [OF D(3) g rest(1,4) m] by auto
  then have "net_ok y" using tabs chans opers by (simp add: net_ok_alt clients_ok_def)
  moreover have "dead y b" if "dead s b" for b using g that by (cases "b = a") (simp_all add: client_gone_def)
  ultimately show ?thesis using g rest srv unfolding exited_def client_gone_def by auto
qed

context env_ok
begin

lemma leave_all_chans:
  assumes "chans_ok s" "distinct ms" "\<And>m. m \<in> set ms \<Longrightarrow> members s m \<noteq> None"
  shows "runs (foreach (del_chmember E) ms s) (\<lambda>s'. chans_ok s' \<and> same_clients s' s \<and> next_addr s' = next_addr s \<and>
    members s' = (\<lambda>m. if m \<in> set ms then None else members s m) \<and> (\<forall>c. chan_key s' c = None \<or> chan_key s' c = chan_key s c))"
  using assms
proof (induction ms arbitrary: s)
  case (Cons m ms)
  then obtain mp where mp: "members s m = Some mp" by auto
  obtain t where t: "del_chmember E m s = Some t" "chans_ok t" "members t = (members s)(m := None)" "same_clients t s" "next_addr t = next_addr s"
    "\<And>c. chan_key t c = chan_key s c \<or> chan_key t c = None"
    by (rule del_chmember_ok [OF Cons.prems(1) mp]) blast
  have "runs (foreach (del_chmember E) ms t) (\<lambda>s'. chans_ok s' \<and> same_clients s' t \<and> next_addr s' = next_addr t \<and>
      members s' = (\<lambda>m. if m \<in> set ms then None else members t m) \<and> (\<forall>c. chan_key s' c = None \<or> chan_key s' c = chan_key t c))"
    by (rule Cons.IH) (use t Cons.prems in auto)
  then have "runs (foreach (del_chmember E) ms t) (\<lambda>s'. chans_ok s' \<and> same_clients s' s \<and> next_addr s' = next_addr s \<and>
    members s' = (\<lambda>x. if x \<in> set (m # ms) then None else members s x) \<and> (\<forall>c. chan_key s' c = None \<or> chan_key s' c = chan_key s c))"
  proof (rule runs_mono)
    fix x assume x: "chans_ok x \<and> same_clients x t \<and> next_addr x = next_addr t \<and>
      members x = (\<lambda>m. if m \<in> set ms then None else members t m) \<and> (\<forall>c. chan_key x c = None \<or> chan_key x c = chan_key t c)"
    then have "\<forall>c. chan_key x c = None \<or> chan_key x c = chan_key s c" using t(6) by metis
    then show "chans_ok x \<and> same_clients x s \<and> next_addr x = next_addr s \<and>
      members x = (\<lambda>y. if y \<in> set (m # ms) then None else members s y) \<and> (\<forall>c. chan_key x c = None \<or> chan_key x c = chan_key s c)"
      using x t(3-5) same_clients_trans by (auto simp: fun_eq_iff)
  qed
  then show ?case using t(1) by simp
qed simp

lemma unlink_user_runs:
  assumes ul: "a \<in> set (user_list w)" "distinct (user_list w)" and cl: "clients w a = Some cl" "uplink cl = Some v"
    and v: "get_server v w = Some vv" "a \<in> set (server_users vv)" "distinct (server_users vv)"
  shows "runs (unlink_user E a w) (\<lambda>x. \<exists>l us. x = set_server v (vv\<lparr>server_users := us\<rparr>)
      (w\<lparr>user_list := l, exited_list := dlinkAdd (rb_ptrs (lib E)) a (exited_list w)\<rparr>) \<and>
    set l = set (user_list w) - {a} \<and> distinct l \<and> set us = set (server_users vv) - {a} \<and> distinct us)"
proof -
  let ?l = "dlinkDelete (rb_ptrs (lib E)) a (user_list w)" and ?us = "dlinkDelete (rb_ptrs (lib E)) a (server_users vv)"
  let ?w = "w\<lparr>user_list := ?l, exited_list := dlinkAdd (rb_ptrs (lib E)) a (exited_list w)\<rparr>"
  have "get_server v ?w = Some vv" using v(1) by (simp add: get_server_def)
  then have "unlink_user E a w = Some (set_server v (vv\<lparr>server_users := ?us\<rparr>) ?w)"
    using assms by (simp add: unlink_user_def dl_delete_def Let_def upd_server_eq [of v ?w vv])
  then show ?thesis using ul(2) v(3) by (simp, intro exI [of _ ?l] exI [of _ ?us]) simp
qed

lemma opers_ok_released:
  assumes rel: "released s a None t" and ul: "distinct (user_list s)" "distinct (user_list y)" "set (user_list y) = set (user_list s) - {a}"
    and y: "user_oper y = user_oper t" "user_link y = user_link t" "client_oper_list y = client_oper_list t" "conf_oper_list y = conf_oper_list t"
      "conf_opers y = conf_opers t" "user_regs y = user_regs t"
  shows "opers_ok y"
proof -
  have f: "user_list t = user_list s" using rel oper_write_fields(1) by (auto simp: released_def)
  have "oper_refs y q = refs_without t a q" for q
  proof -
    have "{x. user_oper t x = Some q} \<inter> (set (user_list s) - {a}) = {x. x \<noteq> a \<and> user_oper t x = Some q} \<inter> set (user_list s)" by auto
    then show ?thesis
      using ul y f by (simp add: oper_refs_def refs_without_def stored_refs_def distinct_length_filter)
  qed
  then show ?thesis
    using rel y f ul(3) unfolding opers_ok_alt released_def listed_opers_def user_regs_ok_def by auto
qed

lemma exit_user_tail:
  assumes ok: "net_ok s" and a: "a \<in> set (user_list s)" and v: "parent s a = Some v" and u: "get_user a s = Some u"
    and gv: "get_server v s = Some vv" and cl: "clients s a = Some cl"
    and t: "released ((dead_client a cl s)\<lparr>sendq := q\<rparr>) a None t"
  shows "runs (do { u \<leftarrow> get_user a t; w \<leftarrow> foreach (del_chmember E) (channels u) t; unlink_user E a w })
      (\<lambda>x. tables_ok x \<and> hashed x a \<and>
    (\<forall>y. table_frame y x \<longrightarrow> tables_ok y \<longrightarrow> (\<forall>b. hashed y b \<longleftrightarrow> hashed x b \<and> b \<noteq> a) \<longrightarrow> exited {a} s y))"
proof -
  let ?s2 = "(dead_client a cl s)\<lparr>sendq := q\<rparr>"
  note P1 = dead_client_proj [OF cl]
  have D: "tables_ok s" "members_ok s" "links_ok s" "opers_ok s" "alloc_ok s" "listed_ok s" "chans_ok s"
    using ok by (auto simp: net_ok_alt clients_ok_def chans_ok_def)
  note K = links_okD [OF D(3)]
  obtain M l0 o0 r0 where tt: "t = ?s2\<lparr>conf_opers := M, client_oper_list := l0, oper_list := o0, user_regs := r0\<rparr>"
    using t by (auto simp: released_def oper_write_def)
  have ut: "get_user a t = Some u" using u P1(13) by (simp add: tt)
  have ms: "distinct (channels u)" "\<And>m. m \<in> set (channels u) \<longleftrightarrow> (\<exists>mp. members s m = Some mp \<and> mclient mp = a)"
    using members_okD(4) [OF D(2), of a "channels u"] user_projs [OF u] by (auto simp: user_match_def)
  have ct: "chans_ok t" using chans_ok_cong [of t s] D(7) P1 by (simp add: tt)
  have leave: "runs (foreach (del_chmember E) (channels u) t) (\<lambda>s'. chans_ok s' \<and> same_clients s' t \<and> next_addr s' = next_addr t \<and>
    members s' = (\<lambda>m. if m \<in> set (channels u) then None else members t m) \<and> (\<forall>c. chan_key s' c = None \<or> chan_key s' c = chan_key t c))"
    by (rule leave_all_chans [OF ct ms(1)]) (use ms(2) in \<open>auto simp: tt\<close>)
  show ?thesis
    unfolding ut bind.bind_lunit
  proof (rule runs_seq [OF leave])
    fix w assume w: "chans_ok w \<and> same_clients w t \<and> next_addr w = next_addr t \<and>
      members w = (\<lambda>m. if m \<in> set (channels u) then None else members t m) \<and> (\<forall>c. chan_key w c = None \<or> chan_key w c = chan_key t c)"
    have W: "keys w = keys s" "kind w = kind s" "parent w = parent s" "dead w = (dead s)(a := True)" "server_lists w = server_lists s"
      "user_oper w = user_oper t" "user_link w = user_link t" "name_table w = name_table s" "uid_table w = uid_table s"
      "user_list w = user_list s" "server_list w = server_list s" "exited_list w = exited_list s" "service_list w = service_list s"
      "conf_opers w = conf_opers t" "user_regs w = user_regs t" "conf_oper_list w = conf_oper_list t" "client_oper_list w = client_oper_list t"
      "server_p w = server_p s"
      using w P1 by (simp_all add: same_clients_def tt)
    obtain cl' where cl': "clients w a = Some cl'" "uplink cl' = Some v" using fun_cong [OF W(3), of a] v by (auto simp: parent_def bind_eq_Some_conv)
    obtain vv' where vv': "get_server v w = Some vv'" "server_lists s v = Some (server_users vv', servers vv')"
      using fun_cong [OF W(5), of v] gv by (auto simp: server_lists_def)
    have vl: "v \<in> set (server_list s)" using K(3) [OF a] v by auto
    have su: "a \<in> set (server_users vv')" "distinct (server_users vv')" "distinct (servers vv')" "a \<notin> set (servers vv')"
      using K(6) [OF vl vv'(2)] a v K(3) [OF a] K(4) [of a] by auto
    have ul: "a \<in> set (user_list w)" "distinct (user_list w)" using a K(1) W by auto
    show "runs (unlink_user E a w) (\<lambda>x. tables_ok x \<and> hashed x a \<and>
      (\<forall>y. table_frame y x \<longrightarrow> tables_ok y \<longrightarrow> (\<forall>b. hashed y b \<longleftrightarrow> hashed x b \<and> b \<noteq> a) \<longrightarrow> exited {a} s y))"
    proof (rule runs_mono [OF unlink_user_runs [OF ul cl' vv'(1) su(1,2)]], elim exE conjE, intro conjI allI impI)
      fix x l us
      assume x: "x = set_server v (vv'\<lparr>server_users := us\<rparr>) (w\<lparr>user_list := l, exited_list := dlinkAdd (rb_ptrs (lib E)) a (exited_list w)\<rparr>)"
        and l: "set l = set (user_list w) - {a}" "distinct l" and us: "set us = set (server_users vv') - {a}" "distinct us"
      let ?w = "w\<lparr>user_list := l, exited_list := dlinkAdd (rb_ptrs (lib E)) a (exited_list w)\<rparr>"
      have g: "get_server v ?w = Some vv'" using vv'(1) by simp
      note X = set_server_proj [OF g, where v = "vv'\<lparr>server_users := us\<rparr>", folded x]
      have X': "name_table x = name_table s" "uid_table x = uid_table s" "keys x = keys s" using X W by (simp_all add: x)
      show "tables_ok x" using D(1) tables_ok_cong X' by blast
      show "hashed x a" using K(3) [OF a] X' by (simp add: hashed_def)
      fix y assume y: "table_frame y x" "tables_ok y" "\<forall>b. hashed y b \<longleftrightarrow> hashed x b \<and> b \<noteq> a"
      note Y = table_frame_proj [OF y(1)] table_frame_fields [OF y(1)]
      have F: "user_list x = l" "server_list x = server_list s" "service_list x = service_list s" "exited_list x = dlinkAdd (rb_ptrs (lib E)) a (exited_list s)"
        "members x = members w" "next_addr x = next_addr w" "server_p x = server_p s" "conf_opers x = conf_opers t" "user_regs x = user_regs t"
        "conf_oper_list x = conf_oper_list t" "client_oper_list x = client_oper_list t" "chan_key x = chan_key w" "chan_lists x = chan_lists w"
        "chan_services x = chan_services w" "channel_table x = channel_table w" "channel_list x = channel_list w" "deopped_list x = deopped_list w"
        using W by (simp_all add: x)
      show "exited {a} s y"
      proof (rule exited_gone [OF ok _ _ _ y(2)])
        show "a \<in> set (user_list s) \<union> set (server_list s)" using a by simp
        show "parent s b \<noteq> Some a" if "b \<in> set (user_list s) \<union> set (server_list s)" for b
          using that K(3) [of b] K(5) [of b] K(3) [OF a] K(4) [of a] by auto
        show "client_gone s a y"
        proof (rule client_goneI [OF D(3)])
          show "keys y = keys s" "kind y = kind s" "parent y = parent s" "dead y = (dead s)(a := True)" using Y X W by simp_all
          show "distinct (user_list y)" "set (user_list y) = set (user_list s) - {a}" "distinct (server_list y)"
            "set (server_list y) = set (server_list s) - {a}" "service_list y = service_list s"
            "set (exited_list y) = insert a (set (exited_list s))" "distinct (exited_list y)"
            using Y F W l K(2,8) K(3) [OF a] K(4) [of a] K(7) [of a] by auto
          show "hashed y b \<longleftrightarrow> hashed s b \<and> b \<noteq> a" for b using y(3) X' by (simp add: hashed_def)
          have "server_lists y = (server_lists s)(v \<mapsto> (us, servers vv'))" using Y X W by simp
          then show "case parent s a of None \<Rightarrow> server_lists y = server_lists s
            | Some v \<Rightarrow> \<exists>us vs us0 vs0. server_lists s v = Some (us0, vs0) \<and> server_lists y = (server_lists s)(v \<mapsto> (us, vs)) \<and>
                set us = set us0 - {a} \<and> set vs = set vs0 - {a} \<and> distinct us \<and> distinct vs"
            using v vv'(2) us su by auto
        qed
        have "members_ok y"
        proof (rule members_ok_shrink [where w = w and a = a])
          show "members_ok w" using w by (simp add: chans_ok_def)
          show "mclient mp \<noteq> a" if "members w m = Some mp" for m mp using that w ms(2) [of m] by (auto simp: tt split: if_splits)
        qed (use Y X F W l in simp_all)
        moreover have "chtable_ok y" "services_ok y"
          using w chtable_ok_cong [of y w] services_ok_cong [of y w] Y X F W by (simp_all add: chans_ok_def)
        ultimately show "chans_ok y" by (simp add: chans_ok_def)
        show "opers_ok y" by (rule opers_ok_released [OF t]) (use Y X F W l K(1) in simp_all)
        show "next_addr y = next_addr s" "server_p y = server_p s" using Y F w by (simp_all add: tt)
        show "members y m = (case members s m of None \<Rightarrow> None | Some mp \<Rightarrow> if mclient mp \<in> {a} then None else Some mp)" for m
          using Y F w ms(2) [of m] by (auto simp: tt split: option.splits)
        show "chan_key y c = None \<or> chan_key y c = chan_key s c" for c using Y F w P1 by (simp add: tt)
      qed
    qed
  qed
qed

text \<open>What \<open>exit_user\<close> leaves, before the user is taken out of the client tables.\<close>

lemma exit_user_runs:
  assumes ok: "net_ok s" and a: "a \<in> set (user_list s)"
  shows "runs (exit_user E a split s) (\<lambda>x. tables_ok x \<and> hashed x a \<and>
    (\<forall>y. table_frame y x \<longrightarrow> tables_ok y \<longrightarrow> (\<forall>b. hashed y b \<longleftrightarrow> hashed x b \<and> b \<noteq> a) \<longrightarrow> exited {a} s y))"
proof -
  have D: "tables_ok s" "members_ok s" "links_ok s" "opers_ok s" "alloc_ok s" "listed_ok s" using ok by blast+
  note K = links_okD [OF D(3)]
  obtain v where v: "hashed s a" "kind s a = Some (True, False, False)" "\<not> dead s a" "parent s a = Some v" "v \<in> set (server_list s)" "v < a"
    using K(3) [OF a] by blast
  obtain cl u where cl: "clients s a = Some cl" "user cl = Some u" "uplink cl = Some v"
    using v(2,4) by (auto simp: kind_def parent_def bind_eq_Some_conv)
  obtain up vv where up: "clients s v = Some up" "server up = Some vv"
    using K(4) [OF v(5)] by (auto simp: kind_def)
  have u: "get_user a s = Some u" and gv: "get_server v s = Some vv" using cl up by (simp_all add: get_user_def get_server_def)
  let ?s1 = "dead_client a cl s"
  note P1 = dead_client_proj [OF cl(1)]
  obtain q where hook: "hook_do E HOOK_CLIENT_EXIT (ArgClient a) ArgNull ?s1 = Some (?s1\<lparr>sendq := q\<rparr>)"
    by (rule hook_do_passive [of HOOK_CLIENT_EXIT]) (simp_all add: passive_hooks_def)
  let ?s2 = "?s1\<lparr>sendq := q\<rparr>"
  have "opers_ok ?s2" using D(4) opers_ok_cong [of ?s2 s] P1 by simp
  then have rel: "runs (release_user E a split ?s2) (released ?s2 a None)"
    by (rule release_user_runs [where cl = "cl\<lparr>flags := flags cl OR FLAGS_DEAD\<rparr>" and u = u and v = v and up = up])
      (use a K(1) cl up v(6) in \<open>auto simp: dead_client_def\<close>)
  have "flags cl AND FLAGS_DEAD = 0" using v(3) cl(1) by (simp add: dead_def)
  then have run: "exit_user E a split s = do { t \<leftarrow> release_user E a split ?s2; u \<leftarrow> get_user a t;
      w \<leftarrow> foreach (del_chmember E) (channels u) t; unlink_user E a w }"
    using cl(1) hook by (simp add: exit_user_def set_dead_eq)
  have fin: "runs (do { u \<leftarrow> get_user a t; w \<leftarrow> foreach (del_chmember E) (channels u) t; unlink_user E a w })
      (\<lambda>x. tables_ok x \<and> hashed x a \<and>
    (\<forall>y. table_frame y x \<longrightarrow> tables_ok y \<longrightarrow> (\<forall>b. hashed y b \<longleftrightarrow> hashed x b \<and> b \<noteq> a) \<longrightarrow> exited {a} s y))"
    if t: "released ?s2 a None t" for t
    by (rule exit_user_tail [OF ok a v(4) u gv cl(1) t])
  show ?thesis unfolding run by (rule runs_seq [OF rel fin])
qed

end

subsection \<open>A server leaves with everything behind it\<close>

text \<open>The clients that are lost with one: it, and every listed client whose uplink is lost.\<close>

inductive_set behind :: "net \<Rightarrow> addr \<Rightarrow> addr set" for s :: net and a :: addr where
  self: "a \<in> behind s a"
| link: "b \<in> behind s a \<Longrightarrow> parent s c = Some b \<Longrightarrow> c \<in> set (user_list s) \<union> set (server_list s) \<Longrightarrow> c \<in> behind s a"

definition closed_set :: "net \<Rightarrow> addr set \<Rightarrow> bool" where
  "closed_set s P \<longleftrightarrow> (\<forall>b c. b \<in> P \<longrightarrow> parent s c = Some b \<longrightarrow> c \<in> set (user_list s) \<union> set (server_list s) \<longrightarrow> c \<in> P)"

lemma closed_behind: "closed_set s (behind s a)"
  unfolding closed_set_def using behind.link by blast

lemma closed_Un: "closed_set s P \<Longrightarrow> closed_set s Q \<Longrightarrow> closed_set s (P \<union> Q)"
  unfolding closed_set_def by blast

lemma closed_empty: "closed_set s {}"
  by (simp add: closed_set_def)

lemma behind_ge:
  assumes "links_ok s" "b \<in> behind s a"
  shows "a \<le> b"
  using assms(2,1)
proof (induction rule: behind.induct)
  case (link b c)
  then have "b < c" using links_okD(3,5) [of s c] by fastforce
  then show ?case using link by simp
qed simp

lemma behind_exited:
  assumes e: "exited P s t" and c: "closed_set s P"
  shows "P \<union> behind t a = P \<union> behind s a"
proof -
  note X = exitedD [OF e]
  have "b \<in> behind s a" if "b \<in> behind t a" for b
    using that by induction (use X in \<open>auto intro: behind.intros\<close>)
  moreover have "b \<in> P \<union> behind t a" if "b \<in> behind s a" for b
    using that
  proof induction
    case (link b c)
    show ?case
    proof (cases "b \<in> P \<or> c \<in> P")
      case True
      then have "c \<in> P" using c link.hyps(2,3) unfolding closed_set_def by metis
      then show ?thesis by simp
    next
      case False
      then have "b \<in> behind t a" "parent t c = Some b" "c \<in> set (user_list t) \<union> set (server_list t)" using link X by auto
      then show ?thesis using behind.link by blast
    qed
  qed (auto intro: behind.self)
  ultimately show ?thesis by blast
qed

lemma behind_leaf:
  assumes "\<And>b. b \<in> set (user_list s) \<union> set (server_list s) \<Longrightarrow> parent s b \<noteq> Some a"
  shows "behind s a = {a}"
proof -
  have "b = a" if "b \<in> behind s a" for b using that by induction (use assms in auto)
  then show ?thesis by (auto intro: behind.self)
qed

lemma behind_user: "links_ok s \<Longrightarrow> a \<in> set (user_list s) \<Longrightarrow> behind s a = {a}"
  by (rule behind_leaf) (use links_okD(3,4,5) in fastforce)

lemma behind_server:
  assumes ok: "links_ok s" and a: "a \<in> set (server_list s)" "server_lists s a = Some (us, vs)"
  shows "behind s a = insert a (\<Union> (behind s ` (set us \<union> set vs)))"
proof -
  note L = links_okD(6) [OF ok a]
  have "b \<in> insert a (\<Union> (behind s ` (set us \<union> set vs)))" if "b \<in> behind s a" for b
    using that
  proof induction
    case (link b c)
    show ?case
    proof (cases "b = a")
      case True
      then have "c \<in> set us \<union> set vs" using L link by blast
      then show ?thesis using behind.self by blast
    next
      case False
      then obtain d where "d \<in> set us \<union> set vs" "b \<in> behind s d" using link.IH by blast
      then show ?thesis using behind.link [OF _ link.hyps(2,3)] by blast
    qed
  qed simp
  moreover have "b \<in> behind s a" if "d \<in> set us \<union> set vs" "b \<in> behind s d" for b d
    using that(2)
  proof induction
    case self
    then show ?case using L that(1) behind.link [OF behind.self] by blast
  next
    case (link b c)
    then show ?case using behind.link by blast
  qed
  ultimately show ?thesis using behind.self by blast
qed

lemma behind_siblings:
  assumes ok: "links_ok s" and c: "parent s b = Some a" "parent s c = Some a" "b \<in> set (user_list s) \<union> set (server_list s)" and n: "c \<noteq> b"
  shows "c \<notin> behind s b"
proof
  assume "c \<in> behind s b"
  then have "a \<in> behind s b" using n c(2) by cases auto
  then have "b \<le> a" by (rule behind_ge [OF ok])
  moreover have "a < b" using c links_okD(3,5) [OF ok, of b] by auto
  ultimately show False by simp
qed

lemma foreach_exits:
  assumes "exited P s t" "closed_set s P" "\<And>b. b \<in> set bs \<Longrightarrow> b \<notin> P"
    and "distinct bs" "\<And>b c. b \<in> set bs \<Longrightarrow> c \<in> set bs \<Longrightarrow> c \<noteq> b \<Longrightarrow> c \<notin> behind s b"
    and step: "\<And>b t Q. b \<in> set bs \<Longrightarrow> exited Q s t \<Longrightarrow> b \<notin> Q \<Longrightarrow> runs (f b t) (exited (behind t b) t)"
  shows "runs (foreach f bs t) (exited (P \<union> \<Union> (behind s ` set bs)) s)"
  using assms(1-5) step
proof (induction bs arbitrary: P t)
  case (Cons b bs)
  have "runs (f b t) (exited (behind t b) t)" using Cons.prems by simp
  then have "runs (f b t) (exited (P \<union> behind s b) s)"
  proof (rule runs_mono)
    fix x assume "exited (behind t b) t x"
    then have "exited (P \<union> behind t b) s x" by (rule exited_trans [OF Cons.prems(1)])
    then show "exited (P \<union> behind s b) s x" using behind_exited [OF Cons.prems(1,2)] by simp
  qed
  then have "runs (do { t \<leftarrow> f b t; foreach f bs t }) (exited (P \<union> behind s b \<union> \<Union> (behind s ` set bs)) s)"
  proof (rule runs_seq)
    fix x assume x: "exited (P \<union> behind s b) s x"
    show "runs (foreach f bs x) (exited (P \<union> behind s b \<union> \<Union> (behind s ` set bs)) s)"
    proof (rule Cons.IH [OF x])
      show "closed_set s (P \<union> behind s b)" using Cons.prems(2) closed_behind closed_Un by blast
      show "c \<notin> P \<union> behind s b" if "c \<in> set bs" for c
        using that Cons.prems(3) [of c] Cons.prems(4) Cons.prems(5) [of b c] by auto
      show "distinct bs" using Cons.prems(4) by simp
      show "c \<notin> behind s d" if "d \<in> set bs" "c \<in> set bs" "c \<noteq> d" for d c using Cons.prems(5) [of d c] that by simp
      show "runs (f d u) (exited (behind u d) u)" if "d \<in> set bs" "exited Q s u" "d \<notin> Q" for d u Q
        using Cons.prems(6) [of d Q u] that by simp
    qed
  qed
  then show ?case by (simp add: Un_assoc)
qed simp

lemma exited_cong:
  assumes "exited P s1 y" and "keys s1 = keys s" "kind s1 = kind s" "parent s1 = parent s" "user_list s1 = user_list s" "server_list s1 = server_list s"
    "service_list s1 = service_list s" "name_table s1 = name_table s" "next_addr s1 = next_addr s" "server_p s1 = server_p s"
    "members s1 = members s" "chan_key s1 = chan_key s" "\<And>b. b \<in> set (server_list y) \<Longrightarrow> dead s1 b = dead s b"
    "exited_list s1 = exited_list s" "\<And>b. dead s b \<Longrightarrow> dead s1 b"
  shows "exited P s y"
proof -
  have "hashed s1 = hashed s" using assms by (simp add: hashed_def fun_eq_iff)
  then show ?thesis using assms by (simp add: exited_def)
qed

lemma exited_sendq [simp]: "exited P (s\<lparr>sendq := q\<rparr>) y = exited P s y"
  by (simp add: exited_def hashed_def)

lemma behind_cong:
  assumes "parent s' = parent s" "set (user_list s') = set (user_list s)" "set (server_list s') = set (server_list s)"
  shows "behind s' a = behind s a"
proof -
  have "b \<in> behind s a" if "b \<in> behind s' a" for b using that by induction (use assms in \<open>auto intro: behind.intros\<close>)
  moreover have "b \<in> behind s' a" if "b \<in> behind s a" for b using that by induction (use assms in \<open>auto intro: behind.intros\<close>)
  ultimately show ?thesis by blast
qed

lemma links_ok_dead_server:
  assumes "links_ok s" "keys s' = keys s" "name_table s' = name_table s" "kind s' = kind s" "\<And>b. b \<in> set (user_list s) \<Longrightarrow> dead s' b = dead s b"
    "parent s' = parent s" "server_lists s' = server_lists s" "user_list s' = user_list s" "server_list s' = server_list s" "exited_list s' = exited_list s"
  shows "links_ok s'"
proof -
  have h: "hashed s' = hashed s" using assms(2,3) by (simp add: hashed_def fun_eq_iff)
  note D = links_okD [OF assms(1)]
  have nd: "\<not> dead s' b" if "b \<in> set (user_list s)" for b using assms(5) [OF that] D(3) [OF that] by simp
  have u: "hashed s b \<and> kind s b = Some (True, False, False) \<and> \<not> dead s' b \<and> (\<exists>v. parent s b = Some v \<and> v \<in> set (server_list s) \<and> v < b)"
    if "b \<in> set (user_list s)" for b using D(3) [OF that] nd [OF that] by blast
  have v: "hashed s b \<and> kind s b = Some (False, True, False) \<and> (\<forall>v. parent s b = Some v \<longrightarrow> v \<in> set (server_list s) \<and> v < b)"
    if "b \<in> set (server_list s)" for b using D(4,5) that by blast
  show ?thesis
    unfolding links_ok_def h assms(2,4,6-10) by (intro conjI allI impI D(1,2,8) u v D(6,7))
qed

lemma net_ok_dead_server:
  assumes ok: "net_ok s" and a: "a \<in> set (server_list s)" "clients s a = Some cl"
  shows "net_ok (dead_client a cl s)"
proof -
  note P = dead_client_proj [OF a(2)]
  have D: "tables_ok s" "links_ok s" "opers_ok s" "alloc_ok s" "listed_ok s" "chans_ok s"
    using ok by (auto simp: net_ok_alt clients_ok_def)
  have "a \<notin> set (user_list s)" using links_okD(3,4) [OF D(2), of a] a(1) by auto
  then have "links_ok (dead_client a cl s)" by (intro links_ok_dead_server [OF D(2)]) (auto simp: P)
  moreover have "tables_ok (dead_client a cl s)" "opers_ok (dead_client a cl s)" "alloc_ok (dead_client a cl s)"
    "listed_ok (dead_client a cl s)" "chans_ok (dead_client a cl s)"
    using D tables_ok_cong [of "dead_client a cl s" s] opers_ok_cong [of "dead_client a cl s" s] alloc_ok_cong [of "dead_client a cl s" s]
      listed_ok_cong [of "dead_client a cl s" s] chans_ok_cong [of "dead_client a cl s" s] P by simp_all
  ultimately show ?thesis by (simp add: net_ok_alt clients_ok_def)
qed

context env_ok
begin

lemma unlink_server_runs:
  assumes sl: "a \<in> set (server_list w)" "distinct (server_list w)" and cl: "clients w a = Some cl"
    and v: "\<And>v. uplink cl = Some v \<Longrightarrow> \<exists>vv. get_server v w = Some vv \<and> a \<in> set (servers vv) \<and> distinct (servers vv)"
  shows "runs (unlink_server E a w) (\<lambda>x. \<exists>l. set l = set (server_list w) - {a} \<and> distinct l \<and>
    (let t = w\<lparr>server_list := l, exited_list := dlinkAdd (rb_ptrs (lib E)) a (exited_list w)\<rparr> in
     case uplink cl of None \<Rightarrow> x = t
     | Some v \<Rightarrow> \<exists>vv vs. get_server v w = Some vv \<and> x = set_server v (vv\<lparr>servers := vs\<rparr>) t \<and> set vs = set (servers vv) - {a} \<and> distinct vs))"
proof -
  let ?l = "dlinkDelete (rb_ptrs (lib E)) a (server_list w)"
  let ?w = "w\<lparr>server_list := ?l, exited_list := dlinkAdd (rb_ptrs (lib E)) a (exited_list w)\<rparr>"
  have l: "set ?l = set (server_list w) - {a}" "distinct ?l" using sl(2) by auto
  show ?thesis
  proof (cases "uplink cl")
    case None
    then have "unlink_server E a w = Some ?w" using sl(1) cl by (simp add: unlink_server_def dl_delete_def Let_def)
    then show ?thesis using l None by (simp, intro exI [of _ ?l]) simp
  next
    case (Some v)
    obtain vv where vv: "get_server v w = Some vv" "a \<in> set (servers vv)" "distinct (servers vv)" using assms(4) [OF Some] by blast
    let ?vs = "dlinkDelete (rb_ptrs (lib E)) a (servers vv)"
    have "get_server v ?w = Some vv" using vv(1) by (simp add: get_server_def)
    then have "unlink_server E a w = Some (set_server v (vv\<lparr>servers := ?vs\<rparr>) ?w)"
      using sl(1) cl Some vv(2) by (simp add: unlink_server_def dl_delete_def Let_def upd_server_eq [of v ?w vv])
    moreover have "set ?vs = set (servers vv) - {a}" "distinct ?vs" using vv(3) by auto
    ultimately show ?thesis using l Some vv(1)
      by (simp, intro exI [of _ ?l] conjI exI [of _ ?vs]) simp_all
  qed
qed

lemma unlinked_server:
  assumes x: "case uplink cl of None \<Rightarrow> x = s\<lparr>server_list := l, exited_list := e\<rparr>
     | Some v \<Rightarrow> \<exists>vv vs. get_server v s = Some vv \<and> x = set_server v (vv\<lparr>servers := vs\<rparr>) (s\<lparr>server_list := l, exited_list := e\<rparr>) \<and>
         set vs = set (servers vv) - {a} \<and> distinct vs"
    and cl: "clients s a = Some cl"
    and up: "\<And>v. uplink cl = Some v \<Longrightarrow> \<exists>vv. get_server v s = Some vv \<and> a \<in> set (servers vv) \<and> distinct (servers vv) \<and>
      a \<notin> set (server_users vv) \<and> distinct (server_users vv)"
  shows "(keys x = keys s \<and> kind x = kind s \<and> parent x = parent s \<and> dead x = dead s \<and> user_oper x = user_oper s \<and> user_link x = user_link s \<and>
      user_chans x = user_chans s \<and> service_chans x = service_chans s \<and> chan_key x = chan_key s \<and> chan_lists x = chan_lists s \<and>
      chan_services x = chan_services s) \<and>
    (name_table x = name_table s \<and> uid_table x = uid_table s \<and> user_list x = user_list s \<and> server_list x = l \<and>
      service_list x = service_list s \<and> exited_list x = e \<and> members x = members s \<and>
      next_addr x = next_addr s \<and> server_p x = server_p s \<and> conf_opers x = conf_opers s \<and> user_regs x = user_regs s \<and>
      conf_oper_list x = conf_oper_list s \<and> client_oper_list x = client_oper_list s \<and> channel_table x = channel_table s \<and> channel_list x = channel_list s \<and>
      deopped_list x = deopped_list s) \<and>
    (case uplink cl of None \<Rightarrow> server_lists x = server_lists s
      | Some v \<Rightarrow> \<exists>us vs us0 vs0. server_lists s v = Some (us0, vs0) \<and> server_lists x = (server_lists s)(v \<mapsto> (us, vs)) \<and>
        set us = set us0 - {a} \<and> set vs = set vs0 - {a} \<and> distinct us \<and> distinct vs)"
proof -
  let ?t = "s\<lparr>server_list := l, exited_list := e\<rparr>"
  consider (root) "uplink cl = None" "x = ?t" | (leaf) v vv vs where "uplink cl = Some v" "get_server v s = Some vv" "x = set_server v (vv\<lparr>servers := vs\<rparr>) ?t"
      "set vs = set (servers vv) - {a}" "distinct vs"
    using x by (cases "uplink cl") auto
  then show ?thesis
  proof cases
    case root
    then show ?thesis by simp
  next
    case leaf
    have g: "get_server v ?t = Some vv" using leaf(2) by simp
    note X = set_server_proj [OF g, where v = "vv\<lparr>servers := vs\<rparr>", folded leaf(3)]
    have "server_lists s v = Some (server_users vv, servers vv)" using leaf(2) by (simp add: server_lists_def)
    moreover have "set (server_users vv) = set (server_users vv) - {a}" "distinct (server_users vv)" using up [OF leaf(1)] leaf(2) by auto
    ultimately have V: "\<exists>us vs us0 vs0. server_lists s v = Some (us0, vs0) \<and> server_lists x = (server_lists s)(v \<mapsto> (us, vs)) \<and>
        set us = set us0 - {a} \<and> set vs = set vs0 - {a} \<and> distinct us \<and> distinct vs"
      using X leaf(4,5)
      by (intro exI [of _ "server_users vv"] exI [of _ vs] exI [of _ "servers vv"] conjI) simp_all
    show ?thesis using X V leaf(1) by (simp add: leaf(3))
  qed
qed

text \<open>The last step: everything behind the server is gone already.\<close>

lemma exit_server_tail:
  assumes ok: "net_ok s" and a: "a \<in> set (server_list s)" "dead s a" and leaf: "\<And>b. b \<in> set (user_list s) \<union> set (server_list s) \<Longrightarrow> parent s b \<noteq> Some a"
  shows "runs (do { s \<leftarrow> unlink_server E a s; del_client (lib E) a s }) (exited {a} s)"
proof -
  have D: "tables_ok s" "links_ok s" "opers_ok s" "chans_ok s" using ok by (auto simp: net_ok_alt clients_ok_def)
  note K = links_okD [OF D(2)]
  obtain cl where cl: "clients s a = Some cl" using K(4) [OF a(1)] by (auto simp: kind_def)
  then have p: "parent s a = uplink cl" by (simp add: parent_def)
  have au: "a \<notin> set (user_list s)" using K(3) [of a] K(4) [OF a(1)] by auto
  have up: "\<exists>vv. get_server v s = Some vv \<and> a \<in> set (servers vv) \<and> distinct (servers vv) \<and> a \<notin> set (server_users vv) \<and> distinct (server_users vv)"
    if v: "uplink cl = Some v" for v
  proof -
    have vl: "v \<in> set (server_list s)" using K(5) [OF a(1)] p v by simp
    then obtain up vv where "clients s v = Some up" "server up = Some vv" using K(4) [OF vl] by (auto simp: kind_def)
    then have g: "get_server v s = Some vv" by (simp add: get_server_def)
    then have "server_lists s v = Some (server_users vv, servers vv)" by (simp add: server_lists_def)
    then show ?thesis using g K(6) [OF vl] a(1) au p v by auto
  qed
  have "runs (unlink_server E a s) (\<lambda>x. \<exists>l. set l = set (server_list s) - {a} \<and> distinct l \<and>
    (let t = s\<lparr>server_list := l, exited_list := dlinkAdd (rb_ptrs (lib E)) a (exited_list s)\<rparr> in
     case uplink cl of None \<Rightarrow> x = t
     | Some v \<Rightarrow> \<exists>vv vs. get_server v s = Some vv \<and> x = set_server v (vv\<lparr>servers := vs\<rparr>) t \<and> set vs = set (servers vv) - {a} \<and> distinct vs))"
    by (rule unlink_server_runs [OF a(1) K(2) cl]) (use up in blast)
  then show ?thesis
  proof (rule runs_seq, elim exE conjE)
    fix x l assume l: "set l = set (server_list s) - {a}" "distinct l"
    let ?t = "s\<lparr>server_list := l, exited_list := dlinkAdd (rb_ptrs (lib E)) a (exited_list s)\<rparr>"
    assume "let t = ?t in case uplink cl of None \<Rightarrow> x = t
     | Some v \<Rightarrow> \<exists>vv vs. get_server v s = Some vv \<and> x = set_server v (vv\<lparr>servers := vs\<rparr>) t \<and> set vs = set (servers vv) - {a} \<and> distinct vs"
    then have x: "case uplink cl of None \<Rightarrow> x = ?t
     | Some v \<Rightarrow> \<exists>vv vs. get_server v s = Some vv \<and> x = set_server v (vv\<lparr>servers := vs\<rparr>) ?t \<and> set vs = set (servers vv) - {a} \<and> distinct vs"
      unfolding Let_def .
    have X: "keys x = keys s" "kind x = kind s" "parent x = parent s" "dead x = dead s" "user_oper x = user_oper s" "user_link x = user_link s"
        "user_chans x = user_chans s" "service_chans x = service_chans s" "chan_key x = chan_key s" "chan_lists x = chan_lists s"
        "chan_services x = chan_services s"
      and F: "name_table x = name_table s" "uid_table x = uid_table s" "user_list x = user_list s" "server_list x = l"
        "service_list x = service_list s" "exited_list x = dlinkAdd (rb_ptrs (lib E)) a (exited_list s)" "members x = members s"
        "next_addr x = next_addr s" "server_p x = server_p s" "conf_opers x = conf_opers s" "user_regs x = user_regs s"
        "conf_oper_list x = conf_oper_list s" "client_oper_list x = client_oper_list s" "channel_table x = channel_table s" "channel_list x = channel_list s"
        "deopped_list x = deopped_list s"
      and V: "case parent s a of None \<Rightarrow> server_lists x = server_lists s
        | Some v \<Rightarrow> \<exists>us vs us0 vs0. server_lists s v = Some (us0, vs0) \<and> server_lists x = (server_lists s)(v \<mapsto> (us, vs)) \<and>
          set us = set us0 - {a} \<and> set vs = set vs0 - {a} \<and> distinct us \<and> distinct vs"
      using unlinked_server [OF x cl up, folded p] by simp_all
    have t: "tables_ok x" "hashed x a" using D(1) tables_ok_cong [of x s] K(4) [OF a(1)] X F by (auto simp: hashed_def)
    show "runs (del_client (lib E) a x) (exited {a} s)"
    proof (rule runs_mono [OF del_client_runs [OF t]], elim conjE)
      fix y assume y: "table_frame y x" "tables_ok y" "\<forall>b. hashed y b \<longleftrightarrow> hashed x b \<and> b \<noteq> a"
      note Y = table_frame_proj [OF y(1)] table_frame_fields [OF y(1)]
      show "exited {a} s y"
      proof (rule exited_gone [OF ok _ leaf _ y(2)])
        show "a \<in> set (user_list s) \<union> set (server_list s)" using a by simp
        show "client_gone s a y"
        proof (rule client_goneI [OF D(2)])
          show "keys y = keys s" "kind y = kind s" "parent y = parent s" "dead y = (dead s)(a := True)" using Y X a(2) by (auto simp: fun_eq_iff)
          show "distinct (user_list y)" "set (user_list y) = set (user_list s) - {a}" "distinct (server_list y)"
            "set (server_list y) = set (server_list s) - {a}" "service_list y = service_list s"
            "set (exited_list y) = insert a (set (exited_list s))" "distinct (exited_list y)"
            using Y F l K(1,8) K(4) [of a] K(7) [of a] a au by auto
          show "hashed y b \<longleftrightarrow> hashed s b \<and> b \<noteq> a" for b using y(3) X F by (simp add: hashed_def)
          show "case parent s a of None \<Rightarrow> server_lists y = server_lists s
            | Some v \<Rightarrow> \<exists>us vs us0 vs0. server_lists s v = Some (us0, vs0) \<and> server_lists y = (server_lists s)(v \<mapsto> (us, vs)) \<and>
                set us = set us0 - {a} \<and> set vs = set vs0 - {a} \<and> distinct us \<and> distinct vs"
            unfolding Y(5) by (rule V)
        qed
        show "chans_ok y" using D(4) chans_ok_cong [of y s] Y X F by simp
        show "opers_ok y" using D(3) opers_ok_cong [of y s] Y X F by simp
        show "next_addr y = next_addr s" "server_p y = server_p s" using Y F by simp_all
        show "members y m = (case members s m of None \<Rightarrow> None | Some mp \<Rightarrow> if mclient mp \<in> {a} then None else Some mp)" for m
        proof (cases "members s m")
          case (Some mp)
          then have "mclient mp \<in> set (user_list s)" using members_okD(1) D(4) by (auto simp: chans_ok_def)
          then show ?thesis using Some Y F au by auto
        qed (use Y F in simp)
        show "chan_key y c = None \<or> chan_key y c = chan_key s c" for c using Y X by simp
      qed
    qed
  qed
qed

end

lemma closed_UN:
  assumes "\<And>x. x \<in> X \<Longrightarrow> closed_set s (F x)"
  shows "closed_set s (\<Union> (F ` X))"
  unfolding closed_set_def
proof (intro allI impI)
  fix b c assume h: "b \<in> \<Union> (F ` X)" "parent s c = Some b" "c \<in> set (user_list s) \<union> set (server_list s)"
  then obtain x where "x \<in> X" "b \<in> F x" by blast
  then show "c \<in> \<Union> (F ` X)" using assms [of x] h(2,3) unfolding closed_set_def by blast
qed

context env_ok
begin

lemma exit_user_del:
  assumes "net_ok s" "a \<in> set (user_list s)"
  shows "runs (do { t \<leftarrow> exit_user E a split s; del_client (lib E) a t }) (exited {a} s)"
proof (rule runs_seq [OF exit_user_runs [OF assms]])
  fix x assume x: "tables_ok x \<and> hashed x a \<and>
    (\<forall>y. table_frame y x \<longrightarrow> tables_ok y \<longrightarrow> (\<forall>b. hashed y b \<longleftrightarrow> hashed x b \<and> b \<noteq> a) \<longrightarrow> exited {a} s y)"
  then have "runs (del_client (lib E) a x) (\<lambda>s'. table_frame s' x \<and> tables_ok s' \<and> (\<forall>b. hashed s' b \<longleftrightarrow> hashed x b \<and> b \<noteq> a))"
    by (intro del_client_runs) auto
  then show "runs (del_client (lib E) a x) (exited {a} s)" by (rule runs_mono) (use x in blast)
qed

lemma hook_passive_runs:
  assumes "h \<in> set passive_hooks"
  shows "runs (hook_do E h x y s) (\<lambda>t. \<exists>q. t = s\<lparr>sendq := q\<rparr>)"
  by (rule hook_do_passive [OF assms, of x y s]) auto

lemmas net_ok_sendq = quiet_net_ok [OF quiet_sendq]

lemma exit_split_user:
  assumes "\<And>t. net_ok t \<Longrightarrow> b \<in> set (user_list t) \<Longrightarrow> runs (f b t) (exited (behind t b) t)" "net_ok t" "b \<in> set (user_list t)"
  shows "runs (do { t \<leftarrow> hook_do E HOOK_CLIENT_EXIT_SPLIT x y t; f b t }) (exited (behind t b) t)"
proof (rule runs_seq [OF hook_passive_runs])
  show "HOOK_CLIENT_EXIT_SPLIT \<in> set passive_hooks" by (simp add: passive_hooks_def)
  fix w assume "\<exists>q. w = t\<lparr>sendq := q\<rparr>"
  then obtain q where w: "w = t\<lparr>sendq := q\<rparr>" by blast
  have "net_ok w" using assms(2) net_ok_sendq by (simp add: w)
  then have "runs (f b w) (exited (behind w b) w)" using assms(1,3) by (simp add: w)
  moreover have "behind w b = behind t b" by (rule behind_cong) (simp_all add: w)
  moreover have "exited (behind t b) w = exited (behind t b) t" by (simp add: w fun_eq_iff)
  ultimately show "runs (f b w) (exited (behind t b) t)" by simp
qed

lemma exit_server_runs:
  assumes ok: "net_ok s" and a: "a \<in> set (server_list s)" "\<not> dead s a"
    and users: "\<And>b t. net_ok t \<Longrightarrow> b \<in> set (user_list t) \<Longrightarrow> runs (f b t) (exited (behind t b) t)"
    and servers: "\<And>b t. net_ok t \<Longrightarrow> b \<in> set (server_list t) \<Longrightarrow> parent s b = Some a \<Longrightarrow> next_addr t = next_addr s \<Longrightarrow>
      (\<forall>c. c \<in> set (server_list t) \<longrightarrow> c \<in> set (server_list s) \<and> (c \<noteq> a \<longrightarrow> dead t c = dead s c)) \<Longrightarrow> runs (f b t) (exited (behind t b) t)"
  shows "runs (do { s \<leftarrow> exit_server f E a s; del_client (lib E) a s }) (exited (behind s a) s)"
proof -
  have lo: "links_ok s" using ok by blast
  note K = links_okD [OF lo]
  obtain cl v where cl: "clients s a = Some cl" "server cl = Some v" using K(4) [OF a(1)] by (auto simp: kind_def)
  have nd: "flags cl AND FLAGS_DEAD = 0" using a(2) cl(1) by (simp add: dead_def)
  define us vs where "us = server_users v" and "vs = servers v"
  have gv: "get_server a s = Some v" and lists: "server_lists s a = Some (us, vs)"
    using cl by (simp_all add: get_server_def server_lists_def us_def vs_def)
  note L = K(6) [OF a(1) lists]
  let ?d = "dead_client a cl s"
  note P = dead_client_proj [OF cl(1)]
  obtain q where q: "hook_do E HOOK_SERVER_EXIT_WARNING (ArgClient a) ArgNull ?d = Some (?d\<lparr>sendq := q\<rparr>)"
    by (rule hook_do_passive [of HOOK_SERVER_EXIT_WARNING]) (simp_all add: passive_hooks_def)
  let ?s = "?d\<lparr>sendq := q\<rparr>"
  have ok1: "net_ok ?s" using net_ok_dead_server [OF ok a(1) cl(1)] net_ok_sendq by simp
  then have lo1: "links_ok ?s" by blast
  have bs: "behind ?s b = behind s b" for b by (rule behind_cong) (simp_all add: P)
  have sib: "c \<notin> behind ?s b" if "b \<in> set us \<union> set vs" "c \<in> set us \<union> set vs" "c \<noteq> b" for b c
    unfolding bs by (rule behind_siblings [OF lo, where a = a]) (use that L in auto)
  have disj: "set us \<inter> set vs = {}" using L K(3,4) by fastforce
  let ?U = "\<Union> (behind ?s ` set us)" and ?V = "\<Union> (behind ?s ` set vs)"
  have 1: "runs (foreach (\<lambda>b t. do { t \<leftarrow> hook_do E HOOK_CLIENT_EXIT_SPLIT (ArgClient b) ArgNull t; f b t }) us ?s) (exited ({} \<union> ?U) ?s)"
  proof (rule foreach_exits [OF exited_empty [OF ok1] closed_empty])
    show "runs (do { t \<leftarrow> hook_do E HOOK_CLIENT_EXIT_SPLIT (ArgClient b) ArgNull t; f b t }) (exited (behind t b) t)"
      if "b \<in> set us" "exited Q ?s t" "b \<notin> Q" for b t Q
    proof (rule exit_split_user [OF users])
      show "net_ok t" by (rule exitedD(1) [OF that(2)])
      show "b \<in> set (user_list t)" using that(1,3) L exitedD(5) [OF that(2)] by simp
    qed
  qed (use L sib in auto)
  have cU: "closed_set ?s ?U" by (rule closed_UN) (rule closed_behind)
  have 2: "runs (foreach f vs' t) (exited (?U \<union> ?V) ?s)" if t: "exited ?U ?s t" and vs': "set vs' = set vs" "distinct vs'" for t vs'
    unfolding vs'(1) [symmetric]
  proof (rule foreach_exits [OF t cU])
    show "runs (f b w) (exited (behind w b) w)" if b: "b \<in> set vs'" "exited Q ?s w" "b \<notin> Q" for b w Q
    proof (rule servers)
      note W = exitedD [OF b(2)]
      show "net_ok w" "b \<in> set (server_list w)" "parent s b = Some a" "next_addr w = next_addr s" using W b L vs' by auto
      show "\<forall>c. c \<in> set (server_list w) \<longrightarrow> c \<in> set (server_list s) \<and> (c \<noteq> a \<longrightarrow> dead w c = dead s c)" using W(6,11) by (auto simp: P)
    qed
    show "b \<notin> ?U" if "b \<in> set vs'" for b using that sib [of _ b] disj vs' by auto
  qed (use L sib vs' in auto)
  have U: "?U \<union> ?V \<union> {a} = behind s a" using behind_server [OF lo a(1) lists] by (auto simp: bs)
  have "a \<notin> behind s b" if "b \<in> set us \<union> set vs" for b
    using behind_ge [OF lo, of a b] L that K(3) [of b] K(5) [of b a] by fastforce
  then have leaf: "a \<notin> ?U \<union> ?V" by (auto simp: bs)
  have 3: "runs (do { w \<leftarrow> hook_do E HOOK_SERVER_EXIT (ArgClient a) ArgNull t; w \<leftarrow> unlink_server E a w; del_client (lib E) a w }) (exited (behind s a) s)"
    if t: "exited (?U \<union> ?V) ?s t" for t
  proof (rule runs_seq [OF hook_passive_runs])
    show "HOOK_SERVER_EXIT \<in> set passive_hooks" by (simp add: passive_hooks_def)
    fix w assume "\<exists>q. w = t\<lparr>sendq := q\<rparr>"
    then obtain q' where w: "w = t\<lparr>sendq := q'\<rparr>" by blast
    note T = exitedD [OF t]
    have okw: "net_ok w" using T(1) net_ok_sendq by (simp add: w)
    have aw: "a \<in> set (server_list w)" "dead w a" using T(6) T(11) [of a] a(1) leaf by (auto simp: w P)
    have "parent w b \<noteq> Some a" if "b \<in> set (user_list w) \<union> set (server_list w)" for b
    proof
      assume "parent w b = Some a"
      then have "b \<in> set us \<union> set vs" using that T(4-6) L by (auto simp: w P)
      then have "b \<in> ?U \<union> ?V" using behind.self [of b ?s] by blast
      then show False using that T(5,6) by (auto simp: w)
    qed
    from exit_server_tail [OF okw aw this] show "runs (do { w \<leftarrow> unlink_server E a w; del_client (lib E) a w }) (exited (behind s a) s)"
    proof (rule runs_mono)
      fix y assume "exited {a} w y"
      then have "exited {a} t y" by (simp add: w)
      from exited_trans [OF t this] have y: "exited (behind s a) ?s y" by (simp only: U)
      have ay: "a \<notin> set (server_list y)" using exitedD(6) [OF y] behind.self by blast
      show "exited (behind s a) s y"
        by (rule exited_cong [OF y]) (use P ay in auto)
    qed
  qed
  have run: "do { s \<leftarrow> exit_server f E a s; del_client (lib E) a s } =
    do { t \<leftarrow> foreach (\<lambda>b t. do { t \<leftarrow> hook_do E HOOK_CLIENT_EXIT_SPLIT (ArgClient b) ArgNull t; f b t }) us ?s; v \<leftarrow> get_server a t;
      t \<leftarrow> foreach f (servers v) t; w \<leftarrow> hook_do E HOOK_SERVER_EXIT (ArgClient a) ArgNull t; w \<leftarrow> unlink_server E a w; del_client (lib E) a w }"
    using cl nd q gv P(14) by (simp add: exit_server_def set_dead_eq us_def)
  show ?thesis
    unfolding run
  proof (rule runs_seq [OF 1])
    fix t assume "exited ({} \<union> ?U) ?s t"
    then have t: "exited ?U ?s t" by simp
    note T = exitedD [OF t]
    have at: "a \<in> set (server_list t)" using T(6) a(1) leaf by auto
    have lt: "links_ok t" using T(1) by blast
    obtain v' where v': "get_server a t = Some v'" "server_lists t a = Some (server_users v', servers v')"
      using links_okD(4) [OF lt at] by (auto simp: kind_def get_server_def server_lists_def)
    have vU: "b \<notin> ?U" if "b \<in> set vs" for b using that sib [of _ b] disj by auto
    have "set (servers v') = set vs" "distinct (servers v')"
      using links_okD(6) [OF lt at v'(2)] L T(4,6) vU by (auto simp: P)
    from 2 [OF t this]
    show "runs (do { v \<leftarrow> get_server a t; t \<leftarrow> foreach f (servers v) t; w \<leftarrow> hook_do E HOOK_SERVER_EXIT (ArgClient a) ArgNull t;
        w \<leftarrow> unlink_server E a w; del_client (lib E) a w }) (exited (behind s a) s)"
      unfolding v'(1) bind.bind_lunit by (rule runs_seq) (rule 3)
  qed
qed

text \<open>The servers from an address on are alive: none of them is being exited.\<close>

lemma exit_loop_user:
  assumes ok: "net_ok s" and a: "a \<in> set (user_list s)"
  shows "runs (exit_loop (Suc n) E split a s) (exited (behind s a) s)"
proof -
  have lo: "links_ok s" using ok by blast
  obtain cl where "clients s a = Some cl" "service cl = None" "server cl = None" "user cl \<noteq> None"
    using links_okD(3) [OF lo a] by (auto simp: kind_def)
  then have "exit_loop (Suc n) E split a s = do { t \<leftarrow> exit_user E a split s; del_client (lib E) a t }" by simp
  then show ?thesis using exit_user_del [OF ok a] behind_user [OF lo a] by simp
qed

lemma exit_loop_server:
  assumes "net_ok s" "a \<in> set (server_list s)" "\<And>b. b \<in> set (server_list s) \<Longrightarrow> a \<le> b \<Longrightarrow> \<not> dead s b" "next_addr s \<le> a + n"
  shows "runs (exit_loop (Suc n) E split a s) (exited (behind s a) s)"
  using assms
proof (induction n arbitrary: a s)
  case 0
  then have "hashed s a" using links_okD(4) [of s a] by blast
  moreover have "alloc_ok s" using 0 by blast
  ultimately show ?case using 0(4) by (auto simp: alloc_ok_def hashed_def)
next
  case (Suc n)
  have lo: "links_ok s" using Suc.prems by blast
  obtain cl where "clients s a = Some cl" "service cl = None" "server cl \<noteq> None"
    using links_okD(4) [OF lo Suc.prems(2)] by (auto simp: kind_def)
  then have run: "exit_loop (Suc (Suc n)) E split a s = do { t \<leftarrow> exit_server (exit_loop (Suc n) E split) E a s; del_client (lib E) a t }"
    by (simp only: exit_loop.simps(2) bind.bind_lunit simp_thms if_True if_False)
  show ?case
    unfolding run
  proof (rule exit_server_runs [OF Suc.prems(1,2)])
    show "\<not> dead s a" using Suc.prems(2,3) by simp
    show "runs (exit_loop (Suc n) E split b t) (exited (behind t b) t)" if "net_ok t" "b \<in> set (user_list t)" for b t
      by (rule exit_loop_user [OF that])
    show "runs (exit_loop (Suc n) E split b t) (exited (behind t b) t)"
      if t: "net_ok t" "b \<in> set (server_list t)" "parent s b = Some a" "next_addr t = next_addr s"
        "\<forall>c. c \<in> set (server_list t) \<longrightarrow> c \<in> set (server_list s) \<and> (c \<noteq> a \<longrightarrow> dead t c = dead s c)" for b t
    proof (rule Suc.IH [OF t(1,2)])
      have ab: "a < b" using links_okD(5) [OF lo, of b a] t by auto
      then show "next_addr t \<le> b + n" using Suc.prems(4) t(4) by simp
      show "\<not> dead t c" if "c \<in> set (server_list t)" "b \<le> c" for c using Suc.prems(3) [of c] t(5) that ab by auto
    qed
  qed
qed

lemma exit_client_runs:
  assumes ok: "net_ok s" and alive: "\<And>b. b \<in> set (server_list s) \<Longrightarrow> \<not> dead s b" and a: "a \<in> set (user_list s) \<union> set (server_list s)"
  shows "runs (exit_client E a split s) (exited (behind s a) s)"
proof (cases "a \<in> set (user_list s)")
  case True
  then show ?thesis unfolding exit_client_def by (rule exit_loop_user [OF ok])
next
  case False
  then have "a \<in> set (server_list s)" using a by simp
  then show ?thesis unfolding exit_client_def by (rule exit_loop_server [OF ok]) (use alive in auto)
qed

end

subsection \<open>Freeing the exited clients\<close>

text \<open>What is left when the exited clients are freed one by one.\<close>

lemma free_clients:
  assumes "distinct xs" "\<And>a. a \<in> set xs \<Longrightarrow> clients s a \<noteq> None"
  shows "foreach free_client xs s = Some (s\<lparr>clients := (\<lambda>a. if a \<in> set xs then None else clients s a)\<rparr>)"
  using assms
proof (induction xs arbitrary: s)
  case (Cons x xs)
  let ?t = "s\<lparr>clients := (clients s)(x := None)\<rparr>"
  obtain cl where "clients s x = Some cl" using Cons.prems(2) [of x] by auto
  then have "free_client x s = Some ?t" by (simp add: free_client_def)
  moreover have "foreach free_client xs ?t = Some (?t\<lparr>clients := (\<lambda>a. if a \<in> set xs then None else clients ?t a)\<rparr>)"
    by (rule Cons.IH) (use Cons.prems in auto)
  moreover have "(\<lambda>a. if a \<in> set xs then None else clients ?t a) = (\<lambda>a. if a \<in> set (x # xs) then None else clients s a)" by auto
  ultimately show ?case by simp
qed simp

lemma cleanup_eq:
  assumes "links_ok s"
  shows "cleanup_exited_clients s = Some (cleaned s)"
proof -
  have "clients s a \<noteq> None" if "a \<in> set (exited_list s)" for a using links_okD(7) [OF assms that] by (auto simp: kind_def)
  then show ?thesis using free_clients [OF links_okD(8) [OF assms]] by (simp add: cleanup_exited_clients_def cleaned_def)
qed

lemma cleanup_proj:
  assumes "links_ok s"
  shows "\<And>a. hashed s a \<Longrightarrow> a \<notin> set (exited_list s)"
    "keys (cleaned s) a = (if a \<in> set (exited_list s) then None else keys s a)"
    "kind (cleaned s) a = (if a \<in> set (exited_list s) then None else kind s a)"
    "parent (cleaned s) a = (if a \<in> set (exited_list s) then None else parent s a)"
    "dead (cleaned s) a \<longleftrightarrow> a \<notin> set (exited_list s) \<and> dead s a"
    "server_lists (cleaned s) a = (if a \<in> set (exited_list s) then None else server_lists s a)"
    "user_chans (cleaned s) a = (if a \<in> set (exited_list s) then None else user_chans s a)"
    "user_oper (cleaned s) a = (if a \<in> set (exited_list s) then None else user_oper s a)"
    "user_link (cleaned s) a = (if a \<in> set (exited_list s) then None else user_link s a)"
    "service_chans (cleaned s) = service_chans s"
    "hashed (cleaned s) = hashed s"
proof -
  note D = links_okD(7) [OF assms]
  show h: "\<And>a. hashed s a \<Longrightarrow> a \<notin> set (exited_list s)" using D by blast
  show "service_chans (cleaned s) = service_chans s"
  proof
    fix b
    have "clients s b \<noteq> None \<and> service (the (clients s b)) = None" if "b \<in> set (exited_list s)"
      using D [OF that] by (auto simp: kind_def)
    then show "service_chans (cleaned s) b = service_chans s b"
      by (auto simp: service_chans_def get_service_def cleaned_def)
  qed
  show "hashed (cleaned s) = hashed s"
    using h by (auto simp: hashed_def keys_def cleaned_def fun_eq_iff)
qed (auto simp: projection_defs cleaned_def)

lemma cleanup_fields [simp]:
  "chan_key (cleaned s) = chan_key s" "chan_lists (cleaned s) = chan_lists s"
  "chan_services (cleaned s) = chan_services s" "members (cleaned s) = members s"
  "name_table (cleaned s) = name_table s" "uid_table (cleaned s) = uid_table s"
  "channel_table (cleaned s) = channel_table s" "channel_list (cleaned s) = channel_list s"
  "user_list (cleaned s) = user_list s" "server_list (cleaned s) = server_list s"
  "service_list (cleaned s) = service_list s" "exited_list (cleaned s) = []"
  "conf_opers (cleaned s) = conf_opers s" "client_oper_list (cleaned s) = client_oper_list s"
  "conf_oper_list (cleaned s) = conf_oper_list s" "user_regs (cleaned s) = user_regs s"
  "next_addr (cleaned s) = next_addr s" "deopped_list (cleaned s) = deopped_list s"
  by (simp_all add: cleaned_def chan_key_def chan_lists_def chan_services_def fun_eq_iff)

lemma cleanup_net_ok:
  assumes ok: "net_ok s"
  shows "net_ok (cleaned s)"
proof -
  let ?s = "cleaned s"
  have D: "tables_ok s" "links_ok s" "opers_ok s" "alloc_ok s" "listed_ok s" "members_ok s" "chtable_ok s" "services_ok s" using ok by blast+
  note K = links_okD [OF D(2)] and P = cleanup_proj [OF D(2)] and T = tables_okD [OF D(1)]
  have u: "a \<notin> set (exited_list s)" if "a \<in> set (user_list s) \<union> set (server_list s)" for a using that P(1) K(3,4) by blast
  have "tables_ok ?s"
  proof (rule tables_okI [where H = "hashed s"])
    have k: "hashed s a \<Longrightarrow> keys ?s a = keys s a" for a using P(1) [of a] P(2) [of a] by simp
    show "a \<in> set (name_table ?s h) \<longleftrightarrow> hashed s a \<and> (\<exists>n u. keys ?s a = Some (n, u) \<and> hash_name n = h)" for h a using T(3) [of a h] k [of a] by (cases "hashed s a") simp_all
    show "a \<in> set (uid_table ?s h) \<longleftrightarrow> hashed s a \<and> (\<exists>n u. keys ?s a = Some (n, u) \<and> u \<noteq> [] \<and> hash_name u = h)" for h a
      using T(4) [of a h] k [of a] by (cases "hashed s a") simp_all
    show "keys ?s a \<noteq> None" if "hashed s a" for a using k [OF that] that by (auto simp: hashed_def)
  qed (use T(1,2) in simp_all)
  moreover have "links_ok ?s"
    unfolding links_ok_def
  proof (intro conjI allI impI)
    fix a assume a: "a \<in> set (user_list ?s)"
    then show "hashed ?s a" "kind ?s a = Some (True, False, False)" "\<not> dead ?s a"
      "\<exists>v. parent ?s a = Some v \<and> v \<in> set (server_list ?s) \<and> v < a" using K(3) [of a] u [of a] P by auto
  next
    fix a assume a: "a \<in> set (server_list ?s)"
    then show "hashed ?s a" "kind ?s a = Some (False, True, False)" using K(4) [of a] u [of a] P by auto
    fix v assume "parent ?s a = Some v"
    then show "v \<in> set (server_list ?s)" "v < a" using K(5) [of a v] a u [of a] P by auto
  next
    fix a us vs assume "a \<in> set (server_list ?s)" "server_lists ?s a = Some (us, vs)"
    then have h: "a \<in> set (server_list s)" "server_lists s a = Some (us, vs)" using P(6) [of a] by (simp_all split: if_splits)
    have L: "distinct us" "distinct vs" "\<And>b. b \<in> set us \<longleftrightarrow> b \<in> set (user_list s) \<and> parent s b = Some a"
      "\<And>b. b \<in> set vs \<longleftrightarrow> b \<in> set (server_list s) \<and> parent s b = Some a" using K(6) [OF h] by simp_all
    show "distinct us" "distinct vs" by (rule L)+
    show "b \<in> set us \<longleftrightarrow> b \<in> set (user_list ?s) \<and> parent ?s b = Some a" "b \<in> set vs \<longleftrightarrow> b \<in> set (server_list ?s) \<and> parent ?s b = Some a" for b
      using L(3,4) [of b] u [of b] P(4) [of b] by auto
  qed (use K(1,2) in simp_all)
  moreover have "oper_refs ?s = oper_refs s"
  proof
    fix q
    have "filter (\<lambda>a. user_oper ?s a = Some q) (user_list s) = filter (\<lambda>a. user_oper s a = Some q) (user_list s)"
      using u P(8) by (intro filter_cong) auto
    then show "oper_refs ?s q = oper_refs s q" by (simp add: oper_refs_def)
  qed
  then have "opers_ok ?s" using D(3) P(9) unfolding opers_ok_def by (auto split: if_splits)
  moreover have "alloc_ok ?s" using D(4) P(2) by (auto simp: alloc_ok_def)
  moreover have "listed_ok ?s"
  proof -
    have "a \<notin> set (exited_list s)" if "a \<in> set (service_list s)" for a
      using that D(5) K(7) [of a] by (auto simp: listed_ok_def)
    then show ?thesis using D(5) P(3,11) by (auto simp: listed_ok_def)
  qed
  moreover have "members_ok ?s"
  proof -
    note M = members_okD [OF D(6)]
    have "user_chans ?s (mclient mp) \<noteq> None" if "members s m = Some mp" for m mp
      using M(1) [OF that] u [of "mclient mp"] P(7) by auto
    moreover have "user_match (members s) a ms" if "user_chans ?s a = Some ms" for a ms
      using that P(7) [of a] M(4) [of a ms] by (auto split: if_splits)
    ultimately show ?thesis using D(6) unfolding members_ok_def by simp
  qed
  moreover have "chtable_ok ?s" "services_ok ?s"
    using D(7,8) chtable_ok_cong [of ?s s] services_ok_cong [of ?s s] P(10) by simp_all
  ultimately show ?thesis by (simp add: net_ok_def)
qed

subsection \<open>The correctness of an exit\<close>

text \<open>Between two commands no listed server is dead.\<close>

definition alive :: "net \<Rightarrow> bool" where
  "alive s \<longleftrightarrow> (\<forall>b. b \<in> set (server_list s) \<longrightarrow> \<not> dead s b)"

definition state_ok :: "net \<Rightarrow> bool" where
  "state_ok s \<longleftrightarrow> net_ok s \<and> alive s"

lemma state_okD: "state_ok s \<Longrightarrow> net_ok s" "state_ok s \<Longrightarrow> b \<in> set (server_list s) \<Longrightarrow> \<not> dead s b"
  by (auto simp: state_ok_def alive_def)

lemma exited_state_ok: "state_ok s \<Longrightarrow> exited P s s' \<Longrightarrow> state_ok s'"
  using exitedD(1,6,11) [of P s s'] by (auto simp: state_ok_def alive_def)

lemma exited_hashed:
  assumes ok: "net_ok s" and e: "exited P s s'" and P: "P \<subseteq> set (user_list s) \<union> set (server_list s)"
  shows "hashed s' b \<longleftrightarrow> hashed s b \<and> b \<notin> P"
proof -
  note X = exitedD [OF e]
  have L: "links_ok s" "listed_ok s" "links_ok s'" "listed_ok s'" using ok X(1) by blast+
  have l: "hashed t b \<longleftrightarrow> b \<in> set (user_list t) \<union> set (server_list t) \<or> b \<in> set (service_list t) \<and> hashed t b"
    if "links_ok t" "listed_ok t" for t using links_okD(3,4) [OF that(1), of b] that(2) by (auto simp: listed_ok_def)
  have "b \<notin> P" if "b \<in> set (service_list s)"
    using that P L(2) links_ok_kind [OF L(1), of b] by (auto simp: listed_ok_def)
  then show ?thesis using l [OF L(1,2)] l [OF L(3,4)] X(5-8) by auto
qed

lemma behind_listed: "a \<in> set (user_list s) \<union> set (server_list s) \<Longrightarrow> behind s a \<subseteq> set (user_list s) \<union> set (server_list s)"
proof
  fix b assume "b \<in> behind s a" "a \<in> set (user_list s) \<union> set (server_list s)"
  then show "b \<in> set (user_list s) \<union> set (server_list s)" by induction auto
qed

text \<open>
  C3. The exit of a client always returns: the depth of calls allowed is enough, and no pointer that is
  followed is stale. Exactly the client and every client behind it leave: they are off the
  lists of users and servers, in no client table, and in no channel; every other client and every other membership is
  kept, and the state is well-formed again.
\<close>

theorem exit_client_correct:
  assumes "env_ok E" and "state_ok s" and "a \<in> set (user_list s) \<union> set (server_list s)"
  shows "\<exists>s'. exit_client E a split s = Some s' \<and> state_ok s' \<and>
    set (user_list s') = set (user_list s) - behind s a \<and> set (server_list s') = set (server_list s) - behind s a \<and>
    (\<forall>b. hashed s' b \<longleftrightarrow> hashed s b \<and> b \<notin> behind s a) \<and>
    (\<forall>m. members s' m = (case members s m of None \<Rightarrow> None | Some mp \<Rightarrow> if mclient mp \<in> behind s a then None else Some mp))"
proof -
  have "runs (exit_client E a split s) (exited (behind s a) s)"
    by (rule env_ok.exit_client_runs [OF assms(1)]) (use assms(2,3) state_okD in auto)
  then obtain s' where s': "exit_client E a split s = Some s'" "exited (behind s a) s s'" by (auto simp: runs_def)
  note X = exitedD [OF s'(2)] and H = exited_hashed [OF state_okD(1) [OF assms(2)] s'(2) behind_listed [OF assms(3)]]
  show ?thesis
    by (intro exI [of _ s'] conjI allI s'(1) exited_state_ok [OF assms(2) s'(2)] X(5,6,12) H)
qed

lemma sample_state_ok: "state_ok sample_net"
  using sample_net_ok by (simp add: state_ok_def alive_def sample_proj)

lemma sample_behind: "behind sample_net 0 = {0, 1}"
proof -
  have "b = 0 \<or> b = 1" if "b \<in> behind sample_net 0" for b using that by induction (simp_all add: sample_proj)
  moreover have "1 \<in> behind sample_net 0" by (rule behind.link [OF behind.self]) (simp_all add: sample_proj)
  ultimately show ?thesis using behind.self by blast
qed

theorem exit_client_correct_witness:
  "\<exists>s'. exit_client sample_env 0 True sample_net = Some s' \<and> state_ok s' \<and> user_list s' = [] \<and> server_list s' = [] \<and>
     \<not> hashed s' 1 \<and> members s' 4 = None"
proof -
  have "(0 :: nat) \<in> set (user_list sample_net) \<union> set (server_list sample_net)" by simp
  from exit_client_correct [OF sample_env_ok(2) sample_state_ok this, of True] obtain s' where
    s': "exit_client sample_env 0 True sample_net = Some s'" "state_ok s'" "set (user_list s') = {1} - behind sample_net 0"
      "set (server_list s') = {0} - behind sample_net 0" "\<And>b. hashed s' b \<longleftrightarrow> hashed sample_net b \<and> b \<notin> behind sample_net 0"
      "\<And>m. members s' m = (case members sample_net m of None \<Rightarrow> None | Some mp \<Rightarrow> if mclient mp \<in> behind sample_net 0 then None else Some mp)"
    by auto
  show ?thesis
    by (intro exI [of _ s'] conjI s'(1,2)) (use s'(3-6) in \<open>simp_all add: sample_behind\<close>)
qed

text \<open>
  C16. The exited clients are freed once and nothing that is linked is freed. Every entry of \<open>exited_list\<close> is allocated and is freed exactly once, nothing
  else is freed, the list is empty afterwards and the state is well-formed; every client that is hashed or on one of the lists of users,
  servers and services, and the user of every membership, is as it was. The pointer of the connection to its uplink is not among these:
  it is left dangling when the uplink is exited by a SQUIT (theory Uplink).
\<close>

theorem cleanup_exited_clients_safe:
  assumes "state_ok s"
  shows "\<exists>s'. cleanup_exited_clients s = Some s' \<and> state_ok s' \<and> exited_list s' = [] \<and>
    (\<forall>a. clients s' a = (if a \<in> set (exited_list s) then None else clients s a)) \<and>
    (\<forall>a. hashed s a \<or> a \<in> set (user_list s) \<union> set (server_list s) \<union> set (service_list s) \<longrightarrow> clients s' a = clients s a \<and> clients s a \<noteq> None) \<and>
    members s' = members s \<and> (\<forall>m mp. members s m = Some mp \<longrightarrow> clients s' (mclient mp) = clients s (mclient mp))"
proof -
  have ok: "net_ok s" using assms by (simp add: state_ok_def)
  then have L: "links_ok s" "listed_ok s" "members_ok s" by blast+
  note P = cleanup_proj [OF L(1)] and K = links_okD [OF L(1)]
  have "state_ok (cleaned s)"
    using cleanup_net_ok [OF ok] P(5) assms by (auto simp: state_ok_def alive_def)
  moreover have c: "clients (cleaned s) a = (if a \<in> set (exited_list s) then None else clients s a)" for a by (simp add: cleaned_def)
  moreover have keep: "a \<notin> set (exited_list s) \<and> clients s a \<noteq> None"
    if "hashed s a \<or> a \<in> set (user_list s) \<union> set (server_list s) \<union> set (service_list s)" for a
  proof (cases "hashed s a")
    case True
    then show ?thesis using P(1) hashed_client [OF True] by auto
  next
    case False
    then have "a \<in> set (service_list s)" using that K(3,4) by blast
    then have "kind s a = Some (False, False, True)" using L(2) by (simp add: listed_ok_def)
    then show ?thesis using K(7) [of a] by (auto simp: kind_def)
  qed
  moreover have "clients (cleaned s) (mclient mp) = clients s (mclient mp)" if "members s m = Some mp" for m mp
    using keep [of "mclient mp"] members_okD(1) [OF L(3) that] c by auto
  ultimately show ?thesis using cleanup_eq [OF L(1)] by simp
qed

theorem cleanup_exited_clients_safe_witness:
  "\<exists>t s'. exit_client sample_env 0 True sample_net = Some t \<and> cleanup_exited_clients t = Some s' \<and> state_ok s' \<and>
     clients t 0 \<noteq> None \<and> clients s' 0 = None \<and> clients s' 1 = None \<and> clients s' 2 \<noteq> None"
proof -
  have "runs (exit_client sample_env 0 True sample_net) (exited (behind sample_net 0) sample_net)"
    by (rule env_ok.exit_client_runs [OF sample_env_ok(2) sample_net_ok]) (use sample_state_ok state_okD in auto)
  then obtain t where t: "exit_client sample_env 0 True sample_net = Some t" "exited (behind sample_net 0) sample_net t" by (auto simp: runs_def)
  note X = exitedD [OF t(2)]
  have e: "0 \<in> set (exited_list t)" "1 \<in> set (exited_list t)" using X(15) by (simp_all add: sample_behind)
  have "kind t 0 \<noteq> None" "2 \<in> set (service_list t)" using X(3,7) by (simp_all add: sample_proj)
  then show ?thesis
    using cleanup_exited_clients_safe [OF exited_state_ok [OF sample_state_ok t(2)]] t(1) e by (fastforce simp: kind_def)
qed

text \<open>
  A client that was exited must not be exited again: \<open>exit_client\<close> takes a dead client out of the
  tables once more, which deletes a node that is on no list.
\<close>

theorem exit_client_twice:
  assumes "clients s a = Some cl" and "service cl = None" and "flags cl AND FLAGS_DEAD \<noteq> 0" and "\<not> hashed s a"
  shows "exit_client E a split s = None"
proof -
  have "del_client (lib E) a s = None"
    using assms(1,4) by (simp add: del_client_def dl_delete_def hashed_def keys_def)
  then show ?thesis
    using assms(1-3) by (simp add: exit_client_def exit_server_def exit_user_def)
qed

theorem exit_client_twice_witness:
  "exit_client sample_env 9 True (sample_net\<lparr>clients := sample_clients(9 \<mapsto>
     \<lparr>name = ''gone'', info = [], uid = [], flags = FLAGS_DEAD, server = None, user = Some sample_user, service = None, uplink = Some 0\<rparr>)\<rparr>) = None"
proof -
  let ?cl = "\<lparr>name = ''gone'', info = [], uid = [], flags = FLAGS_DEAD, server = None, user = Some sample_user, service = None, uplink = Some 0\<rparr>"
  let ?s = "sample_net\<lparr>clients := sample_clients(9 \<mapsto> ?cl)\<rparr>"
  have n: "9 \<notin> set (name_table sample_net h)" for h by (simp add: sample_net_def)
  have "\<not> hashed ?s 9" using n by (simp add: hashed_def keys_def)
  then show ?thesis by (intro exit_client_twice [where cl = ?cl]) simp_all
qed

end
