(* ===== verification/Client_Handlers.thy ===== *)
theory Client_Handlers
  imports Exits
begin

section \<open>Client\_Handlers: clients come and go (src/client.c, src/io.c, src/service.c)\<close>

text \<open>
  The introduction of services to the network, and the handlers of NICK, UID, QUIT, KILL, SERVER, SID
  and SQUIT with \<open>signoff_server\<close>. A handler gets the client that sent the command and the
  parameters; only SERVER is also sent by an uplink that is not a client yet.
\<close>

subsection \<open>Introducing services\<close>

abbreviation SERVICE_OPERED :: u32 where "SERVICE_OPERED \<equiv> 0x001"
abbreviation SERVICE_MSGSELF :: u32 where "SERVICE_MSGSELF \<equiv> 0x002"
abbreviation SERVICE_DISABLED :: u32 where "SERVICE_DISABLED \<equiv> 0x004"
abbreviation SERVICE_INTRODUCED :: u32 where "SERVICE_INTRODUCED \<equiv> 0x001"
abbreviation SERVICE_REINTRODUCE :: u32 where "SERVICE_REINTRODUCE \<equiv> 0x002"

definition introduce_service :: "env \<Rightarrow> addr \<Rightarrow> net \<Rightarrow> net option" where
  "introduce_service E target_p s = do {
     cl \<leftarrow> clients s target_p;
     sv \<leftarrow> service cl;
     let s = sendto_server [''UID '', name cl, '' 1 1 +iDS'', if svc_flags sv AND SERVICE_OPERED \<noteq> 0 then ''o'' else [], '' '',
       svc_username sv, '' '', svc_host sv, '' 0 '', uid cl, '' :'', info cl] s;
     s \<leftarrow> upd_service target_p (\<lambda>sv. sv\<lparr>status := status sv OR SERVICE_INTRODUCED\<rparr>) s;
     add_client (lib E) target_p s
   }"

definition introduce_service_channels :: "env \<Rightarrow> addr \<Rightarrow> bool \<Rightarrow> net \<Rightarrow> net option" where
  "introduce_service_channels E target_p send_tb s = do {
     cl \<leftarrow> clients s target_p;
     sv \<leftarrow> service cl;
     foreach (\<lambda>c s. do {
         ch \<leftarrow> chans s c;
         let s = send_sjoin E cl ch s;
         Some (if send_tb \<and> conn_has CONN_CAP_TB s \<and> \<not> EmptyString (topic ch)
               then sendto_server ['':'', MYUID E s, '' TB '', chname ch, '' '', lu (topic_tsinfo ch), '' '', topicwho ch, '' :'', topic ch] s
               else s)
       }) (svc_channels sv) s
   }"

text \<open>The loops over \<open>service_list\<close> that leave disabled services out.\<close>

definition for_enabled :: "(addr \<Rightarrow> net \<Rightarrow> net option) \<Rightarrow> net \<Rightarrow> net option" where
  "for_enabled body s =
     foreach (\<lambda>a s. do { sv \<leftarrow> get_service a s; if svc_flags sv AND SERVICE_DISABLED \<noteq> 0 then Some s else body a s }) (service_list s) s"

definition introduce_services :: "env \<Rightarrow> net \<Rightarrow> net option" where
  "introduce_services E = for_enabled (introduce_service E)"

definition introduce_services_channels :: "env \<Rightarrow> net \<Rightarrow> net option" where
  "introduce_services_channels E = for_enabled (\<lambda>a. introduce_service_channels E a True)"

definition reintroduce_service :: "env \<Rightarrow> addr \<Rightarrow> net \<Rightarrow> net option" where
  "reintroduce_service E target_p s = do {
     cl \<leftarrow> clients s target_p;
     let s = sendto_server ['':'', SVC_UID cl s, '' QUIT :Updating information''] s;
     s \<leftarrow> del_client (lib E) target_p s;
     s \<leftarrow> introduce_service E target_p s;
     s \<leftarrow> introduce_service_channels E target_p False s;
     upd_service target_p (\<lambda>sv. sv\<lparr>status := status sv AND NOT SERVICE_REINTRODUCE\<rparr>) s
   }"

definition deintroduce_service :: "env \<Rightarrow> addr \<Rightarrow> net \<Rightarrow> net option" where
  "deintroduce_service E target_p s = do {
     cl \<leftarrow> clients s target_p;
     let s = sendto_server ['':'', SVC_UID cl s, '' QUIT :Disabled''] s;
     s \<leftarrow> upd_service target_p (\<lambda>sv. sv\<lparr>status := status sv AND NOT SERVICE_INTRODUCED\<rparr>) s;
     del_client (lib E) target_p s
   }"

subsection \<open>Losing the uplink\<close>

definition signoff_server :: "env \<Rightarrow> net \<Rightarrow> net option" where
  "signoff_server E s = do {
     conn \<leftarrow> server_p s;
     if conn_flags conn AND CONN_DEAD \<noteq> 0 then Some s
     else do {
       let s = s\<lparr>server_p := Some (conn\<lparr>conn_flags := conn_flags conn OR CONN_DEAD\<rparr>)\<rparr>;
       s \<leftarrow> foreach (\<lambda>a s. do {
               s \<leftarrow> upd_service a (\<lambda>sv. sv\<lparr>status := status sv AND NOT SERVICE_INTRODUCED\<rparr>) s;
               del_client (lib E) a s }) (service_list s) s;
       case conn_client conn of None \<Rightarrow> Some s | Some v \<Rightarrow> exit_client E v False s
     }
   }"

subsection \<open>NICK and UID\<close>

abbreviation REALLEN :: nat where "REALLEN \<equiv> 50"

definition blank_client :: client where
  "blank_client = \<lparr>name = [], info = [], uid = [], flags = 0, server = None, user = None, service = None, uplink = None\<rparr>"

definition blank_user :: user where
  "blank_user = \<lparr>username = [], host = [], ip = None, servername = [], usermask = [], umode = 0, tsinfo = 0, flood_count = 0,
     flood_time = 0, user_reg = None, oper = None, channels = []\<rparr>"

definition mask_of :: "string \<Rightarrow> string \<Rightarrow> string \<Rightarrow> string" where
  "mask_of nm un ho = take (BUFSIZE - 1) (nm @ ''!'' @ un @ ''@'' @ ho)"

definition alloc_client :: "client \<Rightarrow> net \<Rightarrow> addr \<times> net" where
  "alloc_client cl s = (next_addr s, s\<lparr>clients := (clients s)(next_addr s \<mapsto> cl), next_addr := Suc (next_addr s)\<rparr>)"

text \<open>A client of the same name: \<open>Some (True, s)\<close> when the new one is taken.\<close>

definition nick_collide :: "env \<Rightarrow> addr option \<Rightarrow> int \<Rightarrow> net \<Rightarrow> (bool \<times> net) option" where
  "nick_collide E target newts s =
     (case target of
        None \<Rightarrow> Some (True, s)
      | Some target_p \<Rightarrow> do {
          cl \<leftarrow> clients s target_p;
          if server cl \<noteq> None then Some (False, s)
          else case user cl of
            Some u \<Rightarrow> if tsinfo u < newts then Some (False, s)
                       else do { s \<leftarrow> exit_client E target_p False s; Some (True, s) }
          | None \<Rightarrow>
              if service cl \<noteq> None
              then (if newts \<le> 1 then do { s \<leftarrow> die ''service fight'' s; Some (False, s) } else Some (False, s))
              else Some (True, s)
        })"

text \<open>The new user is hashed and listed, and the functions on its event are called.\<close>

definition add_user :: "env \<Rightarrow> addr \<Rightarrow> client \<Rightarrow> net \<Rightarrow> net option" where
  "add_user E uplink_p cl s = do {
     up \<leftarrow> clients s uplink_p;
     let (target_p, s) = alloc_client cl s;
     s \<leftarrow> add_client (lib E) target_p s;
     let s = s\<lparr>user_list := dlinkAdd (rb_ptrs (lib E)) target_p (user_list s)\<rparr>;
     s \<leftarrow> upd_server uplink_p (\<lambda>v. v\<lparr>server_users := dlinkAdd (rb_ptrs (lib E)) target_p (server_users v)\<rparr>) s;
     if flags up AND FLAGS_EOB \<noteq> 0 then hook_do E HOOK_CLIENT_CONNECT (ArgClient target_p) ArgNull s
     else hook_do E HOOK_CLIENT_CONNECT_BURST (ArgClient target_p) ArgNull s
   }"

definition nick_user :: "rblib \<Rightarrow> addr \<Rightarrow> client \<Rightarrow> parv \<Rightarrow> client" where
  "nick_user L uplink_p up ps =
     (let nm = rb_strlcpy L (arg ps 0) (HOSTLEN + 1); un = rb_strlcpy L (arg ps 4) (USERLEN + 1); ho = rb_strlcpy L (arg ps 5) (HOSTLEN + 1)
      in blank_client\<lparr>name := nm, info := rb_strlcpy L (arg ps 7) (REALLEN + 1), uplink := Some uplink_p,
           user := Some (blank_user\<lparr>username := un, host := ho, servername := name up, tsinfo := atol (arg ps 2),
             umode := string_to_umode (arg ps 3) 0, usermask := mask_of nm un ho\<rparr>)\<rparr>)"

definition nick_new :: "env \<Rightarrow> parv \<Rightarrow> net \<Rightarrow> net option" where
  "nick_new E ps s = do {
     target \<leftarrow> find_named_client (arg ps 0) s;
     up \<leftarrow> find_server (arg ps 6) s;
     case up of None \<Rightarrow> Some s | Some uplink_p \<Rightarrow>
       if length (arg ps 0) > NICKLEN then die ''Compiled NICKLEN appears to be wrong'' s
       else do {
         (go, s) \<leftarrow> nick_collide E target (atol (arg ps 2)) s;
         if \<not> go then Some s
         else do { up \<leftarrow> clients s uplink_p; add_user E uplink_p (nick_user (lib E) uplink_p up ps) s }
       }
   }"

definition nick_change :: "env \<Rightarrow> addr \<Rightarrow> parv \<Rightarrow> net \<Rightarrow> net option" where
  "nick_change E client_p ps s = do {
     cl \<leftarrow> clients s client_p;
     if user cl = None then Some s
     else if length (arg ps 0) > NICKLEN then die ''Compiled NICKLEN appears to be wrong'' s
     else do {
       s \<leftarrow> del_client (lib E) client_p s;
       s \<leftarrow> upd_client client_p (\<lambda>c. c\<lparr>name := rb_strlcpy (lib E) (arg ps 0) (HOSTLEN + 1)\<rparr>) s;
       s \<leftarrow> add_client (lib E) client_p s;
       cl \<leftarrow> clients s client_p;
       s \<leftarrow> upd_user client_p (\<lambda>u. u\<lparr>usermask := mask_of (name cl) (username u) (host u), tsinfo := atol (arg ps 1)\<rparr>) s;
       hook_do E HOOK_CLIENT_NICKCHANGE (ArgClient client_p) ArgNull s
     }
   }"

definition c_nick :: "env \<Rightarrow> addr \<Rightarrow> parv \<Rightarrow> net \<Rightarrow> net option" where
  "c_nick E client_p ps s =
     (if length ps \<noteq> 8 \<and> length ps \<noteq> 2 then Some s
      else if length ps = 8 then nick_new E ps s
      else nick_change E client_p ps s)"

text \<open>\<open>parv[6][0] != '0' \<and> parv[6][1] != '\0'\<close>: the second character is read only when the first
  is not \<open>0\<close>.\<close>

definition ip_given :: "string \<Rightarrow> bool option" where
  "ip_given p = do {
     c0 \<leftarrow> rd p 0;
     if c0 = CHR ''0'' then Some False else do { c1 \<leftarrow> rd p 1; Some (c1 \<noteq> NUL) }
   }"

definition uid_user :: "rblib \<Rightarrow> addr \<Rightarrow> client \<Rightarrow> parv \<Rightarrow> bool \<Rightarrow> client" where
  "uid_user L uplink_p up ps given =
     (let nm = rb_strlcpy L (arg ps 0) (HOSTLEN + 1); un = rb_strlcpy L (arg ps 4) (USERLEN + 1); ho = rb_strlcpy L (arg ps 5) (HOSTLEN + 1)
      in blank_client\<lparr>name := nm, uid := rb_strlcpy L (arg ps 7) (UIDLEN + 1), info := rb_strlcpy L (arg ps 8) (REALLEN + 1),
           flags := (if given \<and> take 39 ho = take 39 (arg ps 6) then FLAGS_NODNS else 0), uplink := Some uplink_p,
           user := Some (blank_user\<lparr>username := un, host := ho, ip := (if given then Some (arg ps 6) else None),
             servername := name up, tsinfo := atol (arg ps 2), umode := string_to_umode (arg ps 3) 0, usermask := mask_of nm un ho\<rparr>)\<rparr>)"

definition c_uid :: "env \<Rightarrow> addr \<Rightarrow> parv \<Rightarrow> net \<Rightarrow> net option" where
  "c_uid E client_p ps s =
     (if length ps \<noteq> 9 then Some s
      else do {
        target \<leftarrow> find_client (arg ps 0) s;
        if length (arg ps 0) > NICKLEN then die ''Compiled NICKLEN appears to be wrong'' s
        else do {
          (go, s) \<leftarrow> nick_collide E target (atol (arg ps 2)) s;
          if \<not> go then Some s
          else do {
            up \<leftarrow> clients s client_p;
            given \<leftarrow> ip_given (arg ps 6);
            add_user E client_p (uid_user (lib E) client_p up ps given) s
          }
        }
      })"

subsection \<open>QUIT and KILL\<close>

definition c_quit :: "env \<Rightarrow> addr \<Rightarrow> parv \<Rightarrow> net \<Rightarrow> net option" where
  "c_quit E client_p ps s = do {
     cl \<leftarrow> clients s client_p;
     if user cl = None then Some s else exit_client E client_p False s
   }"

definition c_kill :: "env \<Rightarrow> addr \<Rightarrow> parv \<Rightarrow> net \<Rightarrow> net option" where
  "c_kill E client_p ps s =
     (if length ps < 1 \<or> EmptyString (arg ps 0) then Some s
      else do {
        target \<leftarrow> find_client (arg ps 0) s;
        case target of None \<Rightarrow> Some s | Some target_p \<Rightarrow> do {
          cl \<leftarrow> clients s target_p;
          if server cl \<noteq> None then Some s
          else if service cl \<noteq> None then
            (if \<not> first_kill s + 20 < now s \<and> num_kill s > 20 then die ''service kill fight!'' s
             else do {
               let s = (if first_kill s + 20 < now s then s\<lparr>first_kill := now s, num_kill := 1\<rparr> else s);
               let s = s\<lparr>num_kill := num_kill s + 1\<rparr>;
               s \<leftarrow> del_client (lib E) target_p s;
               s \<leftarrow> introduce_service E target_p s;
               introduce_service_channels E target_p False s
             })
          else exit_client E target_p False s
        }
      })"

subsection \<open>SERVER, SID and SQUIT\<close>

definition new_server :: "rblib \<Rightarrow> string \<Rightarrow> string \<Rightarrow> string \<Rightarrow> string \<Rightarrow> client" where
  "new_server L nm srvid loc hop =
     blank_client\<lparr>name := rb_strlcpy L nm (HOSTLEN + 1), uid := srvid,
       info := rb_strlcpy L (if EmptyString loc then ''(Unknown Location)'' else loc) (REALLEN + 1),
       server := Some \<lparr>server_users = [], servers = [], hops = atoi hop\<rparr>\<rparr>"

definition ping_server :: "env \<Rightarrow> addr \<Rightarrow> net \<Rightarrow> net option" where
  "ping_server E target_p s = do {
     cl \<leftarrow> clients s target_p;
     Some (sendto_server ['':'', MYUID E s, '' PING '', name cl, '' '', UID cl] s)
   }"

text \<open>A server behind another one.\<close>

definition add_server :: "env \<Rightarrow> addr \<Rightarrow> client \<Rightarrow> net \<Rightarrow> (addr \<times> net) option" where
  "add_server E client_p cl s = do {
     let (target_p, s) = alloc_client (cl\<lparr>uplink := Some client_p\<rparr>) s;
     s \<leftarrow> upd_server client_p (\<lambda>v. v\<lparr>servers := dlinkAdd (rb_ptrs (lib E)) target_p (servers v)\<rparr>) s;
     s \<leftarrow> add_client (lib E) target_p s;
     Some (target_p, s\<lparr>server_list := dlinkAdd (rb_ptrs (lib E)) target_p (server_list s)\<rparr>)
   }"

text \<open>Our uplink introduces itself.\<close>

definition add_uplink :: "env \<Rightarrow> parv \<Rightarrow> lconn \<Rightarrow> net \<Rightarrow> net option" where
  "add_uplink E ps conn s =
     (if conn_flags conn AND CONN_TS = 0 \<or> irccmp (conn_name conn) (arg ps 0) \<noteq> 0 then signoff_server E s
      else do {
        let cl = new_server (lib E) (arg ps 0) (rb_strlcpy (lib E) (sid conn) (UIDLEN + 1)) (arg ps 2) (arg ps 1);
        let cl = cl\<lparr>flags := (if conn_flags conn AND CONN_CAP_RSFNC \<noteq> 0 then FLAGS_RSFNC else 0)\<rparr>;
        let (target_p, s) = alloc_client cl s;
        let conn = conn\<lparr>conn_flags := conn_flags conn AND NOT CONN_HANDSHAKE, first_time := now s, conn_client := Some target_p\<rparr>;
        s \<leftarrow> add_client (lib E) target_p (s\<lparr>server_p := Some conn\<rparr>);
        let s = s\<lparr>server_list := dlinkAdd (rb_ptrs (lib E)) target_p (server_list s)\<rparr>;
        s \<leftarrow> introduce_services E s;
        s \<leftarrow> introduce_services_channels E s;
        let s = s\<lparr>server_p := Some (conn\<lparr>conn_flags := conn_flags conn OR CONN_FLAGS_SENTBURST\<rparr>)\<rparr>;
        ping_server E target_p s
      })"

definition c_server :: "env \<Rightarrow> addr option \<Rightarrow> parv \<Rightarrow> net \<Rightarrow> net option" where
  "c_server E client_p ps s =
     (if length ps < 3 then Some s
      else if length (arg ps 0) > HOSTLEN then die ''Compiled HOSTLEN appears to be wrong'' s
      else do {
        conn \<leftarrow> server_p s;
        case client_p of
          None \<Rightarrow> add_uplink E ps conn s
        | Some p \<Rightarrow> do {
            (target_p, s) \<leftarrow> add_server E p (new_server (lib E) (arg ps 0) [] (arg ps 2) (arg ps 1)) s;
            let s = s\<lparr>server_p := Some (conn\<lparr>conn_flags := conn_flags conn OR CONN_FLAGS_SENTBURST\<rparr>)\<rparr>;
            ping_server E target_p s
          }
      })"

definition c_sid :: "env \<Rightarrow> addr \<Rightarrow> parv \<Rightarrow> net \<Rightarrow> net option" where
  "c_sid E client_p ps s =
     (if length ps < 4 then Some s
      else if length (arg ps 0) > HOSTLEN then die ''Compiled HOSTLEN appears to be wrong'' s
      else do {
        (target_p, s) \<leftarrow> add_server E client_p
          (new_server (lib E) (arg ps 0) (rb_strlcpy (lib E) (arg ps 2) (UIDLEN + 1)) (arg ps 3) (arg ps 1)) s;
        ping_server E target_p s
      })"

definition c_squit :: "env \<Rightarrow> addr \<Rightarrow> parv \<Rightarrow> net \<Rightarrow> net option" where
  "c_squit E client_p ps s =
     (if length ps < 1 \<or> EmptyString (arg ps 0)
      then do { conn \<leftarrow> server_p s; v \<leftarrow> conn_client conn; exit_client E v True s }
      else do {
        target \<leftarrow> find_server (arg ps 0) s;
        case target of
          None \<Rightarrow> hook_do E HOOK_PROTO_SQUIT_UNKNOWN (ArgStr (arg ps 0)) ArgNull s
        | Some target_p \<Rightarrow> exit_client E target_p True s
      })"

subsection \<open>Services in the client tables\<close>

text \<open>Only services go in and out of the tables without being listed or exited.\<close>

lemma net_ok_rehash:
  assumes ok: "net_ok s" and y: "table_frame y s" "tables_ok y" and h: "\<And>b. b \<notin> set (service_list s) \<Longrightarrow> hashed y b = hashed s b"
  shows "net_ok y"
proof -
  note F = table_frame_fields [OF y(1)] and P = table_frame_proj [OF y(1)]
  have D: "links_ok s" "opers_ok s" "alloc_ok s" "listed_ok s" "chans_ok s" using ok by (auto simp: net_ok_alt clients_ok_def)
  note K = links_okD [OF D(1)]
  have sv: "kind s b = Some (False, False, True)" if "b \<in> set (service_list s)" for b using that D(4) by (simp add: listed_ok_def)
  have hu: "hashed y b = hashed s b" if "b \<in> set (user_list s) \<union> set (server_list s) \<union> set (exited_list s)" for b
  proof (rule h, rule notI)
    assume "b \<in> set (service_list s)"
    then show False using sv [of b] that K(3) [of b] K(4) [of b] K(7) [of b] by auto
  qed
  have "links_ok y"
    unfolding links_ok_def P F
  proof (intro conjI allI impI)
    show "distinct (user_list s)" "distinct (server_list s)" "distinct (exited_list s)" by (rule K)+
    fix a assume "a \<in> set (exited_list s)"
    then show "\<exists>x y. kind s a = Some (x, y, False)" "\<not> hashed y a" using K(7) [of a] hu [of a] by auto
  next
    fix a assume "a \<in> set (user_list s)"
    then show "hashed y a" "kind s a = Some (True, False, False)" "\<not> dead s a" "\<exists>v. parent s a = Some v \<and> v \<in> set (server_list s) \<and> v < a"
      using K(3) [of a] hu [of a] by auto
  next
    fix a assume "a \<in> set (server_list s)"
    then show "hashed y a" "kind s a = Some (False, True, False)" using K(4) [of a] hu [of a] by auto
  qed (use K(5,6) in blast)+
  moreover have "hashed y b \<longrightarrow> b \<in> set (user_list s) \<or> b \<in> set (server_list s) \<or> b \<in> set (service_list s)" for b
    using h [of b] D(4) by (auto simp: listed_ok_def)
  then have "listed_ok y" using sv by (simp add: listed_ok_def P F)
  moreover have "opers_ok y" "alloc_ok y" "chans_ok y"
    using D opers_ok_cong [of y s] alloc_ok_cong [of y s] chans_ok_cong [of y s] P F by simp_all
  ultimately show ?thesis using y(2) by (simp add: net_ok_alt clients_ok_def)
qed

lemma net_ok_set_service:
  assumes ok: "net_ok s" and g: "get_service a s = Some v0" "svc_channels v = svc_channels v0"
  shows "net_ok (set_service a v s)"
proof -
  note P = set_service_proj [OF g(1)]
  have sc: "service_chans (set_service a v s) = service_chans s"
    using g by (auto simp: P service_chans_def fun_eq_iff)
  let ?s = "set_service a v s"
  have D: "tables_ok s" "links_ok s" "opers_ok s" "alloc_ok s" "listed_ok s" "chans_ok s" using ok by (auto simp: net_ok_alt clients_ok_def)
  have "tables_ok ?s" using D(1) tables_ok_cong [of ?s s] P by simp
  moreover have "links_ok ?s" using D(2) links_ok_cong [of ?s s] P by simp
  moreover have "opers_ok ?s" using D(3) opers_ok_cong [of ?s s] P by simp
  moreover have "alloc_ok ?s" using D(4) alloc_ok_cong [of ?s s] P by simp
  moreover have "listed_ok ?s" using D(5) listed_ok_cong [of ?s s] P by simp
  moreover have "chans_ok ?s" using D(6) chans_ok_cong [of ?s s] P sc by simp
  ultimately show ?thesis by (simp add: net_ok_alt clients_ok_def)
qed

text \<open>What the operations on a service keep: everything but the tables, the service itself and what is sent.\<close>

definition svc_options :: "net \<Rightarrow> addr \<Rightarrow> u32 option" where
  "svc_options s a = map_option svc_flags (get_service a s)"

definition service_frame :: "net \<Rightarrow> net \<Rightarrow> bool" where
  "service_frame y s \<longleftrightarrow> (state_ok s \<longrightarrow> state_ok y) \<and> keys y = keys s \<and> kind y = kind s \<and> parent y = parent s \<and>
     user_list y = user_list s \<and> server_list y = server_list s \<and> service_list y = service_list s \<and> chan_key y = chan_key s \<and>
     members y = members s \<and> service_chans y = service_chans s \<and> server_p y = server_p s \<and> next_addr y = next_addr s \<and>
     svc_options y = svc_options s"

lemma service_frameD:
  assumes "service_frame y s"
  shows "state_ok s \<Longrightarrow> state_ok y" "keys y = keys s" "kind y = kind s" "parent y = parent s" "user_list y = user_list s"
    "server_list y = server_list s" "service_list y = service_list s" "chan_key y = chan_key s" "members y = members s"
    "service_chans y = service_chans s" "server_p y = server_p s" "next_addr y = next_addr s" "svc_options y = svc_options s"
  using assms by (simp_all add: service_frame_def)

lemma service_frame_refl [simp]: "service_frame s s"
  by (simp add: service_frame_def)

lemma service_frame_trans [trans]: "service_frame z y \<Longrightarrow> service_frame y s \<Longrightarrow> service_frame z s"
  by (simp add: service_frame_def)

lemma quiet_service_frame:
  assumes "quiet y s"
  shows "service_frame y s" "hashed y b = hashed s b"
proof -
  have sc: "same_clients y s" by (rule quiet_same_clients [OF assms])
  have d: "dead y = dead s" "server_list y = server_list s" using assms by (auto simp: quiet_def)
  have "state_ok s \<Longrightarrow> state_ok y" using quiet_net_ok [OF assms] d by (simp add: state_ok_def alive_def)
  then show "service_frame y s" using assms by (auto simp: service_frame_def quiet_def svc_options_def fun_eq_iff)
  show "hashed y b = hashed s b" using assms by (auto simp: quiet_def hashed_def)
qed

lemma set_service_frame:
  assumes "get_service a s = Some v0" "svc_channels v = svc_channels v0" "svc_flags v = svc_flags v0"
  shows "service_frame (set_service a v s) s" "hashed (set_service a v s) b = hashed s b"
proof -
  note P = set_service_proj [OF assms(1)]
  have "service_chans (set_service a v s) = service_chans s"
    using assms by (auto simp: P service_chans_def fun_eq_iff)
  moreover have "svc_options (set_service a v s) = svc_options s" using assms by (simp add: svc_options_def P fun_eq_iff)
  moreover have "state_ok (set_service a v s)" if "state_ok s"
    using that net_ok_set_service [OF _ assms(1,2)] P by (simp add: state_ok_def alive_def)
  ultimately show "service_frame (set_service a v s) s" using P by (simp add: service_frame_def)
  show "hashed (set_service a v s) b = hashed s b" by (simp add: hashed_def P)
qed

lemma rehash_frame:
  assumes "table_frame y s" "tables_ok y" "\<And>b. b \<notin> set (service_list s) \<Longrightarrow> hashed y b = hashed s b"
  shows "service_frame y s"
proof -
  note F = table_frame_fields [OF assms(1)] and P = table_frame_proj [OF assms(1)]
  have "state_ok y" if "state_ok s" using net_ok_rehash [OF _ assms] that by (simp add: state_ok_def alive_def P F)
  then show ?thesis using P F by (simp add: service_frame_def svc_options_def get_service_def fun_eq_iff)
qed

lemma service_in_list:
  assumes "net_ok s" "a \<in> set (service_list s)"
  obtains cl sv where "clients s a = Some cl" "service cl = Some sv" "get_service a s = Some sv"
proof -
  have "listed_ok s" using assms(1) by blast
  then have "kind s a = Some (False, False, True)" using assms(2) by (simp add: listed_ok_def)
  then show thesis using that by (auto simp: kind_def get_service_def)
qed

context env_ok
begin

text \<open>The flag of a service is changed.\<close>

lemma upd_status_runs:
  assumes "get_service a s = Some v0" "\<And>sv. svc_channels (f sv) = svc_channels sv" "\<And>sv. svc_flags (f sv) = svc_flags sv"
  shows "runs (upd_service a f s) (\<lambda>t. service_frame t s \<and> (\<forall>b. hashed t b = hashed s b))"
  using upd_service_eq [OF assms(1), of f] set_service_frame [OF assms(1), of "f v0"] assms(2,3) by simp

lemma add_service_client_runs:
  assumes ok: "state_ok s" and a: "a \<in> set (service_list s)" "\<not> hashed s a"
  shows "runs (add_client (lib E) a s) (\<lambda>t. service_frame t s \<and> (\<forall>b. hashed t b \<longleftrightarrow> hashed s b \<or> b = a))"
proof -
  have n: "net_ok s" using ok by (simp add: state_ok_def)
  obtain cl where cl: "clients s a = Some cl" by (rule service_in_list [OF n a(1)])
  have "tables_ok s" using n by blast
  then have "runs (add_client (lib E) a s) (\<lambda>t. table_frame t s \<and> tables_ok t \<and> (\<forall>b. hashed t b \<longleftrightarrow> hashed s b \<or> b = a))"
    by (rule add_client_runs [OF _ a(2) cl])
  then show ?thesis
  proof (rule runs_mono)
    fix t assume t: "table_frame t s \<and> tables_ok t \<and> (\<forall>b. hashed t b \<longleftrightarrow> hashed s b \<or> b = a)"
    then have "service_frame t s" by (intro rehash_frame) (use a(1) in auto)
    then show "service_frame t s \<and> (\<forall>b. hashed t b \<longleftrightarrow> hashed s b \<or> b = a)" using t by blast
  qed
qed

lemma del_service_client_runs:
  assumes ok: "state_ok s" and a: "a \<in> set (service_list s)" "hashed s a"
  shows "runs (del_client (lib E) a s) (\<lambda>t. service_frame t s \<and> (\<forall>b. hashed t b \<longleftrightarrow> hashed s b \<and> b \<noteq> a))"
proof -
  have "tables_ok s" using ok by (auto simp: state_ok_def)
  then have "runs (del_client (lib E) a s) (\<lambda>t. table_frame t s \<and> tables_ok t \<and> (\<forall>b. hashed t b \<longleftrightarrow> hashed s b \<and> b \<noteq> a))"
    by (rule del_client_runs [OF _ a(2)])
  then show ?thesis
  proof (rule runs_mono)
    fix t assume t: "table_frame t s \<and> tables_ok t \<and> (\<forall>b. hashed t b \<longleftrightarrow> hashed s b \<and> b \<noteq> a)"
    then have "service_frame t s" by (intro rehash_frame) (use a(1) in auto)
    then show "service_frame t s \<and> (\<forall>b. hashed t b \<longleftrightarrow> hashed s b \<and> b \<noteq> a)" using t by blast
  qed
qed

end

subsection \<open>Introductions\<close>

text \<open>A service goes in or out of the tables, everything else is kept.\<close>

definition rehashed :: "(addr \<Rightarrow> bool) \<Rightarrow> net \<Rightarrow> net \<Rightarrow> bool" where
  "rehashed H s t \<longleftrightarrow> state_ok t \<and> service_frame t s \<and> (\<forall>b. hashed t b = H b)"

lemma rehashedI: "state_ok s \<Longrightarrow> service_frame t s \<Longrightarrow> (\<And>b. hashed t b = H b) \<Longrightarrow> rehashed H s t"
  by (simp add: rehashed_def service_frame_def)

lemma rehashed_trans: "rehashed H s t \<Longrightarrow> rehashed H' t u \<Longrightarrow> rehashed H' s u"
  unfolding rehashed_def by (blast intro: service_frame_trans)

lemma rehashed_refl: "state_ok s \<Longrightarrow> rehashed (hashed s) s s"
  by (simp add: rehashed_def)

lemma rehashedD:
  assumes "rehashed H s t"
  shows "state_ok t" "net_ok t" "service_frame t s" "service_list t = service_list s" "hashed t b = H b"
  using assms by (simp_all add: rehashed_def service_frame_def state_ok_def)

context env_ok
begin

lemma introduce_service_runs:
  assumes ok: "state_ok s" and a: "a \<in> set (service_list s)" "\<not> hashed s a"
  shows "runs (introduce_service E a s) (rehashed (\<lambda>b. hashed s b \<or> b = a) s)"
proof -
  have n: "net_ok s" using ok by (simp add: state_ok_def)
  obtain cl sv where cl: "clients s a = Some cl" "service cl = Some sv" "get_service a s = Some sv" by (rule service_in_list [OF n a(1)])
  define w where "w = sendto_server [''UID '', name cl, '' 1 1 +iDS'', if svc_flags sv AND SERVICE_OPERED \<noteq> 0 then ''o'' else [], '' '',
       svc_username sv, '' '', svc_host sv, '' 0 '', uid cl, '' :'', info cl] s"
  have q: "quiet w s" by (simp add: w_def)
  note W = quiet_service_frame [OF q]
  have okw: "state_ok w" and lw: "service_list w = service_list s" using W(1) ok by (simp_all add: service_frame_def)
  have gw: "get_service a w = Some sv" using cl(3) quiet_fields(1) [OF q] by (simp add: get_service_def)
  have run: "introduce_service E a s = do { t \<leftarrow> upd_service a (\<lambda>sv. sv\<lparr>status := status sv OR SERVICE_INTRODUCED\<rparr>) w; add_client (lib E) a t }"
    using cl by (simp add: introduce_service_def Let_def w_def)
  have 1: "runs (upd_service a (\<lambda>sv. sv\<lparr>status := status sv OR SERVICE_INTRODUCED\<rparr>) w) (\<lambda>t. service_frame t w \<and> (\<forall>b. hashed t b = hashed w b))"
    by (rule upd_status_runs [OF gw]) simp_all
  show ?thesis
    unfolding run
  proof (rule runs_seq [OF 1])
    fix t assume t: "service_frame t w \<and> (\<forall>b. hashed t b = hashed w b)"
    then have T: "state_ok t" "service_list t = service_list s" "service_frame t s" "\<And>b. hashed t b = hashed s b"
      using okw lw W service_frame_trans [of t w s] by (auto simp: service_frame_def)
    have "runs (add_client (lib E) a t) (\<lambda>u. service_frame u t \<and> (\<forall>b. hashed u b \<longleftrightarrow> hashed t b \<or> b = a))"
      by (rule add_service_client_runs [OF T(1)]) (use a T in auto)
    then show "runs (add_client (lib E) a t) (rehashed (\<lambda>b. hashed s b \<or> b = a) s)"
      by (rule runs_mono) (use T ok service_frame_trans [of _ t s] in \<open>auto intro: rehashedI\<close>)
  qed
qed

lemma introduce_service_channels_runs:
  assumes ok: "state_ok s" and a: "a \<in> set (service_list s)"
  shows "runs (introduce_service_channels E a tb s) (\<lambda>t. quiet t s)"
proof -
  have n: "net_ok s" using ok by (simp add: state_ok_def)
  obtain cl sv where cl: "clients s a = Some cl" "service cl = Some sv" "get_service a s = Some sv" by (rule service_in_list [OF n a])
  have so: "services_ok s" using n by blast
  have ch: "chans s c \<noteq> None" if "c \<in> set (svc_channels sv)" for c
    using so service_chansI [OF cl(3)] that by (auto simp: services_ok_def chan_services_def)
  have run: "introduce_service_channels E a tb s = foreach (\<lambda>c s. do {
         ch \<leftarrow> chans s c;
         let s = send_sjoin E cl ch s;
         Some (if tb \<and> conn_has CONN_CAP_TB s \<and> \<not> EmptyString (topic ch)
               then sendto_server ['':'', MYUID E s, '' TB '', chname ch, '' '', lu (topic_tsinfo ch), '' '', topicwho ch, '' :'', topic ch] s
               else s) }) (svc_channels sv) s"
    using cl by (simp add: introduce_service_channels_def)
  show ?thesis
    unfolding run
  proof (rule runs_foreach)
    show "quiet s s" by simp
    fix c t assume c: "c \<in> set (svc_channels sv)" and t: "quiet t s"
    obtain d where d: "chans t c = Some d" using ch [OF c] quiet_fields(2) [OF t] by auto
    have sj: "quiet (send_sjoin E cl d t) s" using t by (auto simp: send_sjoin_def Let_def intro: quiet_trans [OF quiet_sendto_server])
    then show "runs (do { ch \<leftarrow> chans t c; let s = send_sjoin E cl ch t;
         Some (if tb \<and> conn_has CONN_CAP_TB s \<and> \<not> EmptyString (topic ch)
               then sendto_server ['':'', MYUID E s, '' TB '', chname ch, '' '', lu (topic_tsinfo ch), '' '', topicwho ch, '' :'', topic ch] s
               else s) }) (\<lambda>t. quiet t s)"
      using d quiet_trans [OF quiet_sendto_server sj] by (simp add: Let_def)
  qed
qed

end

lemma foreach_rehash:
  assumes "rehashed H s t" "distinct xs" "\<And>a. a \<in> set xs \<Longrightarrow> H a = hashed s a"
    and step: "\<And>a t. a \<in> set xs \<Longrightarrow> state_ok t \<Longrightarrow> service_frame t s \<Longrightarrow> hashed t a = hashed s a \<Longrightarrow>
      runs (f a t) (rehashed (\<lambda>b. if b = a then P a else hashed t b) t)"
  shows "runs (foreach f xs t) (rehashed (\<lambda>b. if b \<in> set xs then P b else H b) s)"
  using assms
proof (induction xs arbitrary: t H)
  case (Cons x xs)
  note T = rehashedD [OF Cons.prems(1)]
  have "runs (f x t) (rehashed (\<lambda>b. if b = x then P x else hashed t b) t)"
    using Cons.prems(3,4) T by simp
  then have "runs (do { t \<leftarrow> f x t; foreach f xs t }) (rehashed (\<lambda>b. if b \<in> set (x # xs) then P b else H b) s)"
  proof (rule runs_seq)
    fix u assume u: "rehashed (\<lambda>b. if b = x then P x else hashed t b) t u"
    have u': "rehashed (\<lambda>b. if b = x then P x else H b) s u"
      using rehashed_trans [OF Cons.prems(1) u] T(5) by (simp add: rehashed_def)
    have "runs (foreach f xs u) (rehashed (\<lambda>b. if b \<in> set xs then P b else if b = x then P x else H b) s)"
      by (rule Cons.IH [OF u']) (use Cons.prems in auto)
    moreover have "(\<lambda>b. if b \<in> set xs then P b else if b = x then P x else H b) = (\<lambda>b. if b \<in> set (x # xs) then P b else H b)"
      by (simp add: fun_eq_iff)
    ultimately show "runs (foreach f xs u) (rehashed (\<lambda>b. if b \<in> set (x # xs) then P b else H b) s)" by simp
  qed
  then show ?case by simp
qed simp

lemma rehashed_quiet:
  assumes "rehashed H s t" "quiet u t"
  shows "rehashed H s u"
  using assms quiet_service_frame [OF assms(2)] service_frame_trans [of u t s]
  by (simp add: rehashed_def service_frame_def)

text \<open>A service that is not disabled.\<close>

definition enabled :: "net \<Rightarrow> addr \<Rightarrow> bool" where
  "enabled s a \<longleftrightarrow> (\<exists>fl. svc_options s a = Some fl \<and> fl AND SERVICE_DISABLED = 0)"

lemma service_distinct: "state_ok s \<Longrightarrow> distinct (service_list s)"
  by (auto simp: state_ok_def net_ok_def services_ok_def)

context env_ok
begin

lemma introduce_services_runs:
  assumes ok: "state_ok s" and out: "\<And>a. a \<in> set (service_list s) \<Longrightarrow> \<not> hashed s a"
  shows "runs (introduce_services E s) (rehashed (\<lambda>b. if b \<in> set (service_list s) then enabled s b else hashed s b) s)"
  unfolding introduce_services_def for_enabled_def
proof (rule foreach_rehash [OF rehashed_refl [OF ok] service_distinct [OF ok]])
  fix a t assume a: "a \<in> set (service_list s)" and t: "state_ok t" "service_frame t s" "hashed t a = hashed s a"
  have at: "a \<in> set (service_list t)" "\<not> hashed t a" and fl: "svc_options t = svc_options s" using a out t by (simp_all add: service_frame_def)
  obtain sv where sv: "get_service a t = Some sv" by (rule service_in_list [OF state_okD(1) [OF t(1)] at(1)])
  have "svc_options s a = Some (svc_flags sv)" unfolding fl [symmetric] by (simp add: svc_options_def sv)
  then have en: "enabled s a \<longleftrightarrow> svc_flags sv AND SERVICE_DISABLED = 0" by (simp add: enabled_def)
  have hi: "(\<lambda>b. hashed t b \<or> b = a) = (\<lambda>b. b \<noteq> a \<longrightarrow> hashed t b)"
    using at(2) by (auto simp: fun_eq_iff)
  show "runs (do { sv \<leftarrow> get_service a t; if svc_flags sv AND SERVICE_DISABLED \<noteq> 0 then Some t else introduce_service E a t })
      (rehashed (\<lambda>b. if b = a then enabled s a else hashed t b) t)"
  proof (cases "enabled s a")
    case True
    then show ?thesis using sv en introduce_service_runs [OF t(1) at] hi by simp
  next
    case False
    then have "rehashed (\<lambda>b. if b = a then enabled s a else hashed t b) t t" using rehashed_refl [OF t(1)] at(2) by (auto simp: rehashed_def)
    then show ?thesis using sv en False by simp
  qed
qed simp

lemma introduce_services_channels_runs:
  assumes ok: "state_ok s"
  shows "runs (introduce_services_channels E s) (\<lambda>t. quiet t s)"
  unfolding introduce_services_channels_def for_enabled_def
proof (rule runs_foreach)
  show "quiet s s" by simp
  fix a t assume a: "a \<in> set (service_list s)" and q: "quiet t s"
  have t: "state_ok t" "service_list t = service_list s" using quiet_service_frame(1) [OF q] ok by (simp_all add: service_frame_def)
  obtain sv where sv: "get_service a t = Some sv" by (rule service_in_list [OF state_okD(1) [OF t(1)]]) (use a t in auto)
  have "runs (introduce_service_channels E a True t) (\<lambda>u. quiet u s)"
    using introduce_service_channels_runs [OF t(1), of a True] a t(2) by (auto elim!: runs_mono intro: quiet_trans [OF _ q])
  then show "runs (do { sv \<leftarrow> get_service a t; if svc_flags sv AND SERVICE_DISABLED \<noteq> 0 then Some t else introduce_service_channels E a True t }) (\<lambda>t. quiet t s)"
    using sv q by simp
qed

lemma cycle_service_runs:
  assumes ok: "state_ok s" and a: "a \<in> set (service_list s)" "hashed s a"
  shows "runs (do { s \<leftarrow> del_client (lib E) a s; s \<leftarrow> introduce_service E a s; introduce_service_channels E a False s }) (rehashed (hashed s) s)"
proof (rule runs_seq [OF del_service_client_runs [OF assms]])
  fix t assume t: "service_frame t s \<and> (\<forall>b. hashed t b \<longleftrightarrow> hashed s b \<and> b \<noteq> a)"
  then have T: "state_ok t" "a \<in> set (service_list t)" "\<not> hashed t a" using ok a by (auto simp: service_frame_def)
  have H: "(\<lambda>b. hashed t b \<or> b = a) = hashed s" using t a(2) by (auto simp: fun_eq_iff)
  show "runs (do { s \<leftarrow> introduce_service E a t; introduce_service_channels E a False s }) (rehashed (hashed s) s)"
  proof (rule runs_seq [OF introduce_service_runs [OF T]], unfold H)
    fix u assume u: "rehashed (hashed s) t u"
    have su: "rehashed (hashed s) s u" using u t ok service_frame_trans [of u t s] by (auto simp: rehashed_def)
    have "runs (introduce_service_channels E a False u) (\<lambda>w. quiet w u)"
      by (rule introduce_service_channels_runs) (use rehashedD [OF u] T in auto)
    then show "runs (introduce_service_channels E a False u) (rehashed (hashed s) s)"
      by (rule runs_mono) (rule rehashed_quiet [OF su])
  qed
qed

lemma clear_status_runs:
  assumes "rehashed H s t" "a \<in> set (service_list s)"
  shows "runs (upd_service a (\<lambda>sv. sv\<lparr>status := status sv AND NOT x\<rparr>) t) (rehashed H s)"
proof -
  note T = rehashedD [OF assms(1)]
  obtain sv where sv: "get_service a t = Some sv" by (rule service_in_list [OF T(2), of a]) (use assms(2) T(4) in auto)
  have "runs (upd_service a (\<lambda>sv. sv\<lparr>status := status sv AND NOT x\<rparr>) t) (\<lambda>u. service_frame u t \<and> (\<forall>b. hashed u b = hashed t b))"
    by (rule upd_status_runs [OF sv]) simp_all
  then show ?thesis
    by (rule runs_mono) (use assms(1) T service_frame_trans [of _ t s] in \<open>auto simp: rehashed_def service_frame_def\<close>)
qed

lemma reintroduce_service_runs:
  assumes ok: "state_ok s" and a: "a \<in> set (service_list s)" "hashed s a"
  shows "runs (reintroduce_service E a s) (rehashed (hashed s) s)"
proof -
  obtain cl where cl: "clients s a = Some cl" by (rule service_in_list [OF state_okD(1) [OF ok] a(1)])
  define w where "w = sendto_server ['':'', SVC_UID cl s, '' QUIT :Updating information''] s"
  have q: "quiet w s" by (simp add: w_def)
  have rw: "rehashed (hashed s) s w" by (rule rehashed_quiet [OF rehashed_refl [OF ok] q])
  note W = rehashedD [OF rw]
  have hw: "hashed w = hashed s" using W(5) by auto
  have cyc: "runs (do { s \<leftarrow> del_client (lib E) a w; s \<leftarrow> introduce_service E a s; introduce_service_channels E a False s }) (rehashed (hashed s) s)"
    using cycle_service_runs [OF W(1), of a] a W(4) hw by (auto elim!: runs_mono intro: rehashed_trans [OF rw])
  have run: "reintroduce_service E a s = do { t \<leftarrow> do { s \<leftarrow> del_client (lib E) a w; s \<leftarrow> introduce_service E a s; introduce_service_channels E a False s };
      upd_service a (\<lambda>sv. sv\<lparr>status := status sv AND NOT SERVICE_REINTRODUCE\<rparr>) t }"
    using cl by (simp add: reintroduce_service_def Let_def w_def)
  show ?thesis
    unfolding run by (rule runs_seq [OF cyc]) (rule clear_status_runs [OF _ a(1)])
qed

lemma withdraw_service_runs:
  assumes r: "rehashed H s t" and a: "a \<in> set (service_list s)" "H a"
  shows "runs (do { t \<leftarrow> upd_service a (\<lambda>sv. sv\<lparr>status := status sv AND NOT SERVICE_INTRODUCED\<rparr>) t; del_client (lib E) a t })
    (rehashed (\<lambda>b. H b \<and> b \<noteq> a) s)"
proof (rule runs_seq [OF clear_status_runs [OF r a(1)]])
  fix u assume u: "rehashed H s u"
  note U = rehashedD [OF u]
  have "runs (del_client (lib E) a u) (\<lambda>w. service_frame w u \<and> (\<forall>b. hashed w b \<longleftrightarrow> hashed u b \<and> b \<noteq> a))"
    by (rule del_service_client_runs [OF U(1)]) (use a U in auto)
  then show "runs (del_client (lib E) a u) (rehashed (\<lambda>b. H b \<and> b \<noteq> a) s)"
    by (rule runs_mono) (use u U service_frame_trans [of _ u s] in \<open>auto simp: rehashed_def service_frame_def\<close>)
qed

lemma deintroduce_service_runs:
  assumes ok: "state_ok s" and a: "a \<in> set (service_list s)" "hashed s a"
  shows "runs (deintroduce_service E a s) (rehashed (\<lambda>b. hashed s b \<and> b \<noteq> a) s)"
proof -
  obtain cl where cl: "clients s a = Some cl" by (rule service_in_list [OF state_okD(1) [OF ok] a(1)])
  have rw: "rehashed (hashed s) s (sendto_server ['':'', SVC_UID cl s, '' QUIT :Disabled''] s)"
    by (rule rehashed_quiet [OF rehashed_refl [OF ok]]) simp
  show ?thesis
    using withdraw_service_runs [OF rw a] cl by (simp add: deintroduce_service_def Let_def)
qed

end

lemma state_ok_server_p [simp]: "state_ok (s\<lparr>server_p := c\<rparr>) = state_ok s"
proof -
  let ?s = "s\<lparr>server_p := c\<rparr>"
  have P: "keys ?s = keys s" "kind ?s = kind s" "parent ?s = parent s" "dead ?s = dead s" "server_lists ?s = server_lists s"
    "user_oper ?s = user_oper s" "user_link ?s = user_link s" "user_chans ?s = user_chans s" "service_chans ?s = service_chans s"
    "chan_key ?s = chan_key s" "chan_lists ?s = chan_lists s" "chan_services ?s = chan_services s"
    by (auto simp: projection_defs fun_eq_iff)
  have "tables_ok ?s = tables_ok s" "links_ok ?s = links_ok s" "opers_ok ?s = opers_ok s" "alloc_ok ?s = alloc_ok s"
    "listed_ok ?s = listed_ok s" "chans_ok ?s = chans_ok s"
    using tables_ok_cong [of ?s s] links_ok_cong [of ?s s] opers_ok_cong [of ?s s] alloc_ok_cong [of ?s s] listed_ok_cong [of ?s s]
      chans_ok_cong [of ?s s] P by simp_all
  then show ?thesis using P by (simp add: state_ok_def alive_def net_ok_alt clients_ok_def)
qed

context env_ok
begin

text \<open>The uplink is lost: every service was introduced.\<close>

lemma signoff_server_runs:
  assumes ok: "state_ok s" and conn: "server_p s = Some conn" and inn: "\<And>a. a \<in> set (service_list s) \<Longrightarrow> hashed s a"
    and up: "\<And>v. conn_client conn = Some v \<Longrightarrow> v \<in> set (server_list s)"
  shows "runs (signoff_server E s) state_ok"
proof (cases "conn_flags conn AND CONN_DEAD = 0")
  case True
  let ?w = "s\<lparr>server_p := Some (conn\<lparr>conn_flags := conn_flags conn OR CONN_DEAD\<rparr>)\<rparr>"
  have okw: "state_ok ?w" using ok by simp
  have hw: "hashed ?w = hashed s" by (simp add: hashed_def keys_def fun_eq_iff)
  have 1: "runs (foreach (\<lambda>a s. do { s \<leftarrow> upd_service a (\<lambda>sv. sv\<lparr>status := status sv AND NOT SERVICE_INTRODUCED\<rparr>) s; del_client (lib E) a s })
      (service_list s) ?w) (rehashed (\<lambda>b. if b \<in> set (service_list s) then False else hashed ?w b) ?w)"
  proof (rule foreach_rehash [OF rehashed_refl [OF okw]])
    show "distinct (service_list s)" by (rule service_distinct [OF ok])
    fix a t assume a: "a \<in> set (service_list s)" and t: "state_ok t" "service_frame t ?w" "hashed t a = hashed ?w a"
    have "runs (do { t \<leftarrow> upd_service a (\<lambda>sv. sv\<lparr>status := status sv AND NOT SERVICE_INTRODUCED\<rparr>) t; del_client (lib E) a t })
      (rehashed (\<lambda>b. hashed t b \<and> b \<noteq> a) t)"
      by (rule withdraw_service_runs [OF rehashed_refl [OF t(1)]]) (use a t inn hw service_frameD(7) [OF t(2)] in auto)
    moreover have "(\<lambda>b. hashed t b \<and> b \<noteq> a) = (\<lambda>b. if b = a then False else hashed t b)" by auto
    ultimately show "runs (do { t \<leftarrow> upd_service a (\<lambda>sv. sv\<lparr>status := status sv AND NOT SERVICE_INTRODUCED\<rparr>) t; del_client (lib E) a t })
      (rehashed (\<lambda>b. if b = a then False else hashed t b) t)" by simp
  qed simp
  have run: "signoff_server E s = do { s \<leftarrow> foreach (\<lambda>a s. do { s \<leftarrow> upd_service a (\<lambda>sv. sv\<lparr>status := status sv AND NOT SERVICE_INTRODUCED\<rparr>) s;
      del_client (lib E) a s }) (service_list s) ?w; case conn_client conn of None \<Rightarrow> Some s | Some v \<Rightarrow> exit_client E v False s }"
    using conn True by (simp add: signoff_server_def Let_def)
  show ?thesis
    unfolding run
  proof (rule runs_seq [OF 1])
    fix t assume t: "rehashed (\<lambda>b. if b \<in> set (service_list s) then False else hashed ?w b) ?w t"
    note T = rehashedD [OF t]
    have sl: "server_list t = server_list s" using T(3) by (simp add: service_frame_def)
    have "runs (exit_client E v False t) state_ok" if "conn_client conn = Some v" for v
    proof -
      have "runs (exit_client E v False t) (exited (behind t v) t)"
        by (rule exit_client_runs [OF T(2)]) (use T(1) state_okD(2) up [OF that] sl in auto)
      then show ?thesis by (rule runs_mono) (rule exited_state_ok [OF T(1)])
    qed
    then show "runs (case conn_client conn of None \<Rightarrow> Some t | Some v \<Rightarrow> exit_client E v False t) state_ok"
      using T(1) by (cases "conn_client conn") auto
  qed
qed (use conn ok in \<open>simp add: signoff_server_def\<close>)

end

subsection \<open>A client is introduced\<close>

text \<open>The new client is a user or a server, behind \<open>up\<close> when it has an uplink.\<close>

definition client_added :: "net \<Rightarrow> bool \<Rightarrow> addr option \<Rightarrow> net \<Rightarrow> bool" where
  "client_added s isuser up y \<longleftrightarrow>
     (let n = next_addr s in
      next_addr y = Suc n \<and> (\<forall>b. b \<noteq> n \<longrightarrow> keys y b = keys s b) \<and>
      kind y = (kind s)(n \<mapsto> (isuser, \<not> isuser, False)) \<and> parent y = (parent s)(n := up) \<and> dead y = (dead s)(n := False) \<and>
      distinct (user_list y) \<and> set (user_list y) = set (user_list s) \<union> (if isuser then {n} else {}) \<and>
      distinct (server_list y) \<and> set (server_list y) = set (server_list s) \<union> (if isuser then {} else {n}) \<and>
      service_list y = service_list s \<and> exited_list y = exited_list s \<and>
      (\<forall>b. hashed y b \<longleftrightarrow> hashed s b \<or> b = n) \<and>
      (\<forall>b us vs. b \<noteq> n \<longrightarrow> server_lists y b = Some (us, vs) \<longrightarrow> b \<in> set (server_list s) \<longrightarrow>
         (\<exists>us0 vs0. server_lists s b = Some (us0, vs0) \<and> distinct us \<and> distinct vs \<and>
            set us = set us0 \<union> (if isuser \<and> up = Some b then {n} else {}) \<and> set vs = set vs0 \<union> (if \<not> isuser \<and> up = Some b then {n} else {}))) \<and>
      (\<forall>us vs. server_lists y n = Some (us, vs) \<longrightarrow> us = [] \<and> vs = []))"

definition added_frame :: "net \<Rightarrow> bool \<Rightarrow> net \<Rightarrow> bool" where
  "added_frame s isuser y \<longleftrightarrow>
     user_chans y = (user_chans s)(next_addr s := if isuser then Some [] else None) \<and> service_chans y = service_chans s \<and>
     user_oper y = (user_oper s)(next_addr s := None) \<and> user_link y = (user_link s)(next_addr s := None) \<and>
     chan_key y = chan_key s \<and> chan_lists y = chan_lists s \<and> chan_services y = chan_services s \<and> members y = members s \<and>
     channel_table y = channel_table s \<and> channel_list y = channel_list s \<and> conf_opers y = conf_opers s \<and>
     client_oper_list y = client_oper_list s \<and> conf_oper_list y = conf_oper_list s \<and> user_regs y = user_regs s \<and>
     deopped_list y = deopped_list s"

lemma fresh_client:
  assumes "net_ok s" "next_addr s \<le> a"
  shows "keys s a = None" "clients s a = None" "kind s a = None" "\<not> hashed s a" "a \<notin> set (user_list s)" "a \<notin> set (server_list s)"
    "a \<notin> set (service_list s)" "a \<notin> set (exited_list s)" "service_chans s a = None" "user_chans s a = None" "server_lists s a = None"
proof -
  have D: "links_ok s" "listed_ok s" "alloc_ok s" using assms(1) by blast+
  show k: "keys s a = None" using D(3) assms(2) by (auto simp: alloc_ok_def)
  then show c: "clients s a = None" by (auto simp: keys_def)
  then show q: "kind s a = None" by (simp add: kind_def)
  show "\<not> hashed s a" using k by (auto simp: hashed_def)
  show "a \<notin> set (user_list s)" "a \<notin> set (server_list s)" "a \<notin> set (exited_list s)" using links_okD(3,4,7) [OF D(1), of a] q by auto
  show "a \<notin> set (service_list s)" using D(2) q by (auto simp: listed_ok_def)
  show "service_chans s a = None" "user_chans s a = None" "server_lists s a = None"
    using c by (simp_all add: service_chans_def user_chans_def get_service_def get_user_def server_lists_def get_server_def)
qed

lemma links_ok_added:
  assumes ok: "net_ok s" and g: "client_added s isuser up y" and up: "isuser \<Longrightarrow> up \<noteq> None" "\<And>v. up = Some v \<Longrightarrow> v \<in> set (server_list s)"
  shows "links_ok y"
proof -
  let ?n = "next_addr s"
  have lo: "links_ok s" using ok by blast
  note K = links_okD [OF lo] and F = fresh_client [OF ok le_refl]
  have G: "kind y = (kind s)(?n \<mapsto> (isuser, \<not> isuser, False))" "parent y = (parent s)(?n := up)" "dead y = (dead s)(?n := False)"
      "distinct (user_list y)" "set (user_list y) = set (user_list s) \<union> (if isuser then {?n} else {})"
      "distinct (server_list y)" "set (server_list y) = set (server_list s) \<union> (if isuser then {} else {?n})"
      "exited_list y = exited_list s" "\<And>b. hashed y b \<longleftrightarrow> hashed s b \<or> b = ?n"
      "\<And>us vs. server_lists y ?n = Some (us, vs) \<Longrightarrow> us = [] \<and> vs = []"
    and L: "\<And>b us vs. b \<noteq> ?n \<Longrightarrow> server_lists y b = Some (us, vs) \<Longrightarrow> b \<in> set (server_list s) \<Longrightarrow>
         \<exists>us0 vs0. server_lists s b = Some (us0, vs0) \<and> distinct us \<and> distinct vs \<and>
            set us = set us0 \<union> (if isuser \<and> up = Some b then {?n} else {}) \<and> set vs = set vs0 \<union> (if \<not> isuser \<and> up = Some b then {?n} else {})"
    using g unfolding client_added_def Let_def by blast+
  have lt: "b < ?n" if "hashed s b" for b
    using that fresh_client(4) [OF ok, of b] by (meson not_le)
  have upl: "v < ?n" "v \<in> set (server_list s)" if "up = Some v" for v using up(2) [OF that] lt K(4) by auto
  have pn: "parent s b \<noteq> Some ?n" if "b \<in> set (user_list s) \<union> set (server_list s)" for b using that K(3) [of b] K(5) [of b ?n] F(6) by auto
  show ?thesis
    unfolding links_ok_def
  proof (intro conjI allI impI)
    fix a assume a: "a \<in> set (user_list y)"
    show "hashed y a" "kind y a = Some (True, False, False)" "\<not> dead y a" "\<exists>v. parent y a = Some v \<and> v \<in> set (server_list y) \<and> v < a"
      using a K(3) [of a] up(1) upl F by (auto simp: G split: if_splits)
  next
    fix a assume a: "a \<in> set (server_list y)"
    show "hashed y a" "kind y a = Some (False, True, False)" using a K(4) [of a] F by (auto simp: G split: if_splits)
    fix v assume "parent y a = Some v"
    then show "v \<in> set (server_list y)" "v < a" using a K(5) [of a v] upl F by (auto simp: G split: if_splits)
  next
    fix a us vs assume a: "a \<in> set (server_list y)" and l: "server_lists y a = Some (us, vs)"
    have "distinct us \<and> distinct vs \<and> (\<forall>b. b \<in> set us \<longleftrightarrow> b \<in> set (user_list y) \<and> parent y b = Some a) \<and>
        (\<forall>b. b \<in> set vs \<longleftrightarrow> b \<in> set (server_list y) \<and> parent y b = Some a)"
    proof (cases "a = ?n")
      case True
      then have "us = []" "vs = []" using G(10) l by auto
      moreover have "parent y b \<noteq> Some a" if "b \<in> set (user_list y) \<union> set (server_list y)" for b
        using that True pn [of b] upl by (auto simp: G split: if_splits)
      ultimately show ?thesis by auto
    next
      case False
      then have as: "a \<in> set (server_list s)" using a by (auto simp: G split: if_splits)
      obtain us0 vs0 where l0: "server_lists s a = Some (us0, vs0)" "distinct us" "distinct vs"
          "set us = set us0 \<union> (if isuser \<and> up = Some a then {?n} else {})" "set vs = set vs0 \<union> (if \<not> isuser \<and> up = Some a then {?n} else {})"
        using L [OF False l as] by blast
      note M = K(6) [OF as l0(1)]
      have "b \<in> set us \<longleftrightarrow> b \<in> set (user_list y) \<and> parent y b = Some a" "b \<in> set vs \<longleftrightarrow> b \<in> set (server_list y) \<and> parent y b = Some a" for b
        using M F(5,6) unfolding l0(4,5) G(2,5,7) by (cases "b = ?n"; cases isuser; simp)+
      then show ?thesis using l0(2,3) by blast
    qed
    then show "distinct us" "distinct vs" "\<And>b. b \<in> set us \<longleftrightarrow> b \<in> set (user_list y) \<and> parent y b = Some a"
      "\<And>b. b \<in> set vs \<longleftrightarrow> b \<in> set (server_list y) \<and> parent y b = Some a" by blast+
  next
    fix a assume "a \<in> set (exited_list y)"
    then show "\<exists>x z. kind y a = Some (x, z, False)" "\<not> hashed y a" using K(7) [of a] F(8) by (auto simp: G)
  qed (use G K(8) in simp_all)
qed

lemma state_ok_added:
  assumes ok: "state_ok s" and g: "client_added s isuser up y" and f: "added_frame s isuser y" and t: "tables_ok y"
    and up: "isuser \<Longrightarrow> up \<noteq> None" "\<And>v. up = Some v \<Longrightarrow> v \<in> set (server_list s)"
  shows "state_ok y"
proof -
  let ?n = "next_addr s"
  have n: "net_ok s" using ok by (simp add: state_ok_def)
  then have D: "opers_ok s" "alloc_ok s" "listed_ok s" "members_ok s" "chtable_ok s" "services_ok s" by blast+
  note F = fresh_client [OF n le_refl]
  have G: "next_addr y = Suc ?n" "\<And>b. b \<noteq> ?n \<Longrightarrow> keys y b = keys s b" "kind y = (kind s)(?n \<mapsto> (isuser, \<not> isuser, False))" "dead y = (dead s)(?n := False)"
      "distinct (user_list y)" "set (user_list y) = set (user_list s) \<union> (if isuser then {?n} else {})"
      "set (server_list y) = set (server_list s) \<union> (if isuser then {} else {?n})"
      "service_list y = service_list s" "\<And>b. hashed y b \<longleftrightarrow> hashed s b \<or> b = ?n"
    using g unfolding client_added_def Let_def by blast+
  have A: "user_chans y = (user_chans s)(?n := if isuser then Some [] else None)" "service_chans y = service_chans s"
     "user_oper y = (user_oper s)(?n := None)" "user_link y = (user_link s)(?n := None)"
     "chan_key y = chan_key s" "chan_lists y = chan_lists s" "chan_services y = chan_services s" "members y = members s"
     "channel_table y = channel_table s" "channel_list y = channel_list s" "conf_opers y = conf_opers s"
     "client_oper_list y = client_oper_list s" "conf_oper_list y = conf_oper_list s" "user_regs y = user_regs s" "deopped_list y = deopped_list s"
    using f by (simp_all add: added_frame_def)
  have "links_ok y" by (rule links_ok_added [OF n g up])
  moreover have "alloc_ok y" unfolding alloc_ok_def
  proof (intro allI impI)
    fix x assume x: "next_addr y \<le> x"
    then have "x \<noteq> ?n" "?n \<le> x" using G(1) by auto
    then show "keys y x = None \<and> chan_key y x = None \<and> members y x = None" using D(2) G(2) A by (simp add: alloc_ok_def)
  qed
  moreover have "listed_ok y" using D(3) F(7) by (auto simp: listed_ok_def G)
  moreover have "chtable_ok y" "services_ok y" using D chtable_ok_cong [of y s] services_ok_cong [of y s] G A by simp_all
  moreover have "members_ok y"
  proof -
    note M = members_okD [OF D(4)]
    have ne: "mclient mp \<noteq> ?n" if "members s m = Some mp" for m mp using M(1) [OF that] F(5) by auto
    then have "user_chans y (mclient mp) \<noteq> None \<and> mclient mp \<in> set (user_list y)" if "members s m = Some mp" for m mp
      using M(1) [OF that] ne [OF that] A(1) G(6) by auto
    moreover have "user_match (members s) a ms" if "user_chans y a = Some ms" for a ms
      using that A(1) M(4) [of a ms] ne by (cases "a = ?n") (auto simp: user_match_def split: if_splits)
    ultimately show ?thesis using D(4) unfolding members_ok_def A(6,8) by simp
  qed
  moreover have "opers_ok y"
  proof -
    have "{a. user_oper y a = Some p} \<inter> set (user_list y) = {a. user_oper s a = Some p} \<inter> set (user_list s)" for p
      using F(5) A(3) G(6) by auto
    then have "oper_refs y p = oper_refs s p" for p
      using G(5) links_okD(1) [OF net_okD(5) [OF n]] A(12) by (simp add: oper_refs_def distinct_length_filter)
    then show ?thesis using D(1) A(4,11-14) G(6) F(5) unfolding opers_ok_def by auto
  qed
  ultimately have "net_ok y" using t by (simp add: net_ok_def)
  moreover have "alive y" using ok by (auto simp: state_ok_def alive_def G split: if_splits)
  ultimately show ?thesis by (simp add: state_ok_def)
qed

lemma alloc_proj:
  fixes s :: net and cl :: client
  defines "y \<equiv> s\<lparr>clients := (clients s)(next_addr s \<mapsto> cl), next_addr := Suc (next_addr s)\<rparr>"
  shows "keys y = (keys s)(next_addr s \<mapsto> (name cl, uid cl))"
    "kind y = (kind s)(next_addr s \<mapsto> (user cl \<noteq> None, server cl \<noteq> None, service cl \<noteq> None))"
    "parent y = (parent s)(next_addr s := uplink cl)" "dead y = (dead s)(next_addr s := (flags cl AND FLAGS_DEAD \<noteq> 0))"
    "server_lists y = (server_lists s)(next_addr s := map_option (\<lambda>v. (server_users v, servers v)) (server cl))"
    "user_chans y = (user_chans s)(next_addr s := map_option channels (user cl))"
    "service_chans y = (service_chans s)(next_addr s := map_option svc_channels (service cl))"
    "user_oper y = (user_oper s)(next_addr s := (case user cl of None \<Rightarrow> None | Some u \<Rightarrow> oper u))"
    "user_link y = (user_link s)(next_addr s := (case user cl of None \<Rightarrow> None | Some u \<Rightarrow> user_reg u))"
    "chan_key y = chan_key s" "chan_lists y = chan_lists s" "chan_services y = chan_services s"
    "get_server b y = (if b = next_addr s then server cl else get_server b s)"
  unfolding y_def by (auto simp: projection_defs fun_eq_iff split: option.splits)

lemma alloc_tables:
  assumes ok: "net_ok s" and y: "y = s\<lparr>clients := (clients s)(next_addr s \<mapsto> cl), next_addr := Suc (next_addr s)\<rparr>"
  shows "tables_ok y" "hashed y b = hashed s b"
proof -
  have t: "tables_ok s" using ok by blast
  note T = tables_okD [OF t] and F = fresh_client [OF ok le_refl]
  have k: "keys y a = keys s a" if "hashed s a" for a using that F(4) alloc_proj(1) [of s cl] by (auto simp: y)
  have n: "a \<in> set (name_table y h) \<longleftrightarrow> hashed s a \<and> (\<exists>n u. keys y a = Some (n, u) \<and> hash_name n = h)" for h a
    using T(3) [of a h] k [of a] by (cases "hashed s a") (simp_all add: y)
  have u: "a \<in> set (uid_table y h) \<longleftrightarrow> hashed s a \<and> (\<exists>n u. keys y a = Some (n, u) \<and> u \<noteq> [] \<and> hash_name u = h)" for h a
    using T(4) [of a h] k [of a] by (cases "hashed s a") (simp_all add: y)
  have d: "distinct (name_table y h)" "distinct (uid_table y h)" for h using T(1,2) by (simp_all add: y)
  have kn: "keys y a \<noteq> None" if "hashed s a" for a using k [OF that] that by (auto simp: hashed_def)
  show "tables_ok y" "hashed y b = hashed s b" using tables_okI [OF d n u kn] by blast+
qed

text \<open>The client structure of a user that is introduced.\<close>

definition new_user :: "addr \<Rightarrow> client \<Rightarrow> bool" where
  "new_user v cl \<longleftrightarrow> server cl = None \<and> service cl = None \<and> uplink cl = Some v \<and> flags cl AND FLAGS_DEAD = 0 \<and>
     (\<exists>u. user cl = Some u \<and> channels u = [] \<and> oper u = None \<and> user_reg u = None)"

context env_ok
begin

lemma alloc_hash_runs:
  assumes ok: "net_ok s" and y: "y = s\<lparr>clients := (clients s)(next_addr s \<mapsto> cl), next_addr := Suc (next_addr s)\<rparr>"
  shows "runs (add_client (lib E) (next_addr s) y) (\<lambda>t. table_frame t y \<and> tables_ok t \<and> (\<forall>b. hashed t b \<longleftrightarrow> hashed s b \<or> b = next_addr s))"
proof -
  have "runs (add_client (lib E) (next_addr s) y) (\<lambda>t. table_frame t y \<and> tables_ok t \<and> (\<forall>b. hashed t b \<longleftrightarrow> hashed y b \<or> b = next_addr s))"
    by (rule add_client_runs [OF alloc_tables(1) [OF ok y], where cl = cl]) (use alloc_tables(2) [OF ok y] fresh_client(4) [OF ok le_refl] in \<open>auto simp: y\<close>)
  then show ?thesis using alloc_tables(2) [OF ok y] by simp
qed

lemma server_of:
  assumes "net_ok s" "v \<in> set (server_list s)"
  obtains up vv where "clients s v = Some up" "server up = Some vv" "get_server v s = Some vv" "server_lists s v = Some (server_users vv, servers vv)"
    "distinct (server_users vv)" "distinct (servers vv)" "next_addr s \<notin> set (server_users vv)" "next_addr s \<notin> set (servers vv)" "v \<noteq> next_addr s"
proof -
  have lo: "links_ok s" using assms(1) by blast
  note F = fresh_client [OF assms(1) le_refl]
  obtain up vv where v: "clients s v = Some up" "server up = Some vv" using links_okD(4) [OF lo assms(2)] by (auto simp: kind_def)
  then have g: "get_server v s = Some vv" "server_lists s v = Some (server_users vv, servers vv)" by (simp_all add: get_server_def server_lists_def)
  have "next_addr s \<notin> set (server_users vv)" "next_addr s \<notin> set (servers vv)" using links_okD(6) [OF lo assms(2) g(2)] F(5,6) by auto
  then show thesis using that [OF v g] links_okD(6) [OF lo assms(2) g(2)] F(6) assms(2) by auto
qed

lemma connect_hook:
  obtains q where "(if b then hook_do E HOOK_CLIENT_CONNECT x y w else hook_do E HOOK_CLIENT_CONNECT_BURST x y w) = Some (w\<lparr>sendq := q\<rparr>)"
proof -
  have "HOOK_CLIENT_CONNECT \<in> set passive_hooks" "HOOK_CLIENT_CONNECT_BURST \<in> set passive_hooks" by (simp_all add: passive_hooks_def)
  then obtain q q' where "hook_do E HOOK_CLIENT_CONNECT x y w = Some (w\<lparr>sendq := q\<rparr>)" "hook_do E HOOK_CLIENT_CONNECT_BURST x y w = Some (w\<lparr>sendq := q'\<rparr>)"
    using hook_do_passive by metis
  then show thesis using that by (cases b) simp_all
qed

lemma add_user_runs:
  assumes ok: "state_ok s" and v: "v \<in> set (server_list s)" and cl: "new_user v cl"
  shows "runs (add_user E v cl s) (\<lambda>t. state_ok t \<and> client_added s True (Some v) t \<and> clients t (next_addr s) = Some cl)"
proof -
  let ?n = "next_addr s"
  have n: "net_ok s" using ok by (simp add: state_ok_def)
  note F = fresh_client [OF n le_refl]
  obtain up vv where vv: "clients s v = Some up" "server up = Some vv" "get_server v s = Some vv" "server_lists s v = Some (server_users vv, servers vv)"
    "distinct (server_users vv)" "distinct (servers vv)" "?n \<notin> set (server_users vv)" "?n \<notin> set (servers vv)" "v \<noteq> ?n"
    by (rule server_of [OF n v])
  define y where "y = s\<lparr>clients := (clients s)(?n \<mapsto> cl), next_addr := Suc ?n\<rparr>"
  note Y = alloc_proj [where s = s and cl = cl, folded y_def]
  obtain u where u: "user cl = Some u" "channels u = []" "oper u = None" "user_reg u = None" "server cl = None" "service cl = None"
      "uplink cl = Some v" "flags cl AND FLAGS_DEAD = 0" using cl by (auto simp: new_user_def)
  let ?h = "\<lambda>t. if flags up AND FLAGS_EOB \<noteq> 0 then hook_do E HOOK_CLIENT_CONNECT (ArgClient ?n) ArgNull t
     else hook_do E HOOK_CLIENT_CONNECT_BURST (ArgClient ?n) ArgNull t"
  let ?add = "dlinkAdd (rb_ptrs (lib E)) ?n"
  have run: "add_user E v cl s = do { t \<leftarrow> add_client (lib E) ?n y;
      t \<leftarrow> upd_server v (\<lambda>v. v\<lparr>server_users := ?add (server_users v)\<rparr>) (t\<lparr>user_list := ?add (user_list t)\<rparr>); ?h t }"
    using vv(1) by (simp add: add_user_def alloc_client_def y_def Let_def)
  show ?thesis
    unfolding run
  proof (rule runs_seq [OF alloc_hash_runs [OF n y_def]], elim conjE)
    fix t assume t: "table_frame t y" "tables_ok t" "\<forall>b. hashed t b \<longleftrightarrow> hashed s b \<or> b = ?n"
    note T = table_frame_proj [OF t(1)] table_frame_fields [OF t(1)]
    let ?t = "t\<lparr>user_list := ?add (user_list t)\<rparr>" and ?v = "vv\<lparr>server_users := ?add (server_users vv)\<rparr>"
    have g: "get_server v ?t = Some vv" using vv(3,9) Y(13) [of v] T(13) by (simp add: get_server_def)
    define w where "w = set_server v ?v ?t"
    note W = set_server_proj [OF g, where v = ?v, folded w_def]
    have Fw: "name_table w = name_table t" "uid_table w = uid_table t" "user_list w = ?add (user_list t)" "server_list w = server_list t"
      "service_list w = service_list t" "exited_list w = exited_list t" "next_addr w = next_addr t" "members w = members t"
      "channel_table w = channel_table t" "channel_list w = channel_list t" "conf_opers w = conf_opers t" "client_oper_list w = client_oper_list t"
      "conf_oper_list w = conf_oper_list t" "user_regs w = user_regs t" "chan_key w = chan_key t" "chan_lists w = chan_lists t" "chan_services w = chan_services t"
      "deopped_list w = deopped_list t"
      by (simp_all add: w_def)
    have hw: "hashed w b \<longleftrightarrow> hashed s b \<or> b = ?n" for b using t(3) by (simp add: hashed_def W Fw)
    have tw: "tables_ok w" using t(2) tables_ok_cong [of w t] W Fw by simp
    have lists: "server_lists w = (server_lists s)(?n := None, v \<mapsto> (?add (server_users vv), servers vv))"
      using W T Y u by (simp add: fun_eq_iff)
    have added: "client_added s True (Some v) w"
      unfolding client_added_def Let_def
    proof (intro conjI allI impI)
      fix b us vs assume b: "b \<noteq> ?n" "server_lists w b = Some (us, vs)" "b \<in> set (server_list s)"
      show "\<exists>us0 vs0. server_lists s b = Some (us0, vs0) \<and> distinct us \<and> distinct vs \<and>
            set us = set us0 \<union> (if True \<and> Some v = Some b then {?n} else {}) \<and> set vs = set vs0 \<union> (if \<not> True \<and> Some v = Some b then {?n} else {})"
      proof (cases "b = v")
        case True
        then have "us = ?add (server_users vv)" "vs = servers vv" using b(2) by (simp_all add: lists)
        then show ?thesis using vv(4-8) True by simp
      next
        case False
        then have l: "server_lists s b = Some (us, vs)" using b by (simp add: lists)
        then show ?thesis using links_okD(6) [OF net_okD(5) [OF n] b(3) l] False by simp
      qed
    qed (use T Y u W Fw hw F(5,6) links_okD(1,2) [OF net_okD(5) [OF n]] lists vv(9) in \<open>auto simp: y_def fun_eq_iff\<close>)
    have frame: "added_frame s True w"
      unfolding added_frame_def
    proof (intro conjI)
      show "service_chans w = service_chans s" using T Y u W F(9) by (simp add: fun_upd_idem)
    qed (use T Y u W Fw in \<open>simp_all add: y_def\<close>)
    have okw: "state_ok w" by (rule state_ok_added [OF ok added frame tw]) (use v in simp_all)
    have cw: "clients w ?n = Some cl" using T vv(9) by (simp add: w_def set_server_def y_def)
    have upd: "upd_server v (\<lambda>v. v\<lparr>server_users := ?add (server_users v)\<rparr>) ?t = Some w" using upd_server_eq [OF g] by (simp add: w_def)
    obtain q where q: "?h w = Some (w\<lparr>sendq := q\<rparr>)" by (rule connect_hook)
    have "state_ok (w\<lparr>sendq := q\<rparr>)" using okw service_frameD(1) [OF quiet_service_frame(1) [OF quiet_sendq]] by blast
    moreover have "client_added s True (Some v) (w\<lparr>sendq := q\<rparr>)" using added by (simp add: client_added_def hashed_def)
    ultimately show "runs (do { t \<leftarrow> upd_server v (\<lambda>v. v\<lparr>server_users := ?add (server_users v)\<rparr>) ?t; ?h t })
        (\<lambda>t. state_ok t \<and> client_added s True (Some v) t \<and> clients t ?n = Some cl)"
      using upd q cw by simp
  qed
qed

lemma add_server_runs:
  assumes ok: "state_ok s" and v: "v \<in> set (server_list s)"
    and cl: "user cl = None" "service cl = None" "flags cl AND FLAGS_DEAD = 0" "server cl = Some sv" "server_users sv = []" "servers sv = []"
  shows "runs (add_server E v cl s) (\<lambda>(a, t). a = next_addr s \<and> state_ok t \<and> client_added s False (Some v) t \<and>
    clients t a = Some (cl\<lparr>uplink := Some v\<rparr>) \<and> server_p t = server_p s)"
proof -
  let ?n = "next_addr s" and ?cl = "cl\<lparr>uplink := Some v\<rparr>"
  have n: "net_ok s" using ok by (simp add: state_ok_def)
  note F = fresh_client [OF n le_refl]
  obtain vv where vv: "get_server v s = Some vv" "server_lists s v = Some (server_users vv, servers vv)"
    "distinct (server_users vv)" "distinct (servers vv)" "?n \<notin> set (server_users vv)" "?n \<notin> set (servers vv)" "v \<noteq> ?n"
    by (rule server_of [OF n v])
  let ?add = "dlinkAdd (rb_ptrs (lib E)) ?n" and ?v = "vv\<lparr>servers := dlinkAdd (rb_ptrs (lib E)) ?n (servers vv)\<rparr>"
  define y where "y = s\<lparr>clients := (clients s)(?n \<mapsto> ?cl), next_addr := Suc ?n\<rparr>"
  note Y = alloc_proj [where s = s and cl = ?cl, folded y_def]
  define w where "w = set_server v ?v y"
  have g: "get_server v y = Some vv" using vv(1,7) Y(13) by simp
  note W = set_server_proj [OF g, where v = ?v, folded w_def]
  have Fw: "name_table w = name_table s" "uid_table w = uid_table s" "user_list w = user_list s" "server_list w = server_list s"
    "service_list w = service_list s" "exited_list w = exited_list s" "next_addr w = Suc ?n" "members w = members s"
    "channel_table w = channel_table s" "channel_list w = channel_list s" "conf_opers w = conf_opers s" "client_oper_list w = client_oper_list s"
    "conf_oper_list w = conf_oper_list s" "user_regs w = user_regs s" "chan_key w = chan_key s" "chan_lists w = chan_lists s" "chan_services w = chan_services s"
    "server_p w = server_p s" "deopped_list w = deopped_list s"
    using Y by (simp_all add: w_def y_def set_server_def chan_key_def chan_lists_def chan_services_def fun_eq_iff)
  have tw: "tables_ok w" using alloc_tables(1) [OF n y_def] tables_ok_cong [of w y] W Fw by (simp add: y_def)
  have hw: "hashed w b = hashed s b" for b using alloc_tables(2) [OF n y_def, of b] W Fw by (simp add: hashed_def y_def)
  have cw: "clients w ?n = Some ?cl" using vv(7) by (simp add: w_def set_server_def y_def)
  have run: "add_server E v cl s = do { t \<leftarrow> add_client (lib E) ?n w; Some (?n, t\<lparr>server_list := ?add (server_list t)\<rparr>) }"
    using upd_server_eq [OF g] by (simp add: add_server_def alloc_client_def y_def w_def Let_def)
  have "runs (add_client (lib E) ?n w) (\<lambda>t. table_frame t w \<and> tables_ok t \<and> (\<forall>b. hashed t b \<longleftrightarrow> hashed w b \<or> b = ?n))"
    by (rule add_client_runs [OF tw _ cw]) (use hw F(4) in simp)
  then show ?thesis
    unfolding run
  proof (rule runs_seq, elim conjE)
    fix t assume t: "table_frame t w" "tables_ok t" "\<forall>b. hashed t b \<longleftrightarrow> hashed w b \<or> b = ?n"
    note T = table_frame_proj [OF t(1)] table_frame_fields [OF t(1)]
    let ?t = "t\<lparr>server_list := ?add (server_list t)\<rparr>"
    have lists: "server_lists ?t = (server_lists s)(?n \<mapsto> ([], []), v \<mapsto> (server_users vv, ?add (servers vv)))"
      using W T Y cl by simp
    have added: "client_added s False (Some v) ?t"
      unfolding client_added_def Let_def
    proof (intro conjI allI impI)
      fix b us vs assume b: "b \<noteq> ?n" "server_lists ?t b = Some (us, vs)" "b \<in> set (server_list s)"
      show "\<exists>us0 vs0. server_lists s b = Some (us0, vs0) \<and> distinct us \<and> distinct vs \<and>
            set us = set us0 \<union> (if False \<and> Some v = Some b then {?n} else {}) \<and> set vs = set vs0 \<union> (if \<not> False \<and> Some v = Some b then {?n} else {})"
      proof (cases "b = v")
        case True
        then have "us = server_users vv" "vs = ?add (servers vv)" using b(2) unfolding lists by simp_all
        then show ?thesis using vv(2-6) True by simp
      next
        case False
        then have l: "server_lists s b = Some (us, vs)" using b(1,2) unfolding lists by simp
        then show ?thesis using links_okD(6) [OF net_okD(5) [OF n] b(3) l] False by simp
      qed
    qed (use T Y cl W Fw t(3) hw F(5,6) links_okD(1,2) [OF net_okD(5) [OF n]] lists vv(7) in \<open>auto simp: fun_eq_iff hashed_def\<close>)
    have frame: "added_frame s False ?t"
      unfolding added_frame_def
    proof (intro conjI)
      show "service_chans ?t = service_chans s" using T Y cl W F(9) by (simp add: fun_upd_idem)
    qed (use T Y cl W Fw in \<open>simp_all\<close>)
    have "tables_ok ?t" using t(2) tables_ok_cong [of ?t t] by simp
    then have "state_ok ?t" by (intro state_ok_added [OF ok added frame]) (use v in simp_all)
    moreover have "clients ?t ?n = Some ?cl" using T cw by simp
    ultimately show "runs (Some (?n, ?t)) (\<lambda>(a, t). a = ?n \<and> state_ok t \<and> client_added s False (Some v) t \<and> clients t a = Some ?cl \<and> server_p t = server_p s)"
      using added T Fw by simp
  qed
qed

end

subsection \<open>The handlers\<close>

lemma state_ok_cong:
  assumes "clients y = clients s" "chans y = chans s" "members y = members s" "conf_opers y = conf_opers s" "user_regs y = user_regs s"
    "next_addr y = next_addr s" "name_table y = name_table s" "uid_table y = uid_table s" "channel_table y = channel_table s"
    "channel_list y = channel_list s" "user_list y = user_list s" "server_list y = server_list s" "exited_list y = exited_list s"
    "service_list y = service_list s" "conf_oper_list y = conf_oper_list s" "client_oper_list y = client_oper_list s" "deopped_list y = deopped_list s"
  shows "state_ok y = state_ok s"
proof -
  have P: "keys y = keys s" "kind y = kind s" "parent y = parent s" "dead y = dead s" "server_lists y = server_lists s"
    "user_oper y = user_oper s" "user_link y = user_link s" "user_chans y = user_chans s" "service_chans y = service_chans s"
    "chan_key y = chan_key s" "chan_lists y = chan_lists s" "chan_services y = chan_services s"
    using assms(1,2) by (simp_all add: projection_defs fun_eq_iff)
  show ?thesis
    using tables_ok_cong [of y s] links_ok_cong [of y s] opers_ok_cong [of y s] alloc_ok_cong [of y s] listed_ok_cong [of y s] chans_ok_cong [of y s] assms P
    by (simp add: state_ok_def alive_def net_ok_alt clients_ok_def)
qed

lemma state_ok_fields [simp]:
  "state_ok (s\<lparr>died := d\<rparr>) = state_ok s" "state_ok (s\<lparr>first_kill := k\<rparr>) = state_ok s" "state_ok (s\<lparr>num_kill := m\<rparr>) = state_ok s"
  "state_ok (s\<lparr>sendq := q\<rparr>) = state_ok s"
  by (rule state_ok_cong; simp)+

lemma state_ok_send [simp]: "state_ok (sendto_server ps s) = state_ok s"
proof -
  obtain q m where "sendto_server ps s = s\<lparr>sendq := q, mb := m\<rparr>" using quiet_sendto_server [of ps s] by (auto simp: quiet_def)
  then show ?thesis by (simp only:, intro state_ok_cong) simp_all
qed

lemma die_runs: "state_ok s \<Longrightarrow> runs (die msg s) state_ok"
  by (simp add: die_def)

lemma hashed_cases:
  assumes "net_ok s" "hashed s a"
  obtains (user) cl u where "clients s a = Some cl" "user cl = Some u" "server cl = None" "service cl = None" "a \<in> set (user_list s)"
  | (server) cl v where "clients s a = Some cl" "user cl = None" "server cl = Some v" "service cl = None" "a \<in> set (server_list s)"
  | (service) cl v where "clients s a = Some cl" "user cl = None" "server cl = None" "service cl = Some v" "a \<in> set (service_list s)"
proof -
  have L: "listed_ok s" "links_ok s" using assms(1) by blast+
  consider "a \<in> set (user_list s)" | "a \<in> set (server_list s)" | "a \<in> set (service_list s)" using L(1) assms(2) by (auto simp: listed_ok_def)
  then show thesis
  proof cases
    case 1
    then show thesis using links_ok_kind(1) [OF L(2), of a] that(1) by (auto simp: kind_def)
  next
    case 2
    then show thesis using links_ok_kind(2) [OF L(2), of a] that(2) by (auto simp: kind_def)
  next
    case 3
    then have "kind s a = Some (False, False, True)" using L(1) by (simp add: listed_ok_def)
    then show thesis using 3 that(3) by (auto simp: kind_def)
  qed
qed

lemma find_client_hashed:
  assumes "net_ok s"
  shows "runs (find_client nm s) (\<lambda>r. \<forall>a. r = Some a \<longrightarrow> hashed s a)" "runs (find_named_client nm s) (\<lambda>r. \<forall>a. r = Some a \<longrightarrow> hashed s a)"
proof -
  have t: "tables_ok s" using assms by blast
  show "runs (find_client nm s) (\<lambda>r. \<forall>a. r = Some a \<longrightarrow> hashed s a)" by (rule find_client_total [OF t, of nm]) simp
  show "runs (find_named_client nm s) (\<lambda>r. \<forall>a. r = Some a \<longrightarrow> hashed s a)" by (rule find_named_client_total [OF t, of nm]) simp
qed

lemma find_server_listed:
  assumes "net_ok s"
  shows "runs (find_server nm s) (\<lambda>r. \<forall>a. r = Some a \<longrightarrow> a \<in> set (server_list s))"
  unfolding find_server_def
proof (rule runs_seq [OF find_client_hashed(1) [OF assms]])
  fix r assume r: "\<forall>a. r = Some a \<longrightarrow> hashed s a"
  show "runs (keep_if (\<lambda>c. server c \<noteq> None) r s) (\<lambda>r. \<forall>a. r = Some a \<longrightarrow> a \<in> set (server_list s))"
  proof (cases r)
    case (Some a)
    then have h: "hashed s a" using r by simp
    obtain cl where cl: "clients s a = Some cl" "server cl \<noteq> None \<Longrightarrow> a \<in> set (server_list s)"
      by (rule hashed_cases [OF assms h]) auto
    then show ?thesis by (simp add: keep_if_def Some)
  qed (simp add: keep_if_def)
qed

context env_ok
begin

lemma exit_state_runs:
  assumes "state_ok s" "a \<in> set (user_list s) \<union> set (server_list s)"
  shows "runs (exit_client E a split s) (\<lambda>t. state_ok t \<and> exited (behind s a) s t)"
proof (rule runs_mono [OF exit_client_runs])
  show "net_ok s" "\<And>b. b \<in> set (server_list s) \<Longrightarrow> \<not> dead s b" using assms(1) by (auto simp: state_ok_def alive_def)
  show "a \<in> set (user_list s) \<union> set (server_list s)" by (rule assms(2))
  fix x assume "exited (behind s a) s x"
  then show "state_ok x \<and> exited (behind s a) s x" using exited_state_ok [OF assms(1)] by blast
qed

lemma nick_collide_runs:
  assumes ok: "state_ok s" and r: "\<forall>a. r = Some a \<longrightarrow> hashed s a"
  shows "runs (nick_collide E r newts s) (\<lambda>(go, t). state_ok t \<and> set (server_list t) = set (server_list s))"
proof (cases r)
  case (Some a)
  have n: "net_ok s" using ok by (simp add: state_ok_def)
  have h: "hashed s a" using r Some by simp
  show ?thesis
    using n h
  proof (cases rule: hashed_cases)
    case (user cl u)
    have "runs (exit_client E a False s) (\<lambda>t. state_ok t \<and> set (server_list t) = set (server_list s))"
    proof (rule runs_mono [OF exit_state_runs [OF ok, of a]])
      show "a \<in> set (user_list s) \<union> set (server_list s)" using user by simp
      fix t assume t: "state_ok t \<and> exited (behind s a) s t"
      have lo: "links_ok s" using n by blast
      have "a \<notin> set (server_list s)" using links_ok_kind [OF lo, of a] user(5) by auto
      then have "set (server_list t) = set (server_list s)" using exitedD(6) t behind_user [OF lo user(5)] by auto
      then show "state_ok t \<and> set (server_list t) = set (server_list s)" using t by blast
    qed
    then show ?thesis using user Some ok by (simp add: nick_collide_def)
  next
    case (server cl v)
    then show ?thesis using Some ok by (simp add: nick_collide_def)
  next
    case (service cl v)
    then show ?thesis using Some ok by (simp add: nick_collide_def die_def)
  qed
qed (use ok in \<open>simp add: nick_collide_def\<close>)

lemma new_user_made:
  "new_user v (nick_user L v up ps)" "new_user v (uid_user L v up ps given)"
  by (simp_all add: new_user_def nick_user_def uid_user_def blank_client_def blank_user_def Let_def)

lemma nick_new_runs:
  assumes ok: "state_ok s"
  shows "runs (nick_new E ps s) state_ok"
proof -
  have n: "net_ok s" using ok by (simp add: state_ok_def)
  show ?thesis
    unfolding nick_new_def
  proof (rule runs_seq [OF find_client_hashed(2) [OF n]], rule runs_seq [OF find_server_listed [OF n]])
    fix r up assume r: "\<forall>a. r = Some a \<longrightarrow> hashed s a" and up: "\<forall>a. up = Some a \<longrightarrow> a \<in> set (server_list s)"
    show "runs (case up of None \<Rightarrow> Some s | Some v \<Rightarrow> if length (arg ps 0) > NICKLEN then die ''Compiled NICKLEN appears to be wrong'' s
       else do { (go, s) \<leftarrow> nick_collide E r (atol (arg ps 2)) s;
         if \<not> go then Some s else do { up \<leftarrow> clients s v; add_user E v (nick_user (lib E) v up ps) s } }) state_ok"
    proof (cases up)
      case (Some v)
      have v: "v \<in> set (server_list s)" using up Some by simp
      have "runs (do { (go, s) \<leftarrow> nick_collide E r (atol (arg ps 2)) s;
         if \<not> go then Some s else do { up \<leftarrow> clients s v; add_user E v (nick_user (lib E) v up ps) s } }) state_ok"
      proof (rule runs_seq [OF nick_collide_runs [OF ok r]])
        fix x :: "bool \<times> net" assume "case x of (go, t) \<Rightarrow> state_ok t \<and> set (server_list t) = set (server_list s)"
        then obtain go t where x: "x = (go, t)" "state_ok t" "v \<in> set (server_list t)" using v by (cases x) auto
        obtain u where u: "clients t v = Some u" by (rule server_of [OF state_okD(1) [OF x(2)] x(3)])
        have "runs (add_user E v (nick_user (lib E) v u ps) t) state_ok"
          by (rule runs_mono [OF add_user_runs [OF x(2,3) new_user_made(1)]]) simp
        then show "runs (case x of (go, s) \<Rightarrow> if \<not> go then Some s else do { up \<leftarrow> clients s v; add_user E v (nick_user (lib E) v up ps) s }) state_ok"
          using x u by simp
      qed
      then show ?thesis using Some die_runs [OF ok] by simp
    qed (use ok in simp)
  qed
qed

lemma c_uid_runs:
  assumes ok: "state_ok s" and v: "v \<in> set (server_list s)" and ip: "arg ps 6 \<noteq> []"
  shows "runs (c_uid E v ps s) state_ok"
proof -
  have n: "net_ok s" using ok by (simp add: state_ok_def)
  obtain c cs where c: "arg ps 6 = c # cs" using ip by (cases "arg ps 6") auto
  obtain d where "rd (c # cs) 1 = Some d" by (cases cs) (simp_all add: rd_def)
  then obtain given where given: "ip_given (arg ps 6) = Some given" unfolding c ip_given_def by (cases "c = CHR ''0''") auto
  have "runs (do { r \<leftarrow> find_client (arg ps 0) s;
      if length (arg ps 0) > NICKLEN then die ''Compiled NICKLEN appears to be wrong'' s
      else do { (go, s) \<leftarrow> nick_collide E r (atol (arg ps 2)) s;
        if \<not> go then Some s else do { up \<leftarrow> clients s v; given \<leftarrow> ip_given (arg ps 6); add_user E v (uid_user (lib E) v up ps given) s } } }) state_ok"
  proof (rule runs_seq [OF find_client_hashed(1) [OF n]])
    fix r assume r: "\<forall>a. r = Some a \<longrightarrow> hashed s a"
    have "runs (do { (go, s) \<leftarrow> nick_collide E r (atol (arg ps 2)) s;
        if \<not> go then Some s else do { up \<leftarrow> clients s v; given \<leftarrow> ip_given (arg ps 6); add_user E v (uid_user (lib E) v up ps given) s } }) state_ok"
    proof (rule runs_seq [OF nick_collide_runs [OF ok r]])
      fix x :: "bool \<times> net" assume "case x of (go, t) \<Rightarrow> state_ok t \<and> set (server_list t) = set (server_list s)"
      then obtain go t where x: "x = (go, t)" "state_ok t" "v \<in> set (server_list t)" using v by (cases x) auto
      obtain u where u: "clients t v = Some u" by (rule server_of [OF state_okD(1) [OF x(2)] x(3)])
      have "runs (add_user E v (uid_user (lib E) v u ps given) t) state_ok"
        by (rule runs_mono [OF add_user_runs [OF x(2,3) new_user_made(2)]]) simp
      then show "runs (case x of (go, s) \<Rightarrow> if \<not> go then Some s else do { up \<leftarrow> clients s v; given \<leftarrow> ip_given (arg ps 6);
          add_user E v (uid_user (lib E) v up ps given) s }) state_ok"
        using x u given by simp
    qed
    then show "runs (if length (arg ps 0) > NICKLEN then die ''Compiled NICKLEN appears to be wrong'' s
      else do { (go, s) \<leftarrow> nick_collide E r (atol (arg ps 2)) s;
        if \<not> go then Some s else do { up \<leftarrow> clients s v; given \<leftarrow> ip_given (arg ps 6); add_user E v (uid_user (lib E) v up ps given) s } }) state_ok"
      using die_runs [OF ok] by simp
  qed
  then show ?thesis using ok unfolding c_uid_def by simp
qed

lemma c_quit_runs:
  assumes ok: "state_ok s" and a: "a \<in> set (user_list s) \<union> set (server_list s)"
  shows "runs (c_quit E a ps s) state_ok"
proof -
  have "hashed s a" using a links_okD(3,4) [OF net_okD(5) [OF state_okD(1) [OF ok]], of a] by blast
  then obtain cl where "clients s a = Some cl" using hashed_client by blast
  then show ?thesis using ok runs_mono [OF exit_state_runs [OF ok a, of False], of state_ok] by (simp add: c_quit_def)
qed

lemma c_kill_runs:
  assumes ok: "state_ok s"
  shows "runs (c_kill E a ps s) state_ok"
proof -
  have n: "net_ok s" using ok by (simp add: state_ok_def)
  have *: "runs (case target of None \<Rightarrow> Some s | Some t \<Rightarrow> do { cl \<leftarrow> clients s t;
      if server cl \<noteq> None then Some s
      else if service cl \<noteq> None then
        (if \<not> first_kill s + 20 < now s \<and> num_kill s > 20 then die ''service kill fight!'' s
         else do {
           let s = (if first_kill s + 20 < now s then s\<lparr>first_kill := now s, num_kill := 1\<rparr> else s);
           let s = s\<lparr>num_kill := num_kill s + 1\<rparr>;
           s \<leftarrow> del_client (lib E) t s; s \<leftarrow> introduce_service E t s; introduce_service_channels E t False s })
      else exit_client E t False s }) state_ok" if r: "\<forall>a. target = Some a \<longrightarrow> hashed s a" for target
  proof (cases target)
    case (Some t)
    then have h: "hashed s t" using r by simp
    show ?thesis
      using n h
    proof (cases rule: hashed_cases)
      case (user cl u)
      have "runs (exit_client E t False s) state_ok" using runs_mono [OF exit_state_runs [OF ok, of t False], of state_ok] user(5) by simp
      then show ?thesis using user Some by simp
    next
      case (server cl v)
      then show ?thesis using Some ok by simp
    next
      case (service cl v)
      define w where "w = (let s' = (if first_kill s + 20 < now s then s\<lparr>first_kill := now s, num_kill := 1\<rparr> else s) in s'\<lparr>num_kill := num_kill s' + 1\<rparr>)"
      have okw: "state_ok w" using ok by (simp add: w_def Let_def)
      have w: "service_list w = service_list s" "hashed w t" using h by (simp_all add: w_def Let_def hashed_def keys_def)
      have "runs (do { s \<leftarrow> del_client (lib E) t w; s \<leftarrow> introduce_service E t s; introduce_service_channels E t False s }) state_ok"
        by (rule runs_mono [OF cycle_service_runs [OF okw]]) (use w service(5) rehashedD(1) in auto)
      then show ?thesis using service Some die_runs [OF ok] by (simp add: w_def Let_def)
    qed
  qed (use ok in simp)
  show ?thesis
  proof (cases "length ps < 1 \<or> EmptyString (arg ps 0)")
    case True
    then show ?thesis using ok by (simp only: c_kill_def if_True runs_Some)
  next
    case False
    have "c_kill E a ps s = Option.bind (find_client (arg ps 0) s) (\<lambda>target. case target of None \<Rightarrow> Some s | Some t \<Rightarrow> do { cl \<leftarrow> clients s t;
      if server cl \<noteq> None then Some s
      else if service cl \<noteq> None then
        (if \<not> first_kill s + 20 < now s \<and> num_kill s > 20 then die ''service kill fight!'' s
         else do {
           let s = (if first_kill s + 20 < now s then s\<lparr>first_kill := now s, num_kill := 1\<rparr> else s);
           let s = s\<lparr>num_kill := num_kill s + 1\<rparr>;
           s \<leftarrow> del_client (lib E) t s; s \<leftarrow> introduce_service E t s; introduce_service_channels E t False s })
      else exit_client E t False s })"
      unfolding c_kill_def if_not_P [OF False] ..
    then show ?thesis by (simp only:) (rule runs_seq [OF find_client_hashed(1) [OF n] *])
  qed
qed

lemma ping_server_runs:
  assumes "state_ok s" "clients s a \<noteq> None"
  shows "runs (ping_server E a s) state_ok"
  using assms by (auto simp: ping_server_def)

lemma c_sid_runs:
  assumes ok: "state_ok s" and v: "v \<in> set (server_list s)"
  shows "runs (c_sid E v ps s) state_ok"
proof -
  let ?cl = "new_server (lib E) (arg ps 0) (rb_strlcpy (lib E) (arg ps 2) (UIDLEN + 1)) (arg ps 3) (arg ps 1)"
  have "runs (add_server E v ?cl s) (\<lambda>(a, t). a = next_addr s \<and> state_ok t \<and> client_added s False (Some v) t \<and>
      clients t a = Some (?cl\<lparr>uplink := Some v\<rparr>) \<and> server_p t = server_p s)"
    by (rule add_server_runs [OF ok v, where sv = "\<lparr>server_users = [], servers = [], hops = atoi (arg ps 1)\<rparr>"]) (simp_all add: new_server_def blank_client_def)
  then have "runs (do { (a, t) \<leftarrow> add_server E v ?cl s; ping_server E a t }) state_ok"
    by (rule runs_seq) (auto intro: ping_server_runs)
  then show ?thesis unfolding c_sid_def using ok die_runs [OF ok] by simp
qed

lemma c_server_runs:
  assumes ok: "state_ok s" and v: "v \<in> set (server_list s)" and conn: "server_p s = Some conn"
  shows "runs (c_server E (Some v) ps s) state_ok"
proof -
  let ?cl = "new_server (lib E) (arg ps 0) [] (arg ps 2) (arg ps 1)"
  let ?c = "Some (conn\<lparr>conn_flags := conn_flags conn OR CONN_FLAGS_SENTBURST\<rparr>)"
  have "runs (add_server E v ?cl s) (\<lambda>(a, t). a = next_addr s \<and> state_ok t \<and> client_added s False (Some v) t \<and>
      clients t a = Some (?cl\<lparr>uplink := Some v\<rparr>) \<and> server_p t = server_p s)"
    by (rule add_server_runs [OF ok v, where sv = "\<lparr>server_users = [], servers = [], hops = atoi (arg ps 1)\<rparr>"]) (simp_all add: new_server_def blank_client_def)
  then have "runs (do { (a, t) \<leftarrow> add_server E v ?cl s; ping_server E a (t\<lparr>server_p := ?c\<rparr>) }) state_ok"
    by (rule runs_seq) (auto intro!: ping_server_runs)
  then show ?thesis unfolding c_server_def using ok die_runs [OF ok] conn by (simp add: Let_def)
qed

lemma c_squit_runs:
  assumes ok: "state_ok s" and up: "length ps < 1 \<or> EmptyString (arg ps 0) \<Longrightarrow> \<exists>conn v. server_p s = Some conn \<and> conn_client conn = Some v \<and> v \<in> set (server_list s)"
  shows "runs (c_squit E a ps s) state_ok"
proof (cases "length ps < 1 \<or> EmptyString (arg ps 0)")
  case True
  then obtain conn v where "server_p s = Some conn" "conn_client conn = Some v" "v \<in> set (server_list s)" using up by blast
  then show ?thesis using True runs_mono [OF exit_state_runs [OF ok, of v True], of state_ok] by (simp add: c_squit_def)
next
  case False
  have n: "net_ok s" using ok by (simp add: state_ok_def)
  obtain q where q: "hook_do E HOOK_PROTO_SQUIT_UNKNOWN (ArgStr (arg ps 0)) ArgNull s = Some (s\<lparr>sendq := q\<rparr>)"
    by (rule hook_do_passive [of HOOK_PROTO_SQUIT_UNKNOWN]) (simp_all add: passive_hooks_def)
  have "runs (do { target \<leftarrow> find_server (arg ps 0) s; case target of
      None \<Rightarrow> hook_do E HOOK_PROTO_SQUIT_UNKNOWN (ArgStr (arg ps 0)) ArgNull s | Some t \<Rightarrow> exit_client E t True s }) state_ok"
  proof (rule runs_seq [OF find_server_listed [OF n]])
    fix r assume r: "\<forall>a. r = Some a \<longrightarrow> a \<in> set (server_list s)"
    have "runs (exit_client E t True s) state_ok" if "r = Some t" for t
      using r that runs_mono [OF exit_state_runs [OF ok, of t True], of state_ok] by simp
    then show "runs (case r of None \<Rightarrow> hook_do E HOOK_PROTO_SQUIT_UNKNOWN (ArgStr (arg ps 0)) ArgNull s | Some t \<Rightarrow> exit_client E t True s) state_ok"
      using q ok by (cases r) simp_all
  qed
  then show ?thesis using False by (simp only: c_squit_def if_False)
qed

end

text \<open>A client gets another name: everything but the keys and the tables is kept.\<close>

lemma state_ok_rekey:
  assumes ok: "state_ok s" and t: "tables_ok y" and h: "hashed y = hashed s"
    and k: "\<And>b. keys y b = None \<longleftrightarrow> keys s b = None"
    and p: "kind y = kind s" "parent y = parent s" "dead y = dead s" "server_lists y = server_lists s"
      "user_oper y = user_oper s" "user_link y = user_link s" "user_chans y = user_chans s" "service_chans y = service_chans s"
      "chan_key y = chan_key s" "chan_lists y = chan_lists s" "chan_services y = chan_services s"
    and f: "members y = members s" "conf_opers y = conf_opers s" "user_regs y = user_regs s" "next_addr y = next_addr s"
      "channel_table y = channel_table s" "channel_list y = channel_list s" "user_list y = user_list s" "server_list y = server_list s"
      "exited_list y = exited_list s" "service_list y = service_list s" "conf_oper_list y = conf_oper_list s" "client_oper_list y = client_oper_list s"
      "deopped_list y = deopped_list s"
  shows "state_ok y"
proof -
  have D: "links_ok s" "opers_ok s" "alloc_ok s" "listed_ok s" "chans_ok s" "alive s" using ok by (auto simp: state_ok_def net_ok_alt clients_ok_def)
  have "links_ok y" using D(1) unfolding links_ok_def h p f .
  moreover have "opers_ok y" "chans_ok y" using D opers_ok_cong [of y s] chans_ok_cong [of y s] p f by simp_all
  moreover have "alloc_ok y" using D(3) k unfolding alloc_ok_def p f by blast
  moreover have "listed_ok y" using D(4) unfolding listed_ok_def h p f .
  moreover have "alive y" using D(6) unfolding alive_def p f .
  ultimately show ?thesis using t by (simp add: state_ok_def net_ok_alt clients_ok_def)
qed

lemma tables_ok_rekey:
  assumes t: "tables_ok s" and a: "\<not> hashed s a" "clients s a = Some cl" and y: "y = s\<lparr>clients := (clients s)(a \<mapsto> cl\<lparr>name := nm\<rparr>)\<rparr>"
  shows "tables_ok y" "hashed y b = hashed s b"
proof -
  note T = tables_okD [OF t]
  have k: "keys y c = keys s c" if "hashed s c" for c using that a(1) by (auto simp: y keys_def)
  have n: "c \<in> set (name_table y h) \<longleftrightarrow> hashed s c \<and> (\<exists>n u. keys y c = Some (n, u) \<and> hash_name n = h)" for h c
    using T(3) [of c h] k [of c] by (cases "hashed s c") (simp_all add: y)
  have u: "c \<in> set (uid_table y h) \<longleftrightarrow> hashed s c \<and> (\<exists>n u. keys y c = Some (n, u) \<and> u \<noteq> [] \<and> hash_name u = h)" for h c
    using T(4) [of c h] k [of c] by (cases "hashed s c") (simp_all add: y)
  have d: "distinct (name_table y h)" "distinct (uid_table y h)" for h using T(1,2) by (simp_all add: y)
  have kn: "keys y c \<noteq> None" if "hashed s c" for c using k [OF that] that by (auto simp: hashed_def)
  show "tables_ok y" "hashed y b = hashed s b" using tables_okI [OF d n u kn] by blast+
qed

context env_ok
begin

lemma nick_change_runs:
  assumes ok: "state_ok s" and a: "a \<in> set (user_list s) \<union> set (server_list s)"
  shows "runs (nick_change E a ps s) state_ok"
proof -
  let ?nm = "rb_strlcpy (lib E) (arg ps 0) (HOSTLEN + 1)"
  have n: "net_ok s" using ok by (simp add: state_ok_def)
  have lo: "links_ok s" "tables_ok s" using n by blast+
  have h: "hashed s a" using a links_okD(3,4) [OF lo(1), of a] by blast
  obtain cl where cl: "clients s a = Some cl" using hashed_client [OF h] by blast
  show ?thesis
  proof (cases "user cl = None \<or> length (arg ps 0) > NICKLEN")
    case True
    then show ?thesis using cl ok die_runs [OF ok] by (auto simp: nick_change_def)
  next
    case False
    then obtain u where u: "user cl = Some u" by auto
    have run: "nick_change E a ps s = do { t \<leftarrow> del_client (lib E) a s; t \<leftarrow> upd_client a (\<lambda>c. c\<lparr>name := ?nm\<rparr>) t; t \<leftarrow> add_client (lib E) a t;
       cl \<leftarrow> clients t a; t \<leftarrow> upd_user a (\<lambda>u. u\<lparr>usermask := mask_of (name cl) (username u) (host u), tsinfo := atol (arg ps 1)\<rparr>) t;
       hook_do E HOOK_CLIENT_NICKCHANGE (ArgClient a) ArgNull t }"
      using cl False u by (simp add: nick_change_def)
    show ?thesis
      unfolding run
    proof (rule runs_seq [OF del_client_runs [OF lo(2) h]], elim conjE)
      fix t assume t: "table_frame t s" "tables_ok t" "\<forall>b. hashed t b \<longleftrightarrow> hashed s b \<and> b \<noteq> a"
      note T = table_frame_fields [OF t(1)]
      have clt: "clients t a = Some cl" "\<not> hashed t a" using cl T t(3) by auto
      define w where "w = t\<lparr>clients := (clients t)(a \<mapsto> cl\<lparr>name := ?nm\<rparr>)\<rparr>"
      have "upd_client a (\<lambda>c. c\<lparr>name := ?nm\<rparr>) t = Some w" using clt by (simp add: upd_client_def w_def)
      moreover have "runs (do { t \<leftarrow> add_client (lib E) a w; cl \<leftarrow> clients t a;
         t \<leftarrow> upd_user a (\<lambda>u. u\<lparr>usermask := mask_of (name cl) (username u) (host u), tsinfo := atol (arg ps 1)\<rparr>) t;
         hook_do E HOOK_CLIENT_NICKCHANGE (ArgClient a) ArgNull t }) state_ok"
      proof (rule runs_seq [OF add_client_runs [OF tables_ok_rekey(1) [OF t(2) clt(2,1) w_def]]], unfold tables_ok_rekey(2) [OF t(2) clt(2,1) w_def])
        show "\<not> hashed t a" by (rule clt)
        show cw: "clients w a = Some (cl\<lparr>name := ?nm\<rparr>)" by (simp add: w_def)
        fix x assume x: "table_frame x w \<and> tables_ok x \<and> (\<forall>b. hashed x b \<longleftrightarrow> hashed t b \<or> b = a)"
        then have tx: "table_frame x w" by blast
        note X = table_frame_fields [OF tx]
        have clx: "clients x a = Some (cl\<lparr>name := ?nm\<rparr>)" using X cw by simp
        have gx: "get_user a x = Some u" using clx u by (simp add: get_user_def)
        let ?u = "u\<lparr>usermask := mask_of ?nm (username u) (host u), tsinfo := atol (arg ps 1)\<rparr>"
        define z where "z = set_user a ?u x"
        have upd: "upd_user a (\<lambda>u. u\<lparr>usermask := mask_of ?nm (username u) (host u), tsinfo := atol (arg ps 1)\<rparr>) x = Some z"
          using upd_user_eq [OF gx] by (simp add: z_def)
        have cz: "clients z = (clients s)(a \<mapsto> cl\<lparr>name := ?nm, user := Some ?u\<rparr>)"
          using clx X T by (simp add: z_def set_user_def w_def)
        note Z = set_user_proj [OF gx, where u = ?u, folded z_def]
        have hz: "hashed z = hashed s" using x t(3) h Z(1) by (auto simp: hashed_def z_def fun_eq_iff)
        have tz: "tables_ok z" using x tables_ok_cong [of z x] Z(1) by (simp add: z_def)
        have "state_ok z"
        proof (rule state_ok_rekey [OF ok tz hz])
          show "keys z b = None \<longleftrightarrow> keys s b = None" for b using cz cl by (simp add: keys_def)
          show "kind z = kind s" "parent z = parent s" "dead z = dead s" "server_lists z = server_lists s" "user_oper z = user_oper s"
            "user_link z = user_link s" "user_chans z = user_chans s" "service_chans z = service_chans s"
            using cl u by (auto simp: projection_defs cz fun_eq_iff)
        qed (use X T in \<open>simp_all add: z_def w_def chan_key_def chan_lists_def chan_services_def fun_eq_iff\<close>)
        moreover obtain q where "hook_do E HOOK_CLIENT_NICKCHANGE (ArgClient a) ArgNull z = Some (z\<lparr>sendq := q\<rparr>)"
          by (rule hook_do_passive [of HOOK_CLIENT_NICKCHANGE]) (simp_all add: passive_hooks_def)
        ultimately show "runs (do { cl \<leftarrow> clients x a; t \<leftarrow> upd_user a (\<lambda>u. u\<lparr>usermask := mask_of (name cl) (username u) (host u), tsinfo := atol (arg ps 1)\<rparr>) x;
           hook_do E HOOK_CLIENT_NICKCHANGE (ArgClient a) ArgNull t }) state_ok"
          using clx upd by simp
      qed
      ultimately show "runs (do { t \<leftarrow> upd_client a (\<lambda>c. c\<lparr>name := ?nm\<rparr>) t; t \<leftarrow> add_client (lib E) a t;
         cl \<leftarrow> clients t a; t \<leftarrow> upd_user a (\<lambda>u. u\<lparr>usermask := mask_of (name cl) (username u) (host u), tsinfo := atol (arg ps 1)\<rparr>) t;
         hook_do E HOOK_CLIENT_NICKCHANGE (ArgClient a) ArgNull t }) state_ok" by simp
    qed
  qed
qed

lemma c_nick_runs:
  assumes "state_ok s" "a \<in> set (user_list s) \<union> set (server_list s)"
  shows "runs (c_nick E a ps s) state_ok"
  using nick_new_runs [OF assms(1), of ps] nick_change_runs [OF assms, of ps] assms(1) unfolding c_nick_def
  by (cases "length ps = 8"; cases "length ps = 2") simp_all

text \<open>The uplink is known: before that, no service is in the tables.\<close>

lemma add_uplink_runs:
  assumes ok: "state_ok s" and conn: "conn_flags conn AND CONN_TS \<noteq> 0" "irccmp (conn_name conn) (arg ps 0) = 0"
    and out: "\<And>a. a \<in> set (service_list s) \<Longrightarrow> \<not> hashed s a"
  shows "runs (add_uplink E ps conn s) (\<lambda>t. state_ok t \<and> next_addr s \<in> set (server_list t) \<and> service_list t = service_list s \<and>
    (\<exists>c. server_p t = Some c \<and> conn_client c = Some (next_addr s)) \<and>
    (\<forall>a. a \<in> set (service_list s) \<longrightarrow> hashed t a = enabled s a))"
proof -
  let ?n = "next_addr s" and ?add = "dlinkAdd (rb_ptrs (lib E)) (next_addr s)"
  have n: "net_ok s" using ok by (simp add: state_ok_def)
  note F = fresh_client [OF n le_refl]
  let ?fl = "if conn_flags conn AND CONN_CAP_RSFNC \<noteq> 0 then FLAGS_RSFNC else 0"
  define cl where "cl = (new_server (lib E) (arg ps 0) (rb_strlcpy (lib E) (sid conn) (UIDLEN + 1)) (arg ps 2) (arg ps 1))\<lparr>flags := ?fl\<rparr>"
  have cl: "user cl = None" "service cl = None" "uplink cl = None" "flags cl AND FLAGS_DEAD = 0"
      "server cl = Some \<lparr>server_users = [], servers = [], hops = atoi (arg ps 1)\<rparr>"
    by (simp_all add: cl_def new_server_def blank_client_def)
  define c where "c = conn\<lparr>conn_flags := conn_flags conn AND NOT CONN_HANDSHAKE, first_time := now s, conn_client := Some ?n\<rparr>"
  define y where "y = s\<lparr>clients := (clients s)(?n \<mapsto> cl), next_addr := Suc ?n\<rparr>"
  note Y = alloc_proj [where s = s and cl = cl, folded y_def]
  let ?y = "y\<lparr>server_p := Some c\<rparr>"
  let ?c = "Some (c\<lparr>conn_flags := conn_flags c OR CONN_FLAGS_SENTBURST\<rparr>)"
  have yc: "keys ?y = keys y" "hashed ?y = hashed y" "clients ?y = clients y" by (simp_all add: keys_def hashed_def fun_eq_iff)
  have ty: "tables_ok ?y" "hashed ?y b = hashed s b" for b
    using alloc_tables [OF n y_def] tables_ok_cong [of ?y y] yc by simp_all
  have run: "add_uplink E ps conn s = do { t \<leftarrow> add_client (lib E) ?n ?y; t \<leftarrow> introduce_services E (t\<lparr>server_list := ?add (server_list t)\<rparr>);
      t \<leftarrow> introduce_services_channels E t; ping_server E ?n (t\<lparr>server_p := ?c\<rparr>) }"
    using conn by (simp add: add_uplink_def alloc_client_def Let_def y_def c_def cl_def)
  have add: "runs (add_client (lib E) ?n ?y) (\<lambda>t. table_frame t ?y \<and> tables_ok t \<and> (\<forall>b. hashed t b \<longleftrightarrow> hashed ?y b \<or> b = ?n))"
    by (rule add_client_runs [OF ty(1), where cl = cl]) (use ty(2) F(4) in \<open>simp_all add: y_def\<close>)
  show ?thesis
    unfolding run
  proof (rule runs_seq [OF add], elim conjE)
    fix t assume t: "table_frame t ?y" "tables_ok t" "\<forall>b. hashed t b \<longleftrightarrow> hashed ?y b \<or> b = ?n"
    note T = table_frame_fields [OF t(1)] table_frame_proj [OF t(1)]
    define w where "w = t\<lparr>server_list := ?add (server_list t)\<rparr>"
    have cw: "clients w = clients y" "chans w = chans s" using T by (simp_all add: w_def y_def)
    have P: "keys w = keys y" "kind w = kind y" "parent w = parent y" "dead w = dead y" "server_lists w = server_lists y" "user_oper w = user_oper y"
      "user_link w = user_link y" "user_chans w = user_chans y" "service_chans w = service_chans y" "chan_key w = chan_key s" "chan_lists w = chan_lists s"
      "chan_services w = chan_services s"
      using cw by (simp_all add: projection_defs fun_eq_iff)
    have hw: "hashed w b \<longleftrightarrow> hashed s b \<or> b = ?n" for b using t(3) ty(2) by (simp add: w_def hashed_def)
    have Fw: "user_list w = user_list s" "server_list w = ?add (server_list s)" "service_list w = service_list s" "exited_list w = exited_list s"
      "next_addr w = Suc ?n" "members w = members s" "channel_table w = channel_table s" "channel_list w = channel_list s" "conf_opers w = conf_opers s"
      "client_oper_list w = client_oper_list s" "conf_oper_list w = conf_oper_list s" "user_regs w = user_regs s" "server_p w = Some c" "deopped_list w = deopped_list s"
      using T by (simp_all add: w_def y_def)
    have lists: "server_lists w = (server_lists s)(?n \<mapsto> ([], []))" using P Y cl by simp
    have added: "client_added s False None w"
      unfolding client_added_def Let_def
    proof (intro conjI allI impI)
      fix b us vs assume b: "b \<noteq> ?n" "server_lists w b = Some (us, vs)" "b \<in> set (server_list s)"
      then have l: "server_lists s b = Some (us, vs)" by (simp add: lists)
      show "\<exists>us0 vs0. server_lists s b = Some (us0, vs0) \<and> distinct us \<and> distinct vs \<and>
            set us = set us0 \<union> (if False \<and> None = Some b then {?n} else {}) \<and> set vs = set vs0 \<union> (if \<not> False \<and> None = Some b then {?n} else {})"
        using links_okD(6) [OF net_okD(5) [OF n] b(3) l] l by simp
    qed (use P Y cl Fw hw F(5,6) links_okD(1,2) [OF net_okD(5) [OF n]] lists in \<open>auto simp: fun_eq_iff\<close>)
    have frame: "added_frame s False w"
      unfolding added_frame_def
    proof (intro conjI)
      show "service_chans w = service_chans s" using P Y cl F(9) by (simp add: fun_upd_idem)
    qed (use P Y cl Fw in \<open>simp_all\<close>)
    have "tables_ok w" using t(2) tables_ok_cong [of w t] by (simp add: w_def)
    then have okw: "state_ok w" by (intro state_ok_added [OF ok added frame]) simp_all
    have opt: "svc_options w a = svc_options s a" if "a \<in> set (service_list s)" for a
      using that F(7) cw by (auto simp: svc_options_def get_service_def y_def)
    have outw: "\<not> hashed w a" if "a \<in> set (service_list w)" for a using that out [of a] hw [of a] F(7) Fw(3) by auto
    have cn: "clients w ?n = Some cl" using cw by (simp add: y_def)
    have "runs (do { t \<leftarrow> introduce_services E w; t \<leftarrow> introduce_services_channels E t; ping_server E ?n (t\<lparr>server_p := ?c\<rparr>) })
        (\<lambda>t. state_ok t \<and> ?n \<in> set (server_list t) \<and> service_list t = service_list s \<and> (\<exists>c. server_p t = Some c \<and> conn_client c = Some ?n) \<and>
          (\<forall>a. a \<in> set (service_list s) \<longrightarrow> hashed t a = enabled s a))"
    proof (rule runs_seq [OF introduce_services_runs [OF okw outw]], assumption)
      fix u assume u: "rehashed (\<lambda>b. if b \<in> set (service_list w) then enabled w b else hashed w b) w u"
      note U = rehashedD [OF u] service_frameD [OF rehashedD(3) [OF u]]
      show "runs (do { t \<leftarrow> introduce_services_channels E u; ping_server E ?n (t\<lparr>server_p := ?c\<rparr>) })
          (\<lambda>t. state_ok t \<and> ?n \<in> set (server_list t) \<and> service_list t = service_list s \<and> (\<exists>c. server_p t = Some c \<and> conn_client c = Some ?n) \<and>
            (\<forall>a. a \<in> set (service_list s) \<longrightarrow> hashed t a = enabled s a))"
      proof (rule runs_seq [OF introduce_services_channels_runs [OF U(1)]])
        fix x assume x: "quiet x u"
        note X = quiet_service_frame [OF x]
        have sx: "state_ok x" "server_list x = ?add (server_list s)" "service_list x = service_list s"
          using service_frameD [OF X(1)] U Fw by auto
        have hx: "hashed x a = enabled s a" if "a \<in> set (service_list s)" for a
          using X(2) U(5) [of a] Fw(3) that opt [OF that] by (simp add: enabled_def)
        have "keys x ?n \<noteq> None" using service_frameD(2) [OF X(1)] service_frameD(2) [OF U(3)] P(1) Y(1) by simp
        then obtain xc where xc: "clients x ?n = Some xc" by (auto simp: keys_def)
        let ?p = "sendto_server ['':'', MYUID E (x\<lparr>server_p := ?c\<rparr>), '' PING '', name xc, '' '', UID xc] (x\<lparr>server_p := ?c\<rparr>)"
        have q: "quiet ?p (x\<lparr>server_p := ?c\<rparr>)" by simp
        have "server_p ?p = ?c" using quiet_fields(5) [OF q] by simp
        moreover have "server_list ?p = ?add (server_list s)" "service_list ?p = service_list s"
          using service_frameD(6,7) [OF quiet_service_frame(1) [OF q]] sx by simp_all
        moreover have "hashed ?p a = hashed x a" for a using quiet_service_frame(2) [OF q, of a] by (simp add: hashed_def keys_def)
        moreover have "runs (ping_server E ?n (x\<lparr>server_p := ?c\<rparr>)) (\<lambda>t. t = ?p)" using xc by (simp add: ping_server_def)
        ultimately show "runs (ping_server E ?n (x\<lparr>server_p := ?c\<rparr>)) (\<lambda>t. state_ok t \<and> ?n \<in> set (server_list t) \<and> service_list t = service_list s \<and>
            (\<exists>c. server_p t = Some c \<and> conn_client c = Some ?n) \<and> (\<forall>a. a \<in> set (service_list s) \<longrightarrow> hashed t a = enabled s a))"
          using sx hx by (elim runs_mono) (simp add: c_def)
      qed
    qed
    then show "runs (do { t \<leftarrow> introduce_services E (t\<lparr>server_list := ?add (server_list t)\<rparr>); t \<leftarrow> introduce_services_channels E t;
          ping_server E ?n (t\<lparr>server_p := ?c\<rparr>) })
        (\<lambda>t. state_ok t \<and> ?n \<in> set (server_list t) \<and> service_list t = service_list s \<and> (\<exists>c. server_p t = Some c \<and> conn_client c = Some ?n) \<and>
          (\<forall>a. a \<in> set (service_list s) \<longrightarrow> hashed t a = enabled s a))"
      by (simp only: w_def)
  qed
qed

end

subsection \<open>What the uplink is told\<close>

text \<open>The line that introduces a service, and the state of being introduced.\<close>

definition intro_line :: "client \<Rightarrow> service \<Rightarrow> string" where
  "intro_line cl sv = concat [''UID '', name cl, '' 1 1 +iDS'', if svc_flags sv AND SERVICE_OPERED \<noteq> 0 then ''o'' else [], '' '',
     svc_username sv, '' '', svc_host sv, '' 0 '', uid cl, '' :'', info cl]"

definition svc_line :: "net \<Rightarrow> addr \<Rightarrow> string option" where
  "svc_line s a = do { cl \<leftarrow> clients s a; sv \<leftarrow> service cl; Some (intro_line cl sv) }"

definition introduced :: "net \<Rightarrow> addr \<Rightarrow> bool" where
  "introduced s a \<longleftrightarrow> (\<exists>sv. get_service a s = Some sv \<and> status sv AND SERVICE_INTRODUCED \<noteq> 0)"

definition link_up :: "net \<Rightarrow> bool" where
  "link_up s \<longleftrightarrow> (\<exists>conn. server_p s = Some conn \<and> conn_flags conn AND CONN_DEAD = 0)"

definition carries :: "net \<Rightarrow> net \<Rightarrow> bool" where
  "carries s t \<longleftrightarrow> link_up t = link_up s \<and> set (sendq s) \<subseteq> set (sendq t) \<and> svc_line t = svc_line s \<and> (\<forall>b. introduced s b \<longrightarrow> introduced t b) \<and>
     (\<forall>b. enabled t b = enabled s b)"

lemma carries_refl: "carries s s"
  by (simp add: carries_def)

lemma carries_trans [trans]: "carries s t \<Longrightarrow> carries t u \<Longrightarrow> carries s u"
  by (auto simp: carries_def)

lemma carries_clients:
  assumes "clients t = clients s" "server_p t = server_p s" "set (sendq s) \<subseteq> set (sendq t)"
  shows "carries s t"
  using assms by (auto simp: carries_def link_up_def svc_line_def introduced_def enabled_def svc_options_def get_service_def fun_eq_iff)

lemma sendto_carries [simp]: "carries s (sendto_server ls s)"
  by (rule carries_clients) (auto simp: sendto_server_def split: option.splits)

lemma sendto_sent: "link_up s \<Longrightarrow> concat ls \<in> set (sendq (sendto_server ls s))"
  by (auto simp: sendto_server_def link_up_def)

lemma foreach_carries:
  assumes "foreach f xs s = Some t" "\<And>x s t. f x s = Some t \<Longrightarrow> carries s t"
  shows "carries s t"
  using assms(1)
proof (induction xs arbitrary: s)
  case (Cons x xs)
  then obtain u where "f x s = Some u" "foreach f xs u = Some t" by (auto simp: bind_eq_Some_conv)
  then show ?case using Cons.IH assms(2) carries_trans by blast
qed (simp add: carries_refl)

lemma add_client_carries: "add_client L a s = Some t \<Longrightarrow> carries s t"
  by (rule carries_clients) (auto simp: add_client_def bind_eq_Some_conv Let_def split: if_splits)

lemma mark_carries:
  assumes "upd_service a (\<lambda>sv. sv\<lparr>status := status sv OR SERVICE_INTRODUCED\<rparr>) s = Some t"
  shows "carries s t" "introduced t a"
proof -
  obtain cl sv where c: "clients s a = Some cl" "service cl = Some sv"
      "t = s\<lparr>clients := (clients s)(a \<mapsto> cl\<lparr>service := Some (sv\<lparr>status := status sv OR SERVICE_INTRODUCED\<rparr>)\<rparr>)\<rparr>"
    using assms by (auto simp: upd_service_def upd_client_def get_service_def bind_eq_Some_conv)
  have bit: "(x OR SERVICE_INTRODUCED) AND SERVICE_INTRODUCED \<noteq> 0" for x :: u32 by (simp add: bit.conj_disj_distrib2)
  then show "introduced t a" using c by (simp add: introduced_def get_service_def)
  have "svc_line t = svc_line s" using c by (auto simp: svc_line_def intro_line_def fun_eq_iff)
  then show "carries s t" using c bit by (auto simp: carries_def link_up_def introduced_def enabled_def svc_options_def get_service_def)
qed

lemma introduce_service_carries:
  assumes "introduce_service E a s = Some t"
  shows "carries s t" "introduced t a" "link_up s \<Longrightarrow> svc_line s a = Some l \<Longrightarrow> l \<in> set (sendq t)"
proof -
  obtain cl sv where c: "clients s a = Some cl" "service cl = Some sv" using assms by (auto simp: introduce_service_def bind_eq_Some_conv)
  define ls where "ls = [''UID '', name cl, '' 1 1 +iDS'', if svc_flags sv AND SERVICE_OPERED \<noteq> 0 then ''o'' else [], '' '',
       svc_username sv, '' '', svc_host sv, '' 0 '', uid cl, '' :'', info cl]"
  obtain u where u: "upd_service a (\<lambda>sv. sv\<lparr>status := status sv OR SERVICE_INTRODUCED\<rparr>) (sendto_server ls s) = Some u" "add_client (lib E) a u = Some t"
    using assms c by (auto simp: introduce_service_def ls_def Let_def bind_eq_Some_conv)
  note M = mark_carries [OF u(1)] and A = add_client_carries [OF u(2)]
  have ut: "carries (sendto_server ls s) t" by (rule carries_trans [OF M(1) A])
  show "carries s t" by (rule carries_trans [OF sendto_carries ut])
  show "introduced t a" using M(2) A by (simp add: carries_def)
  assume "link_up s" "svc_line s a = Some l"
  moreover have "intro_line cl sv = concat ls" by (simp add: intro_line_def ls_def)
  ultimately have "l \<in> set (sendq (sendto_server ls s))" using sendto_sent [of s ls] c by (simp add: svc_line_def)
  then show "l \<in> set (sendq t)" using ut by (auto simp: carries_def)
qed

lemma for_enabled_carries:
  assumes "for_enabled f s = Some t" "\<And>a s t. f a s = Some t \<Longrightarrow> carries s t"
  shows "carries s t"
proof (rule foreach_carries [OF assms(1) [unfolded for_enabled_def]])
  fix x s t assume "(do { sv \<leftarrow> get_service x s; if svc_flags sv AND SERVICE_DISABLED \<noteq> 0 then Some s else f x s }) = Some t"
  then show "carries s t" using assms(2) carries_refl by (auto simp: bind_eq_Some_conv split: if_splits)
qed

lemma introduce_services_carries:
  assumes "introduce_services E s = Some t" "link_up s" "a \<in> set (service_list s)" "enabled s a"
  shows "introduced t a" "svc_line s a = Some l \<Longrightarrow> l \<in> set (sendq t)"
proof -
  let ?f = "\<lambda>a s. do { sv \<leftarrow> get_service a s; if svc_flags sv AND SERVICE_DISABLED \<noteq> 0 then Some s else introduce_service E a s }"
  have f: "carries s t" if "?f x s = Some t" for x s t
    using that introduce_service_carries(1) carries_refl by (auto simp: bind_eq_Some_conv split: if_splits)
  have main: "introduced t a \<and> (svc_line s a = Some l \<longrightarrow> l \<in> set (sendq t))"
    if "foreach ?f xs s = Some t" "link_up s" "a \<in> set xs" "enabled s a" for xs s
    using that
  proof (induction xs arbitrary: s)
    case (Cons x xs)
    then obtain u where u: "?f x s = Some u" "foreach ?f xs u = Some t" by (auto simp: bind_eq_Some_conv)
    have su: "carries s u" by (rule f [OF u(1)])
    have ut: "carries u t" by (rule foreach_carries [OF u(2) f])
    show ?case
    proof (cases "x = a")
      case True
      then have "introduce_service E a s = Some u" using u(1) Cons.prems(4) by (auto simp: enabled_def svc_options_def bind_eq_Some_conv split: if_splits)
      note I = introduce_service_carries [OF this]
      show ?thesis using I(2,3) ut Cons.prems(2) by (auto simp: carries_def)
    next
      case False
      then show ?thesis using Cons.IH [OF u(2)] Cons.prems(2-4) su by (auto simp: carries_def)
    qed
  qed simp
  show "introduced t a" "svc_line s a = Some l \<Longrightarrow> l \<in> set (sendq t)"
    using main [OF assms(1) [unfolded introduce_services_def for_enabled_def] assms(2-4)] by blast+
qed

lemma sendto_again: "carries s (sendto_server ls (sendto_server ks s))"
  by (rule carries_trans [of _ "sendto_server ks s"]) simp_all

lemma introduce_channels_carries: "introduce_service_channels E a tb s = Some t \<Longrightarrow> carries s t"
  unfolding introduce_service_channels_def
  by (auto simp: bind_eq_Some_conv Let_def send_sjoin_def split: if_splits elim!: foreach_carries intro: sendto_again)

lemma add_uplink_tells:
  assumes run: "add_uplink E ps conn s = Some t" and ok: "net_ok s" and conn: "conn_flags conn AND CONN_TS \<noteq> 0" "irccmp (conn_name conn) (arg ps 0) = 0" "conn_flags conn AND CONN_DEAD = 0"
    and a: "a \<in> set (service_list s)" "enabled s a" "svc_line s a = Some l"
  shows "introduced t a \<and> l \<in> set (sendq t)"
proof -
  define cl where "cl = (new_server (lib E) (arg ps 0) (rb_strlcpy (lib E) (sid conn) (UIDLEN + 1)) (arg ps 2) (arg ps 1))\<lparr>flags := (if conn_flags conn AND CONN_CAP_RSFNC \<noteq> 0 then FLAGS_RSFNC else 0)\<rparr>"
  define c where "c = conn\<lparr>conn_flags := conn_flags conn AND NOT CONN_HANDSHAKE, first_time := now s, conn_client := Some (next_addr s)\<rparr>"
  define y where "y = s\<lparr>clients := (clients s)(next_addr s \<mapsto> cl), next_addr := Suc (next_addr s), server_p := Some c\<rparr>"
  obtain u v w where u: "add_client (lib E) (next_addr s) y = Some u" "introduce_services E (u\<lparr>server_list := dlinkAdd (rb_ptrs (lib E)) (next_addr s) (server_list u)\<rparr>) = Some v"
      "introduce_services_channels E v = Some w" "ping_server E (next_addr s) (w\<lparr>server_p := Some (c\<lparr>conn_flags := conn_flags c OR CONN_FLAGS_SENTBURST\<rparr>)\<rparr>) = Some t"
    using run conn(1,2) by (auto simp: add_uplink_def alloc_client_def Let_def bind_eq_Some_conv y_def c_def cl_def)
  let ?u = "u\<lparr>server_list := dlinkAdd (rb_ptrs (lib E)) (next_addr s) (server_list u)\<rparr>"
  have new: "service cl = None" by (simp add: cl_def new_server_def blank_client_def)
  have fr: "clients s (next_addr s) = None" using fresh_client(2) [OF ok, of "next_addr s"] by simp
  have na: "a \<noteq> next_addr s" using a(3) fr by (auto simp: svc_line_def)
  have dead: "conn_flags c AND CONN_DEAD = 0" using conn(3) by (simp add: c_def bit_eq_iff bit_simps)
  have uu: "carries y ?u" using add_client_carries [OF u(1)] carries_clients [of ?u u] carries_trans [of y u ?u] by simp
  have "link_up y" using dead by (simp add: link_up_def y_def)
  then have up: "link_up ?u" using uu by (simp add: carries_def)
  have "svc_line y a = Some l" "enabled y a" using a(2,3) na by (simp_all add: svc_line_def y_def enabled_def svc_options_def get_service_def)
  then have l: "svc_line ?u a = Some l" "enabled ?u a" using uu by (simp_all add: carries_def)
  have "service_list ?u = service_list s" using u(1) by (auto simp: add_client_def bind_eq_Some_conv Let_def y_def split: if_splits)
  then have sl: "a \<in> set (service_list ?u)" using a(1) by simp
  have v: "introduced v a" "l \<in> set (sendq v)" using introduce_services_carries [OF u(2) up sl l(2)] l(1) by blast+
  have "carries v w" using u(3) unfolding introduce_services_channels_def by (rule for_enabled_carries) (rule introduce_channels_carries)
  then have w: "introduced w a" "l \<in> set (sendq w)" using v by (auto simp: carries_def)
  obtain x where "t = sendto_server x (w\<lparr>server_p := Some (c\<lparr>conn_flags := conn_flags c OR CONN_FLAGS_SENTBURST\<rparr>)\<rparr>)"
    using u(4) by (auto simp: ping_server_def bind_eq_Some_conv)
  then have "carries (w\<lparr>server_p := Some (c\<lparr>conn_flags := conn_flags c OR CONN_FLAGS_SENTBURST\<rparr>)\<rparr>) t" using sendto_carries by simp
  moreover have "introduced (w\<lparr>server_p := p\<rparr>) a" for p using w(1) by (simp add: introduced_def get_service_def)
  ultimately show ?thesis using w(2) by (auto simp: carries_def)
qed

subsection \<open>The properties\<close>

text \<open>
  C2. The commands that bring clients in, rename them or take them out never follow a stale or null
  pointer and leave a well-formed state in which no listed server is dead. From any known user or server and on every parameter list this holds
  for NICK, QUIT and KILL, and for SQUIT when it names a server or the uplink is known. From a known server it holds for SID, for
  SERVER when there is a connection, and for UID when its address parameter is not empty.
\<close>

theorem client_commands_safe:
  assumes "env_ok E" and "state_ok s" and "a \<in> set (user_list s) \<union> set (server_list s)"
  shows "(\<exists>s'. c_nick E a ps s = Some s' \<and> state_ok s') \<and> (\<exists>s'. c_quit E a ps s = Some s' \<and> state_ok s') \<and>
    (\<exists>s'. c_kill E a ps s = Some s' \<and> state_ok s') \<and>
    (arg ps 0 \<noteq> [] \<or> (\<exists>conn v. server_p s = Some conn \<and> conn_client conn = Some v \<and> v \<in> set (server_list s)) \<longrightarrow>
      (\<exists>s'. c_squit E a ps s = Some s' \<and> state_ok s')) \<and>
    (a \<in> set (server_list s) \<longrightarrow> (\<exists>s'. c_sid E a ps s = Some s' \<and> state_ok s') \<and>
      (arg ps 6 \<noteq> [] \<longrightarrow> (\<exists>s'. c_uid E a ps s = Some s' \<and> state_ok s')) \<and>
      (server_p s \<noteq> None \<longrightarrow> (\<exists>s'. c_server E (Some a) ps s = Some s' \<and> state_ok s')))"
proof -
  have ne: "arg ps 0 \<noteq> [] \<Longrightarrow> \<not> (length ps < 1 \<or> EmptyString (arg ps 0))" by (auto simp: EmptyString_def arg_def)
  have sq: "runs (c_squit E a ps s) state_ok"
    if "arg ps 0 \<noteq> [] \<or> (\<exists>conn v. server_p s = Some conn \<and> conn_client conn = Some v \<and> v \<in> set (server_list s))"
    by (rule env_ok.c_squit_runs [OF assms(1,2)]) (use that ne in blast)
  have sv: "runs (c_server E (Some a) ps s) state_ok" if "a \<in> set (server_list s)" "server_p s \<noteq> None"
    using env_ok.c_server_runs [OF assms(1,2) that(1)] that(2) by blast
  show ?thesis
    using env_ok.c_nick_runs [OF assms] env_ok.c_quit_runs [OF assms] env_ok.c_kill_runs [OF assms(1,2)] sq
      env_ok.c_sid_runs [OF assms(1,2)] env_ok.c_uid_runs [OF assms(1,2)] sv
    unfolding runs_def by blast
qed

lemma sample_server_p:
  "server_p sample_net = Some \<lparr>conn_name = ''hub.example.org'', sid = ''1HB'', pass = ''secret'',
     conn_flags = CONN_TS OR CONN_FLAGS_SENTBURST OR CONN_FLAGS_EOB, conn_client = Some 0, first_time = 50, conn_last_time = 190\<rparr>"
  by (simp add: sample_net_def)

theorem client_commands_safe_witness:
  "(\<exists>s'. c_nick sample_env 1 [''bob'', ''150''] sample_net = Some s' \<and> state_ok s') \<and>
   (\<exists>s'. c_squit sample_env 0 [''leaf.example.org''] sample_net = Some s' \<and> state_ok s') \<and>
   (\<exists>s'. c_uid sample_env 0 [''bob'', ''1'', ''150'', ''+i'', ''bo'', ''example.net'', ''10.0.0.1'', ''1HBAAAAAB'', ''Bob''] sample_net = Some s' \<and> state_ok s')"
  using client_commands_safe [OF sample_env_ok(2) sample_state_ok, of 1 "[''bob'', ''150'']"]
    client_commands_safe [OF sample_env_ok(2) sample_state_ok, of 0 "[''leaf.example.org'']"]
    client_commands_safe [OF sample_env_ok(2) sample_state_ok, of 0 "[''bob'', ''1'', ''150'', ''+i'', ''bo'', ''example.net'', ''10.0.0.1'', ''1HBAAAAAB'', ''Bob'']"]
  by (simp add: arg_def)

text \<open>
  C10. A UID for a nickname that is free introduces exactly one user: it gets a fresh address, carries the
  name, user name, host, id and modes of the parameters, is listed and hashed, and is on the
  list of the server that sent it; no other client changes.
\<close>

theorem c_uid_introduces:
  assumes "env_ok E" and "state_ok s" and "v \<in> set (server_list s)" and "clients s v = Some up" and "length ps = 9"
    and "length (arg ps 0) \<le> NICKLEN" and "find_client (arg ps 0) s = Some None" and "ip_given (arg ps 6) = Some given"
  shows "\<exists>s'. c_uid E v ps s = Some s' \<and> state_ok s' \<and> clients s' (next_addr s) = Some (uid_user (lib E) v up ps given) \<and>
    client_added s True (Some v) s'"
proof -
  have "runs (add_user E v (uid_user (lib E) v up ps given) s)
      (\<lambda>t. state_ok t \<and> client_added s True (Some v) t \<and> clients t (next_addr s) = Some (uid_user (lib E) v up ps given))"
    by (rule env_ok.add_user_runs [OF assms(1-3) env_ok.new_user_made(2) [OF assms(1)]])
  moreover have "c_uid E v ps s = add_user E v (uid_user (lib E) v up ps given) s"
    using assms(4-8) by (simp add: c_uid_def nick_collide_def)
  ultimately show ?thesis by (auto simp: runs_def)
qed

lemma sample_find_bob: "find_client ''bob'' sample_net = Some None"
proof -
  have t: "tables_ok sample_net" using sample_net_ok by blast
  note e = find_client_eq [OF t, of "''bob''"]
  have i: "irccmp ''hub.example.org'' ''bob'' \<noteq> 0" "irccmp ''alice'' ''bob'' \<noteq> 0" "irccmp ''chanserv'' ''bob'' \<noteq> 0" "\<not> IsDigit CHR ''b''"
    by code_simp+
  have "client_name sample_net 0 = ''hub.example.org''" "client_name sample_net 1 = ''alice''" "client_name sample_net 2 = ''chanserv''"
    by (simp_all add: client_name_def sample_proj)
  then have n: "irccmp (client_name sample_net 0) ''bob'' \<noteq> 0" "irccmp (client_name sample_net 1) ''bob'' \<noteq> 0" "irccmp (client_name sample_net 2) ''bob'' \<noteq> 0"
    using i(1-3) by simp_all
  have "irccmp (client_name sample_net a) ''bob'' \<noteq> 0" if "a \<in> set (name_table sample_net h)" for a h
    using name_table_hashed [OF t that] sample_hashed [of a] n by blast
  then have "find (\<lambda>a. irccmp (client_name sample_net a) ''bob'' = 0) (name_table sample_net h) = None" for h by (simp add: find_None_iff)
  then show ?thesis using e i(4) by simp
qed

theorem c_uid_introduces_witness:
  "\<exists>s'. c_uid sample_env 0 [''bob'', ''1'', ''150'', ''+i'', ''bo'', ''example.net'', ''10.0.0.1'', ''1HBAAAAAB'', ''Bob''] sample_net = Some s' \<and>
     state_ok s' \<and> client_added sample_net True (Some 0) s'"
  using c_uid_introduces [OF sample_env_ok(2) sample_state_ok, of 0 "the (sample_clients 0)"
      "[''bob'', ''1'', ''150'', ''+i'', ''bo'', ''example.net'', ''10.0.0.1'', ''1HBAAAAAB'', ''Bob'']" True]
  by (auto simp: arg_def sample_find_bob sample_clients_def ip_given_def rd_def)

text \<open>
  UID reads the server structure of the client that sent it without a check: when the source is a user, the
  command follows a null pointer.
\<close>

theorem c_uid_from_user:
  assumes "env_ok E" and "net_ok s" and "get_server a s = None" and "length ps = 9" and "length (arg ps 0) \<le> NICKLEN"
    and "find_client (arg ps 0) s = Some None"
  shows "c_uid E a ps s = None"
proof -
  have "add_user E a cl s = None" for cl
  proof (cases "a = next_addr s")
    case True
    then have "clients s a = None" using fresh_client(2) [OF assms(2), of a] by simp
    then show ?thesis by (simp add: add_user_def)
  next
    case False
    let ?y = "s\<lparr>clients := (clients s)(next_addr s \<mapsto> cl), next_addr := Suc (next_addr s)\<rparr>"
    have "runs (add_client (lib E) (next_addr s) ?y) (\<lambda>t. table_frame t ?y \<and> tables_ok t \<and> (\<forall>b. hashed t b \<longleftrightarrow> hashed s b \<or> b = next_addr s))"
      by (rule env_ok.alloc_hash_runs [OF assms(1,2)]) simp
    then obtain t where t: "add_client (lib E) (next_addr s) ?y = Some t" "table_frame t ?y" by (auto simp: runs_def)
    have "get_server a (t\<lparr>user_list := l\<rparr>) = None" for l
      using table_frame_fields(1) [OF t(2)] assms(3) False by (simp add: get_server_def)
    then show ?thesis using t(1) by (cases "clients s a") (simp_all add: add_user_def alloc_client_def Let_def upd_server_def)
  qed
  then show ?thesis using assms(4-6) by (cases "clients s a"; cases "ip_given (arg ps 6)") (simp_all add: c_uid_def nick_collide_def)
qed

theorem c_uid_from_user_witness:
  "c_uid sample_env 1 [''bob'', ''1'', ''150'', ''+i'', ''bo'', ''example.net'', ''10.0.0.1'', ''1HBAAAAAB'', ''Bob''] sample_net = None"
  by (rule c_uid_from_user [OF sample_env_ok(2) sample_net_ok]) (simp_all add: arg_def sample_find_bob get_server_def sample_clients_def)

text \<open>
  C11. When the uplink introduces itself under the configured name over a connection that is not dead, it becomes a listed server that the
  connection refers to, and the services that are not disabled, and only those, are put into the tables. Each of them is marked as introduced
  and the line that introduces it, with its name, user name, host, id and modes, has been sent.
\<close>

theorem uplink_introduces_services:
  assumes "env_ok E" and "state_ok s" and "server_p s = Some conn" and "conn_flags conn AND CONN_TS \<noteq> 0"
    and "irccmp (conn_name conn) (arg ps 0) = 0" and "length ps \<ge> 3" and "length (arg ps 0) \<le> HOSTLEN"
    and "\<And>a. a \<in> set (service_list s) \<Longrightarrow> \<not> hashed s a" and "conn_flags conn AND CONN_DEAD = 0"
  shows "\<exists>s'. c_server E None ps s = Some s' \<and> state_ok s' \<and> next_addr s \<in> set (server_list s') \<and>
    (\<exists>c. server_p s' = Some c \<and> conn_client c = Some (next_addr s)) \<and>
    (\<forall>a. a \<in> set (service_list s) \<longrightarrow> hashed s' a = enabled s a) \<and>
    (\<forall>a cl sv. a \<in> set (service_list s) \<and> enabled s a \<and> clients s a = Some cl \<and> service cl = Some sv \<longrightarrow>
       introduced s' a \<and> intro_line cl sv \<in> set (sendq s'))"
proof -
  have run: "c_server E None ps s = add_uplink E ps conn s" using assms(3,6,7) by (simp add: c_server_def)
  obtain s' where s': "add_uplink E ps conn s = Some s'" "state_ok s' \<and> next_addr s \<in> set (server_list s') \<and>
    (\<exists>c. server_p s' = Some c \<and> conn_client c = Some (next_addr s)) \<and> (\<forall>a. a \<in> set (service_list s) \<longrightarrow> hashed s' a = enabled s a)"
    using env_ok.add_uplink_runs [OF assms(1,2,4,5,8)] by (auto simp: runs_def)
  have "introduced s' a \<and> intro_line cl sv \<in> set (sendq s')"
    if "a \<in> set (service_list s)" "enabled s a" "clients s a = Some cl" "service cl = Some sv" for a cl sv
    by (rule add_uplink_tells [OF s'(1) state_okD(1) [OF assms(2)] assms(4,5,9) that(1,2)]) (use that in \<open>simp add: svc_line_def\<close>)
  then show ?thesis using run s' by auto
qed

text \<open>Services that are not connected yet.\<close>

definition offline_net :: net where
  "offline_net = empty_net\<lparr>clients := (\<lambda>a. if a = 2 then sample_clients 2 else None), next_addr := 5, service_list := [2],
     server_p := Some \<lparr>conn_name = ''hub.example.org'', sid = ''1HB'', pass = ''secret'', conn_flags = CONN_TS, conn_client = None, first_time = 0, conn_last_time = 0\<rparr>\<rparr>"

lemma offline_proj:
  "keys offline_net = [2 \<mapsto> (''chanserv'', ''2SVAAAAAA'')]" "kind offline_net = [2 \<mapsto> (False, False, True)]" "hashed offline_net a = False"
  "service_chans offline_net = [2 \<mapsto> []]" "user_chans offline_net = (\<lambda>a. None)" "chan_lists offline_net = (\<lambda>a. None)"
  "chan_services offline_net = (\<lambda>a. None)" "chan_key offline_net = (\<lambda>a. None)"
  by (auto simp: projection_defs offline_net_def empty_net_def sample_clients_def sample_service_def fun_eq_iff)

lemma offline_fields [simp]:
  "name_table offline_net h = []" "uid_table offline_net h = []" "user_list offline_net = []" "server_list offline_net = []" "service_list offline_net = [2]"
  "exited_list offline_net = []" "members offline_net = (\<lambda>a. None)" "channel_list offline_net = []" "channel_table offline_net h = []"
  "client_oper_list offline_net = []" "conf_oper_list offline_net = []" "next_addr offline_net = 5" "deopped_list offline_net = []" "conf_opers offline_net p = None"
  by (simp_all add: offline_net_def empty_net_def)

lemma offline_state_ok: "state_ok offline_net"
  by (simp add: state_ok_def alive_def net_ok_def tables_ok_def chtable_ok_def members_ok_def services_ok_def links_ok_def opers_ok_def
      oper_refs_def alloc_ok_def listed_ok_def offline_proj)

theorem uplink_introduces_services_witness:
  "\<exists>s'. c_server sample_env None [''hub.example.org'', ''1'', ''hub''] offline_net = Some s' \<and> state_ok s' \<and> 5 \<in> set (server_list s') \<and> hashed s' 2 \<and>
     ''UID chanserv 1 1 +iDS chanserv services.int 0 2SVAAAAAA :Channel Services'' \<in> set (sendq s')"
proof -
  have i: "irccmp ''hub.example.org'' ''hub.example.org'' = 0" by code_simp
  have e: "enabled offline_net 2"
    by (simp add: enabled_def svc_options_def get_service_def offline_net_def sample_clients_def sample_service_def)
  have c: "clients offline_net 2 = sample_clients 2" by (simp add: offline_net_def)
  have "\<exists>s'. c_server sample_env None [''hub.example.org'', ''1'', ''hub''] offline_net = Some s' \<and> state_ok s' \<and> next_addr offline_net \<in> set (server_list s') \<and>
    (\<exists>c. server_p s' = Some c \<and> conn_client c = Some (next_addr offline_net)) \<and>
    (\<forall>a. a \<in> set (service_list offline_net) \<longrightarrow> hashed s' a = enabled offline_net a) \<and>
    (\<forall>a cl sv. a \<in> set (service_list offline_net) \<and> enabled offline_net a \<and> clients offline_net a = Some cl \<and> service cl = Some sv \<longrightarrow>
       introduced s' a \<and> intro_line cl sv \<in> set (sendq s'))"
    by (rule uplink_introduces_services [OF sample_env_ok(2) offline_state_ok, of "the (server_p offline_net)"])
      (use i in \<open>simp_all add: offline_proj arg_def\<close>, simp_all add: offline_net_def)
  then obtain s' where s': "c_server sample_env None [''hub.example.org'', ''1'', ''hub''] offline_net = Some s'" "state_ok s'" "5 \<in> set (server_list s')"
      "hashed s' 2" "intro_line (the (sample_clients 2)) sample_service \<in> set (sendq s')"
    using e c by (auto simp: sample_clients_def)
  moreover have "intro_line (the (sample_clients 2)) sample_service = ''UID chanserv 1 1 +iDS chanserv services.int 0 2SVAAAAAA :Channel Services''"
    by (simp add: intro_line_def sample_clients_def sample_service_def)
  ultimately show ?thesis by auto
qed

lemma withdraw_absent:
  assumes E: "env_ok E" and r: "rehashed H s t" and a: "a \<in> set xs" "\<not> H a" and xs: "set xs \<subseteq> set (service_list s)"
  shows "foreach (\<lambda>a s. do { s \<leftarrow> upd_service a (\<lambda>sv. sv\<lparr>status := status sv AND NOT SERVICE_INTRODUCED\<rparr>) s; del_client (lib E) a s }) xs t = None"
  using r a xs
proof (induction xs arbitrary: t H)
  case (Cons b xs)
  have b: "b \<in> set (service_list s)" using Cons.prems(4) by simp
  show ?case
  proof (cases "H b")
    case True
    then have "runs (do { t \<leftarrow> upd_service b (\<lambda>sv. sv\<lparr>status := status sv AND NOT SERVICE_INTRODUCED\<rparr>) t; del_client (lib E) b t })
        (rehashed (\<lambda>c. H c \<and> c \<noteq> b) s)"
      by (rule env_ok.withdraw_service_runs [OF E Cons.prems(1) b])
    then obtain u where u: "(do { t \<leftarrow> upd_service b (\<lambda>sv. sv\<lparr>status := status sv AND NOT SERVICE_INTRODUCED\<rparr>) t; del_client (lib E) b t }) = Some u"
        "rehashed (\<lambda>c. H c \<and> c \<noteq> b) s u" by (auto simp: runs_def)
    have "a \<in> set xs" using Cons.prems(2,3) True by auto
    then show ?thesis using Cons.IH [OF u(2)] u(1) Cons.prems by simp
  next
    case False
    have "runs (upd_service b (\<lambda>sv. sv\<lparr>status := status sv AND NOT SERVICE_INTRODUCED\<rparr>) t) (rehashed H s)"
      by (rule env_ok.clear_status_runs [OF E Cons.prems(1) b])
    then obtain u where u: "upd_service b (\<lambda>sv. sv\<lparr>status := status sv AND NOT SERVICE_INTRODUCED\<rparr>) t = Some u" "rehashed H s u" by (auto simp: runs_def)
    have "\<not> hashed u b" using rehashedD(5) [OF u(2)] False by simp
    then have "del_client (lib E) b u = None"
      by (cases "clients u b") (simp_all add: del_client_def dl_delete_def hashed_def keys_def)
    then show ?thesis using u(1) by simp
  qed
qed simp

text \<open>
  C40. An uplink that introduces itself under another name is signed off, and signing off takes every service out of
  the tables whether or not it was introduced: with a service that was never introduced, or that is disabled, a node that is on no list is deleted.
\<close>

theorem uplink_mismatch_undefined:
  assumes "env_ok E" and "state_ok s" and "server_p s = Some conn" and "conn_flags conn AND CONN_DEAD = 0"
    and "irccmp (conn_name conn) (arg ps 0) \<noteq> 0" and "length ps \<ge> 3" and "length (arg ps 0) \<le> HOSTLEN"
    and "a \<in> set (service_list s)" and "\<not> hashed s a"
  shows "c_server E None ps s = None"
proof -
  let ?w = "s\<lparr>server_p := Some (conn\<lparr>conn_flags := conn_flags conn OR CONN_DEAD\<rparr>)\<rparr>"
  have "rehashed (hashed ?w) ?w ?w" using assms(2) by (intro rehashed_refl) simp
  moreover have "\<not> hashed ?w a" using assms(9) by (simp add: hashed_def keys_def)
  ultimately have "foreach (\<lambda>a s. do { s \<leftarrow> upd_service a (\<lambda>sv. sv\<lparr>status := status sv AND NOT SERVICE_INTRODUCED\<rparr>) s; del_client (lib E) a s })
      (service_list s) ?w = None"
    by (rule withdraw_absent [OF assms(1) _ assms(8)]) simp
  then have "signoff_server E s = None" using assms(3,4) by (simp add: signoff_server_def Let_def)
  then show ?thesis using assms(3,5-7) by (simp add: c_server_def add_uplink_def)
qed

theorem uplink_mismatch_undefined_witness: "c_server sample_env None [''other.example.org'', ''1'', ''hub''] offline_net = None"
proof -
  have "irccmp ''hub.example.org'' ''other.example.org'' \<noteq> 0" by code_simp
  then show ?thesis
    by (intro uplink_mismatch_undefined [OF sample_env_ok(2) offline_state_ok, of "the (server_p offline_net)" _ 2])
      (simp_all add: offline_proj arg_def, simp_all add: offline_net_def)
qed

end
