(* ===== verification/Mode_Handlers.thy ===== *)
theory Mode_Handlers
  imports Client_Handlers
begin

section \<open>Mode\_Handlers: channel modes (src/c\_mode.c)\<close>

text \<open>
  \<open>parse_full_mode\<close> applies a mode change to a channel and its members; with a source it also builds
  the line that announces it. The users it opped and voiced, the bans it set and the services it deopped are
  collected in the static lists \<open>opped_list\<close>, \<open>voiced_list\<close>, \<open>ban_list\<close> and \<open>deopped_list\<close>, which
  \<open>handle_chmode\<close> hands to the functions on the mode events. MODE, TMODE and BMASK call them.
\<close>

subsection \<open>Applying a mode change\<close>

definition dir_int :: "bool \<Rightarrow> int" where
  "dir_int dir = (if dir then DIR_ADD else DIR_DEL)"

text \<open>\<open>if(source_p) modebuild_add(dir, letter, para)\<close>\<close>

definition issue :: "addr option \<Rightarrow> bool \<Rightarrow> char \<Rightarrow> string option \<Rightarrow> net \<Rightarrow> net" where
  "issue source_p dir l para s = (if source_p = None then s else mb_add (dir_int dir) [l] para s)"

text \<open>The modes that are one bit of the channel.\<close>

definition simple_bit :: "char \<Rightarrow> u32 option" where
  "simple_bit = map_of [(CHR ''i'', MODE_INVITEONLY), (CHR ''m'', MODE_MODERATED), (CHR ''n'', MODE_NOEXTERNAL),
     (CHR ''p'', MODE_PRIVATE), (CHR ''s'', MODE_SECRET), (CHR ''t'', MODE_TOPIC), (CHR ''r'', MODE_REGONLY)]"

definition set_mode :: "addr \<Rightarrow> (chmode \<Rightarrow> chmode) \<Rightarrow> net \<Rightarrow> net option" where
  "set_mode c f s = upd_chan c (\<lambda>ch. ch\<lparr>cmode := f (cmode ch)\<rparr>) s"

text \<open>A service is named: only a \<open>-o\<close> from the network matters, and a \<open>+o\<close> that takes it back.\<close>

definition deop_service :: "rblib \<Rightarrow> bool \<Rightarrow> addr \<Rightarrow> net \<Rightarrow> net" where
  "deop_service L dir target_p s =
     (if dir then s\<lparr>deopped_list := find_destroy L target_p (deopped_list s)\<rparr>
      else if dlinkFind (rb_ptrs L) target_p (deopped_list s) then s
      else s\<lparr>deopped_list := dlinkAdd (rb_ptrs L) target_p (deopped_list s)\<rparr>)"

definition op_mode :: "env \<Rightarrow> addr option \<Rightarrow> bool \<Rightarrow> addr \<Rightarrow> string \<Rightarrow> net \<Rightarrow> net option" where
  "op_mode E source_p dir m nick s =
     (if dir then do {
        s \<leftarrow> upd_member m (\<lambda>mp. mp\<lparr>mflags := mflags mp AND NOT MODE_DEOPPED\<rparr>) s;
        mp \<leftarrow> members s m;
        if is_opped mp then Some s
        else do {
          s \<leftarrow> op_chmember (lib E) m s;
          let s = s\<lparr>opped_list := dlinkAdd (rb_ptrs (lib E)) m (opped_list s)\<rparr>;
          Some (issue source_p dir (CHR ''o'') (Some nick) s)
        }
      }
      else do {
        mp \<leftarrow> members s m;
        s \<leftarrow> (if is_opped mp then deop_chmember E m (s\<lparr>opped_list := find_destroy (lib E) m (opped_list s)\<rparr>) else Some s);
        Some (issue source_p dir (CHR ''o'') (Some nick) s)
      })"

definition voice_mode :: "env \<Rightarrow> addr option \<Rightarrow> bool \<Rightarrow> addr \<Rightarrow> string \<Rightarrow> net \<Rightarrow> net option" where
  "voice_mode E source_p dir m nick s = do {
     mp \<leftarrow> members s m;
     if dir then
       (if mflags mp AND MODE_VOICED \<noteq> 0 then Some s
        else do {
          s \<leftarrow> upd_member m (\<lambda>mp. mp\<lparr>mflags := mflags mp OR MODE_VOICED\<rparr>) s;
          let s = s\<lparr>voiced_list := dlinkAdd (rb_ptrs (lib E)) m (voiced_list s)\<rparr>;
          Some (issue source_p dir (CHR ''v'') (Some nick) s)
        })
     else do {
       s \<leftarrow> (if mflags mp AND MODE_VOICED \<noteq> 0
             then upd_member m (\<lambda>mp. mp\<lparr>mflags := mflags mp AND NOT MODE_VOICED\<rparr>) (s\<lparr>voiced_list := find_destroy (lib E) m (voiced_list s)\<rparr>)
             else Some s);
       Some (issue source_p dir (CHR ''v'') (Some nick) s)
     }
   }"

definition member_mode :: "env \<Rightarrow> addr \<Rightarrow> addr option \<Rightarrow> char \<Rightarrow> bool \<Rightarrow> string \<Rightarrow> net \<Rightarrow> net option" where
  "member_mode E c source_p p dir nick s = do {
     r \<leftarrow> find_service nick s;
     case r of
       Some target_p \<Rightarrow> Some (if source_p \<noteq> None \<or> p \<noteq> CHR ''o'' then s else deop_service (lib E) dir target_p s)
     | None \<Rightarrow> do {
         r \<leftarrow> find_user nick True s;
         case r of None \<Rightarrow> Some s | Some target_p \<Rightarrow> do {
           r \<leftarrow> find_chmember c target_p s;
           case r of None \<Rightarrow> Some s
           | Some m \<Rightarrow> if p = CHR ''o'' then op_mode E source_p dir m nick s else voice_mode E source_p dir m nick s
         }
       }
   }"

definition find_destroy_str :: "rblib \<Rightarrow> string \<Rightarrow> string list \<Rightarrow> string list" where
  "find_destroy_str L x xs = (if dlinkFind (rb_strs L) x xs then dlinkDelete (rb_strs L) x xs else xs)"

definition ban_mode :: "rblib \<Rightarrow> addr \<Rightarrow> char \<Rightarrow> bool \<Rightarrow> string \<Rightarrow> net \<Rightarrow> net option" where
  "ban_mode L c p dir m s = do {
     ch \<leftarrow> chans s c;
     if p = CHR ''b'' then do {
       let (r, l) = (if dir then add_ban L m (bans ch) else del_ban L m (bans ch));
       s \<leftarrow> upd_chan c (\<lambda>ch. ch\<lparr>bans := l\<rparr>) s;
       Some (case r of None \<Rightarrow> s
             | Some b \<Rightarrow> s\<lparr>ban_list := (if dir then dlinkAdd (rb_strs L) b (ban_list s) else find_destroy_str L b (ban_list s))\<rparr>)
     }
     else if p = CHR ''e'' then upd_chan c (\<lambda>ch. ch\<lparr>excepts := snd (if dir then add_ban L m (excepts ch) else del_ban L m (excepts ch))\<rparr>) s
     else upd_chan c (\<lambda>ch. ch\<lparr>invites := snd (if dir then add_ban L m (invites ch) else del_ban L m (invites ch))\<rparr>) s
   }"

text \<open>The loop over the letters. It returns whether the letters were all used: an early return leaves
  the line that is being built unfinished.\<close>

fun full_mode_loop :: "env \<Rightarrow> addr \<Rightarrow> addr option \<Rightarrow> bool \<Rightarrow> parv \<Rightarrow> string \<Rightarrow> bool \<Rightarrow> nat \<Rightarrow> net \<Rightarrow> (bool \<times> net) option" where
  "full_mode_loop E c source_p allow_sslonly ps [] dir start s = Some (True, s)"
| "full_mode_loop E c source_p allow_sslonly ps (p # str) dir start s =
     (let loop = full_mode_loop E c source_p allow_sslonly ps str; para = arg ps start in
      if p = CHR ''+'' then loop True start s
      else if p = CHR ''-'' then loop False start s
      else case simple_bit p of
        Some b \<Rightarrow> do { s \<leftarrow> set_mode c (set_bits dir b) s; loop dir start (issue source_p dir p None s) }
      | None \<Rightarrow>
      if p = CHR ''S'' then
        (if allow_sslonly
         then do { s \<leftarrow> set_mode c (set_bits dir MODE_SSLONLY) s; loop dir start (issue source_p dir p None s) }
         else Some (False, s))
      else if p = CHR ''k'' then
        (if EmptyString para then Some (False, s)
         else if dir then do {
           let key' = rb_strlcpy (lib E) para (KEYLEN + 1);
           s \<leftarrow> set_mode c (\<lambda>m. (set_bits True MODE_KEY m)\<lparr>key := key'\<rparr>) s;
           loop dir (Suc start) (issue source_p dir p (Some key') s)
         }
         else do {
           s \<leftarrow> set_mode c (\<lambda>m. (set_bits False MODE_KEY m)\<lparr>key := []\<rparr>) s;
           loop dir (Suc start) (issue source_p dir p (Some ''*'') s)
         })
      else if p = CHR ''l'' then
        (if dir then
           (if EmptyString para \<or> atoi para \<le> 0 \<or> source_p \<noteq> None \<and> \<not> EmptyString (strtol_rest para) then Some (False, s)
            else do {
              s \<leftarrow> set_mode c (\<lambda>m. (set_bits True MODE_LIMIT m)\<lparr>limit := atoi para\<rparr>) (issue source_p dir p (Some para) s);
              loop dir (Suc start) s
            })
         else do {
           s \<leftarrow> set_mode c (\<lambda>m. (set_bits False MODE_LIMIT m)\<lparr>limit := 0\<rparr>) s;
           loop dir start (issue source_p dir p None s)
         })
      else if p = CHR ''o'' \<or> p = CHR ''v'' then
        (if EmptyString para then Some (False, s)
         else do { s \<leftarrow> member_mode E c source_p p dir para s; loop dir (Suc start) s })
      else if p = CHR ''b'' \<or> p = CHR ''e'' \<or> p = CHR ''I'' then
        (if EmptyString para then Some (False, s)
         else do { s \<leftarrow> ban_mode (lib E) c p dir para s; loop dir (Suc start) (issue source_p dir p (Some para) s) })
      else loop dir start s)"

definition parse_full_mode :: "env \<Rightarrow> addr \<Rightarrow> addr option \<Rightarrow> parv \<Rightarrow> nat \<Rightarrow> bool \<Rightarrow> net \<Rightarrow> net option" where
  "parse_full_mode E c source_p ps start allow_sslonly s =
     (if length ps \<le> start then Some s
      else do {
        s \<leftarrow> (case source_p of None \<Rightarrow> Some s | Some p \<Rightarrow> mb_start p c s);
        (done, s) \<leftarrow> full_mode_loop E c source_p allow_sslonly ps (arg ps start) True (Suc start) s;
        Some (if done \<and> source_p \<noteq> None then mb_finish s else s)
      })"

subsection \<open>MODE, TMODE and BMASK\<close>

definition mode_changed :: "chmode \<Rightarrow> chmode \<Rightarrow> bool" where
  "mode_changed old new \<longleftrightarrow> mode old \<noteq> mode new \<or> limit old \<noteq> limit new \<or> \<not> strcaseeq (key old) (key new)"

definition reop_services :: "env \<Rightarrow> addr \<Rightarrow> net \<Rightarrow> net option" where
  "reop_services E c s =
     foreach (\<lambda>t s. do {
       s \<leftarrow> rejoin_service E t c True s;
       Some (s\<lparr>deopped_list := dlinkDelete (rb_ptrs (lib E)) t (deopped_list s)\<rparr>) }) (deopped_list s) s"

definition handle_chmode :: "env \<Rightarrow> addr \<Rightarrow> addr \<Rightarrow> parv \<Rightarrow> net \<Rightarrow> net option" where
  "handle_chmode E c source_p ps s = do {
     ch \<leftarrow> chans s c;
     let oldmode = cmode ch;
     s \<leftarrow> parse_full_mode E c None ps 0 True s;
     s \<leftarrow> (if opped_list s \<noteq> [] then hook_do E HOOK_CHANNEL_MODE_OP (ArgChannel c) (ArgMembers (opped_list s)) s else Some s);
     s \<leftarrow> (if voiced_list s \<noteq> [] then hook_do E HOOK_CHANNEL_MODE_VOICE (ArgChannel c) (ArgMembers (voiced_list s)) s else Some s);
     ch \<leftarrow> chans s c;
     s \<leftarrow> (if mode_changed oldmode (cmode ch) then hook_do E HOOK_CHANNEL_MODE_SIMPLE (ArgChannel c) ArgNull s else Some s);
     cl \<leftarrow> clients s source_p;
     s \<leftarrow> (if user cl \<noteq> None \<and> ban_list s \<noteq> [] then hook_do E HOOK_CHANNEL_MODE_BAN (ArgChannel c) (ArgBans (ban_list s)) s else Some s);
     reop_services E c (s\<lparr>opped_list := [], voiced_list := [], ban_list := []\<rparr>)
   }"

definition c_mode :: "env \<Rightarrow> addr \<Rightarrow> parv \<Rightarrow> net \<Rightarrow> net option" where
  "c_mode E client_p ps s =
     (if length ps < 1 \<or> EmptyString (arg ps 0) then Some s
      else if length ps < 2 \<or> EmptyString (arg ps 1) then Some s
      else if \<not> IsChanPrefix (hd (arg ps 0)) then do {
        r \<leftarrow> find_user (arg ps 0) True s;
        case r of None \<Rightarrow> Some s
        | Some target_p \<Rightarrow>
            if target_p \<noteq> client_p then Some s
            else upd_user target_p (\<lambda>u. u\<lparr>umode := string_to_umode (arg ps 1) (umode u)\<rparr>) s
      }
      else do {
        r \<leftarrow> find_channel (arg ps 0) s;
        case r of None \<Rightarrow> Some s
        | Some c \<Rightarrow> do {
            cl \<leftarrow> clients s client_p;
            msptr \<leftarrow> (if user cl \<noteq> None then find_chmember c client_p s else Some None);
            deopped \<leftarrow> (case msptr of None \<Rightarrow> Some False | Some m \<Rightarrow> do { mp \<leftarrow> members s m; Some (mflags mp AND MODE_DEOPPED \<noteq> 0) });
            if deopped then Some s else handle_chmode E c client_p (drop 1 ps) s
          }
      })"

definition c_tmode :: "env \<Rightarrow> addr \<Rightarrow> parv \<Rightarrow> net \<Rightarrow> net option" where
  "c_tmode E client_p ps s =
     (if length ps < 3 \<or> EmptyString (arg ps 2) then Some s
      else do {
        r \<leftarrow> find_channel (arg ps 1) s;
        case r of None \<Rightarrow> Some s
        | Some c \<Rightarrow> do {
            ch \<leftarrow> chans s c;
            if atol (arg ps 0) > ch_tsinfo ch then Some s else handle_chmode E c client_p (drop 2 ps) s
          }
      })"

text \<open>BMASK checks the number of its parameters nowhere: one that was not sent is a null pointer.\<close>

definition bmask_add :: "rblib \<Rightarrow> string list \<Rightarrow> string list \<Rightarrow> string list" where
  "bmask_add L masks l = fold (\<lambda>m l. if hd m \<noteq> CHR '':'' \<and> valid_ban m then snd (add_ban L m l) else l) masks l"

definition c_bmask :: "env \<Rightarrow> addr \<Rightarrow> parv \<Rightarrow> net \<Rightarrow> net option" where
  "c_bmask E client_p ps s =
     (if length ps < 2 then None
      else do {
        r \<leftarrow> find_channel (arg ps 1) s;
        case r of None \<Rightarrow> Some s
        | Some c \<Rightarrow> do {
            ch \<leftarrow> chans s c;
            if atol (arg ps 0) > ch_tsinfo ch then Some s
            else if length ps < 3 then None
            else do {
              t \<leftarrow> rd (arg ps 2) 0;
              if t \<noteq> CHR ''b'' \<and> t \<noteq> CHR ''e'' \<and> t \<noteq> CHR ''I'' then Some s
              else if length ps < 4 then None
              else do {
                let masks = filter (\<lambda>m. m \<noteq> []) (sjoin_nicks (arg ps 3));
                upd_chan c (\<lambda>ch. if t = CHR ''b'' then ch\<lparr>bans := bmask_add (lib E) masks (bans ch)\<rparr>
                                else if t = CHR ''e'' then ch\<lparr>excepts := bmask_add (lib E) masks (excepts ch)\<rparr>
                                else ch\<lparr>invites := bmask_add (lib E) masks (invites ch)\<rparr>) s
              }
            }
          }
      })"

subsection \<open>The parser keeps the state well-formed\<close>

text \<open>The state is well-formed and has the same clients, channels and members.\<close>

definition moded :: "net \<Rightarrow> net \<Rightarrow> bool" where
  "moded s t \<longleftrightarrow> net_ok t \<and> chan_frame t s"

lemma moded_refl: "net_ok s \<Longrightarrow> moded s s"
  by (simp add: moded_def)

lemma modedD:
  assumes "moded s t"
  shows "net_ok t" "chan_frame t s" "same_clients t s" "chan_key t = chan_key s" "service_list t = service_list s" "user_list t = user_list s"
    "dom (members t) = dom (members s)"
  using assms by (auto simp: moded_def chan_frame_def same_clients_def)

lemma moded_step: "moded s t \<Longrightarrow> net_ok u \<Longrightarrow> chan_frame u t \<Longrightarrow> moded s u"
  using chan_frame_trans [of u t s] by (auto simp: moded_def)

lemma moded_chan: "moded s t \<Longrightarrow> chans s c \<noteq> None \<Longrightarrow> \<exists>ch. chans t c = Some ch"
  using chan_key_None [of t c] chan_key_None [of s c] modedD(4) [of s t] by auto

lemma moded_quiet: "moded s t \<Longrightarrow> quiet u t \<Longrightarrow> moded s u"
  by (rule moded_step) (use quiet_net_ok quiet_chan_frame modedD in auto)

lemma quiet_issue [simp]: "quiet (issue source_p dir l para t) t"
  by (simp add: issue_def)

lemma moded_issue: "moded s t \<Longrightarrow> moded s (issue source_p dir l para t)"
  using quiet_issue by (rule moded_quiet [rotated])

text \<open>The static lists: a service may be noted as deopped.\<close>

lemma net_ok_lists:
  assumes "net_ok t" "t' = t\<lparr>opped_list := a, voiced_list := b, ban_list := d, deopped_list := e\<rparr>" "set e \<subseteq> set (service_list t)"
  shows "net_ok t'" "chan_frame t' t"
proof -
  have P: "keys t' = keys t" "kind t' = kind t" "parent t' = parent t" "dead t' = dead t" "server_lists t' = server_lists t"
    "user_oper t' = user_oper t" "user_link t' = user_link t" "user_chans t' = user_chans t" "service_chans t' = service_chans t"
    "chan_key t' = chan_key t" "chan_lists t' = chan_lists t" "chan_services t' = chan_services t"
    unfolding assms by (simp_all add: projection_defs fun_eq_iff)
  have "services_ok t'" using assms P by (simp add: net_ok_def services_ok_def)
  then show "net_ok t'"
    using tables_ok_cong [of t' t] links_ok_cong [of t' t] opers_ok_cong [of t' t] alloc_ok_cong [of t' t] listed_ok_cong [of t' t]
      chtable_ok_cong [of t' t] members_ok_cong [of t' t] P assms(1) by (simp add: net_ok_def assms(2))
  show "chan_frame t' t" using P by (simp add: chan_frame_def same_clients_def assms(2))
qed

lemma moded_lists:
  assumes "moded s t" "set e \<subseteq> set (service_list t)"
  shows "moded s (t\<lparr>opped_list := a, voiced_list := b, ban_list := d, deopped_list := e\<rparr>)"
  using net_ok_lists [OF modedD(1) [OF assms(1)] refl assms(2)] by (rule moded_step [OF assms(1)])

lemma moded_deopped_in: "moded s t \<Longrightarrow> set (deopped_list t) \<subseteq> set (service_list t)"
  using modedD(1) [of s t] by (auto simp: net_ok_def services_ok_def)

lemma moded_opped: "moded s t \<Longrightarrow> moded s (t\<lparr>opped_list := a\<rparr>)"
  using moded_lists [where s = s and t = t and e = "deopped_list t" and a = a and b = "voiced_list t" and d = "ban_list t"] moded_deopped_in by simp

lemma moded_voiced: "moded s t \<Longrightarrow> moded s (t\<lparr>voiced_list := a\<rparr>)"
  using moded_lists [where s = s and t = t and e = "deopped_list t" and a = "opped_list t" and b = a and d = "ban_list t"] moded_deopped_in by simp

lemma moded_ban: "moded s t \<Longrightarrow> moded s (t\<lparr>ban_list := a\<rparr>)"
  using moded_lists [where s = s and t = t and e = "deopped_list t" and a = "opped_list t" and b = "voiced_list t" and d = a] moded_deopped_in by simp

lemma moded_deopped: "moded s t \<Longrightarrow> set a \<subseteq> set (service_list t) \<Longrightarrow> moded s (t\<lparr>deopped_list := a\<rparr>)"
  using moded_lists [where s = s and t = t and e = a and a = "opped_list t" and b = "voiced_list t" and d = "ban_list t"] by simp

lemma upd_chan_moded:
  assumes "moded s t" "chans s c \<noteq> None"
    "\<And>ch. chname (f ch) = chname ch \<and> users (f ch) = users ch \<and> users_opped (f ch) = users_opped ch \<and>
      users_unopped (f ch) = users_unopped ch \<and> services (f ch) = services ch"
  shows "runs (upd_chan c f t) (moded s)"
proof -
  obtain ch where ch: "chans t c = Some ch" using moded_chan [OF assms(1,2)] by blast
  have "runs (upd_chan c f t) (\<lambda>s'. net_ok s' \<and> chan_frame s' t \<and> s' = set_chan c (f ch) t)"
    by (rule upd_chan_runs [OF modedD(1) [OF assms(1)] ch assms(3)])
  then show ?thesis by (rule runs_mono) (use moded_step [OF assms(1)] in auto)
qed

lemma set_mode_moded: "moded s t \<Longrightarrow> chans s c \<noteq> None \<Longrightarrow> runs (set_mode c f t) (moded s)"
  unfolding set_mode_def by (rule upd_chan_moded) simp_all

lemma set_chan_same: "chans s c = Some ch \<Longrightarrow> set_chan c ch s = s"
  by (simp add: set_chan_def fun_upd_idem)

lemma upd_flags_moded:
  assumes t: "moded s t" and m: "members t m = Some mp" and f: "\<And>p. chptr (f p) = chptr p \<and> mclient (f p) = mclient p \<and> is_opped (f p) = is_opped p"
  shows "runs (upd_member m f t) (\<lambda>u. moded s u \<and> members u m = Some (f mp))"
proof -
  have ok: "chans_ok t" "members_ok t" using modedD(1) [OF t] by (auto simp: net_ok_alt chans_ok_def)
  obtain ch where ch: "chans t (chptr mp) = Some ch" using members_chan [OF ok(2) m] by blast
  have l: "distinct (users_opped ch)" "distinct (users_unopped ch)"
     "m \<in> set (users_opped ch) \<longleftrightarrow> is_opped mp" "m \<in> set (users_unopped ch) \<longleftrightarrow> \<not> is_opped mp"
    using members_okE [OF ok(2) m] chan_projs [OF ch] by (metis Pair_inject option.inject)+
  have e: "set_chan (chptr mp) ch (set_member m (f mp) t) = set_member m (f mp) t" by (rule set_chan_same) (simp add: ch)
  note C = chans_ok_flags [OF ok(1) m ch, of "f mp" ch, unfolded e]
  have u: "chans_ok (set_member m (f mp) t)" "same_clients (set_member m (f mp) t) t"
    using C f [of mp] l by (auto simp: insert_absorb)
  have "net_ok (set_member m (f mp) t)" "chan_frame (set_member m (f mp) t) t"
    using net_ok_same_chans [OF modedD(1) [OF t] u] u m by (auto simp: chan_frame_def)
  then have "moded s (set_member m (f mp) t)" by (rule moded_step [OF t])
  then show ?thesis using upd_member_eq [OF m, of f] by simp
qed

context env_ok
begin

lemma op_chmember_moded:
  assumes t: "moded s t" and m: "members t m = Some mp"
  shows "runs (op_chmember (lib E) m t) (\<lambda>u. moded s u \<and> members u = (if is_opped mp then members t
     else (members t)(m \<mapsto> mp\<lparr>mflags := (mflags mp AND NOT MODE_DEOPPED) OR MODE_OPPED\<rparr>)))"
proof -
  have ok: "chans_ok t" using modedD(1) [OF t] by (simp add: net_ok_alt)
  obtain u where u: "op_chmember (lib E) m t = Some u" "chans_ok u" "same_clients u t" "chan_key u = chan_key t" "next_addr u = next_addr t"
    "members u = (if is_opped mp then members t else (members t)(m \<mapsto> mp\<lparr>mflags := (mflags mp AND NOT MODE_DEOPPED) OR MODE_OPPED\<rparr>))"
    by (rule op_chmember_ok [OF ok m])
  have "dom (members u) = dom (members t)" using u(6) m by auto
  then have "moded s u" using net_ok_same_chans [OF modedD(1) [OF t] u(2-5)] u(3,4)
    by (intro moded_step [OF t]) (simp_all add: chan_frame_def)
  then show ?thesis using u(1,6) by simp
qed

lemma deop_chmember_moded:
  assumes t: "moded s t" and m: "members t m = Some mp"
  shows "runs (deop_chmember E m t) (\<lambda>u. moded s u \<and> members u =
     (if is_opped mp then (members t)(m \<mapsto> mp\<lparr>mflags := mflags mp AND NOT MODE_OPPED\<rparr>) else members t))"
proof -
  have ok: "chans_ok t" using modedD(1) [OF t] by (simp add: net_ok_alt)
  obtain u where u: "deop_chmember E m t = Some u" "chans_ok u" "same_clients u t" "chan_key u = chan_key t" "next_addr u = next_addr t"
    "members u = (if is_opped mp then (members t)(m \<mapsto> mp\<lparr>mflags := mflags mp AND NOT MODE_OPPED\<rparr>) else members t)"
    by (rule deop_chmember_ok [OF ok m])
  have "dom (members u) = dom (members t)" using u(6) m by auto
  then have "moded s u" using net_ok_same_chans [OF modedD(1) [OF t] u(2-5)] u(3,4)
    by (intro moded_step [OF t]) (simp_all add: chan_frame_def)
  then show ?thesis using u(1,6) by simp
qed

end

lemma moded_member: "moded s t \<Longrightarrow> members s m \<noteq> None \<Longrightarrow> \<exists>mp. members t m = Some mp"
  using modedD(7) [of s t] by (auto simp: dom_def set_eq_iff)

lemma runs_ifI: "(b \<Longrightarrow> runs r Q) \<Longrightarrow> (\<not> b \<Longrightarrow> runs r' Q) \<Longrightarrow> runs (if b then r else r') Q"
  by simp

lemma runs_optI: "(x = None \<Longrightarrow> runs r Q) \<Longrightarrow> (\<And>y. x = Some y \<Longrightarrow> runs (f y) Q) \<Longrightarrow> runs (case x of None \<Rightarrow> r | Some y \<Rightarrow> f y) Q"
  by (cases x) auto

lemma moded_fields [simp]:
  "members (issue source_p dir l para t) = members t" "chans (issue source_p dir l para t) = chans t"
  using quiet_fields [OF quiet_issue] by auto

lemma service_listed:
  assumes "net_ok s" "hashed s a" "get_service a s = Some v"
  shows "a \<in> set (service_list s)"
proof -
  have ok: "listed_ok s" "links_ok s" using assms(1) by blast+
  have "kind s a \<noteq> Some (x, y, False)" for x y using assms(3) by (auto simp: kind_def get_service_def bind_eq_Some_conv)
  then show ?thesis using ok(1) links_ok_kind [OF ok(2)] assms(2) unfolding listed_ok_def by blast
qed

context dlink_ok
begin

lemma set_Delete_sub: "set (dlinkDelete D x xs) \<subseteq> set xs"
  using mset_Delete_remove1 [of x xs] by (metis mset_eq_setD set_remove1_subset)

end

context env_ok
begin

text \<open>The status a member has after \<open>+o\<close> and \<open>-o\<close>.\<close>

lemma op_mode_runs:
  assumes t: "moded s t" and m: "members t m = Some mp"
  shows "runs (op_mode E source_p dir m nick t) (\<lambda>u. moded s u \<and>
     (\<exists>mp'. members u = (members t)(m \<mapsto> mp') \<and> is_opped mp' = dir \<and> chptr mp' = chptr mp \<and> mclient mp' = mclient mp))"
proof (cases dir)
  case True
  let ?f = "\<lambda>mp. mp\<lparr>mflags := mflags mp AND NOT MODE_DEOPPED\<rparr>"
  have o: "is_opped (?f p) = is_opped p" for p by (simp add: is_opped_def and.assoc)
  have u: "moded s (set_member m (?f mp) t)" "upd_member m ?f t = Some (set_member m (?f mp) t)"
    using upd_flags_moded [OF t m, of ?f] o upd_member_eq [OF m, of ?f] by auto
  let ?u = "set_member m (?f mp) t"
  have mu: "members ?u m = Some (?f mp)" by simp
  show ?thesis
  proof (cases "is_opped mp")
    case opped: True
    then show ?thesis using True u o [of mp] by (auto simp: op_mode_def intro!: exI [of _ "?f mp"])
  next
    case False
    have "runs (op_chmember (lib E) m ?u) (\<lambda>v. moded s v \<and> members v = (members ?u)(m \<mapsto> (?f mp)\<lparr>mflags := (mflags (?f mp) AND NOT MODE_DEOPPED) OR MODE_OPPED\<rparr>))"
      using op_chmember_moded [OF u(1) mu] False o [of mp] by simp
    then have "runs (op_chmember (lib E) m ?u) (\<lambda>v. moded s v \<and> (\<exists>mp'. members v = (members t)(m \<mapsto> mp') \<and> is_opped mp' \<and>
        chptr mp' = chptr mp \<and> mclient mp' = mclient mp))"
      by (rule runs_mono) (auto simp: is_opped_def intro!: exI)
    then show ?thesis using True u False o [of mp]
      by (auto simp: op_mode_def Let_def intro!: moded_issue moded_opped elim!: runs_mono)
  qed
next
  case False
  let ?u = "t\<lparr>opped_list := find_destroy (lib E) m (opped_list t)\<rparr>"
  have u: "moded s ?u" "members ?u m = Some mp" using t m by (auto intro: moded_opped)
  show ?thesis
  proof (cases "is_opped mp")
    case True
    have "runs (deop_chmember E m ?u) (\<lambda>v. moded s v \<and> members v = (members t)(m \<mapsto> mp\<lparr>mflags := mflags mp AND NOT MODE_OPPED\<rparr>))"
      using deop_chmember_moded [OF u] True by simp
    then show ?thesis using False True m
      by (auto simp: op_mode_def is_opped_def and.assoc intro!: moded_issue elim!: runs_mono)
  next
    case un: False
    then show ?thesis using False m t by (auto simp: op_mode_def fun_upd_idem intro!: moded_issue exI [of _ mp])
  qed
qed

lemma voice_mode_runs:
  assumes t: "moded s t" and m: "members t m = Some mp"
  shows "runs (voice_mode E source_p dir m nick t) (\<lambda>u. moded s u \<and>
     (\<exists>mp'. members u = (members t)(m \<mapsto> mp') \<and> (mflags mp' AND MODE_VOICED \<noteq> 0) = dir \<and> chptr mp' = chptr mp \<and>
        mclient mp' = mclient mp \<and> is_opped mp' = is_opped mp))"
proof -
  let ?v = "\<lambda>mp. mp\<lparr>mflags := mflags mp OR MODE_VOICED\<rparr>" and ?d = "\<lambda>mp. mp\<lparr>mflags := mflags mp AND NOT MODE_VOICED\<rparr>"
  have o: "is_opped (?v p) = is_opped p" "is_opped (?d p) = is_opped p" for p
    by (auto simp: is_opped_def and.assoc bit.conj_disj_distrib2)
  have v: "mflags (?v p) AND MODE_VOICED \<noteq> 0" "mflags (?d p) AND MODE_VOICED = 0" for p
    by (auto simp: bit.conj_disj_distrib2 and.assoc)
  show ?thesis
  proof (cases "dir \<longleftrightarrow> mflags mp AND MODE_VOICED \<noteq> 0")
    case same: True
    show ?thesis
    proof (cases dir)
      case True
      then show ?thesis using same m t by (auto simp: voice_mode_def fun_upd_idem intro!: exI [of _ mp])
    next
      case False
      then show ?thesis using same m t by (auto simp: voice_mode_def fun_upd_idem intro!: exI [of _ mp] moded_issue)
    qed
  next
    case diff: False
    show ?thesis
    proof (cases dir)
      case True
      have "moded s (set_member m (?v mp) t)" "upd_member m ?v t = Some (set_member m (?v mp) t)"
        using upd_flags_moded [OF t m, of ?v] o upd_member_eq [OF m, of ?v] by auto
      then show ?thesis using True diff m o v by (auto simp: voice_mode_def Let_def intro!: moded_issue moded_voiced)
    next
      case False
      let ?t = "t\<lparr>voiced_list := find_destroy (lib E) m (voiced_list t)\<rparr>"
      have t': "moded s ?t" "members ?t m = Some mp" using t m by (auto intro: moded_voiced)
      have "moded s (set_member m (?d mp) ?t)" "upd_member m ?d ?t = Some (set_member m (?d mp) ?t)"
        using upd_flags_moded [OF t', of ?d] o upd_member_eq [OF t'(2), of ?d] by auto
      then show ?thesis using False diff m o v by (auto simp: voice_mode_def intro!: moded_issue exI [of _ "?d mp"])
    qed
  qed
qed

lemma member_mode_runs:
  assumes t: "moded s t" and c: "chans s c \<noteq> None"
  shows "runs (member_mode E c source_p p dir nick t) (moded s)"
  unfolding member_mode_def
proof (rule runs_seq)
  show "runs (find_service nick t) (\<lambda>r. \<forall>a. r = Some a \<longrightarrow> a \<in> set (service_list t))"
    by (rule find_service_runs [OF modedD(1) [OF t]]) (use service_listed [OF modedD(1) [OF t]] in auto)
  fix r assume r: "\<forall>a. r = Some a \<longrightarrow> a \<in> set (service_list t)"
  show "runs (case r of None \<Rightarrow> find_user nick True t \<bind> case_option (Some t)
         (\<lambda>target_p. find_chmember c target_p t \<bind> case_option (Some t)
           (\<lambda>m. if p = CHR ''o'' then op_mode E source_p dir m nick t else voice_mode E source_p dir m nick t))
      | Some target_p \<Rightarrow> Some (if source_p \<noteq> None \<or> p \<noteq> CHR ''o'' then t else deop_service (lib E) dir target_p t)) (moded s)"
  proof (cases r)
    case None
    have "runs (find_user nick True t \<bind> case_option (Some t)
         (\<lambda>target_p. find_chmember c target_p t \<bind> case_option (Some t)
           (\<lambda>m. if p = CHR ''o'' then op_mode E source_p dir m nick t else voice_mode E source_p dir m nick t))) (moded s)"
    proof (rule find_user_seq [OF modedD(1) [OF t]])
      fix a u assume a: "get_user a t = Some u"
      have "chans t c \<noteq> None" using moded_chan [OF t c] by auto
      then have "runs (find_chmember c a t) (\<lambda>r. \<forall>m. r = Some m \<longrightarrow> members t m \<noteq> None)"
        by (rule find_chmember_runs [OF modedD(1) [OF t]]) (use a in auto)
      then show "runs (case Some a of None \<Rightarrow> Some t | Some target_p \<Rightarrow> find_chmember c target_p t \<bind> case_option (Some t)
           (\<lambda>m. if p = CHR ''o'' then op_mode E source_p dir m nick t else voice_mode E source_p dir m nick t)) (moded s)"
        unfolding option.case runs_bind
      proof (rule runs_mono)
        fix x assume x: "\<forall>m. x = Some m \<longrightarrow> members t m \<noteq> None"
        show "runs (case x of None \<Rightarrow> Some t | Some m \<Rightarrow> if p = CHR ''o'' then op_mode E source_p dir m nick t
            else voice_mode E source_p dir m nick t) (moded s)"
        proof (cases x)
          case (Some m)
          then obtain mp where "members t m = Some mp" using x by auto
          then show ?thesis using runs_mono [OF op_mode_runs [OF t]] runs_mono [OF voice_mode_runs [OF t]] Some by simp
        qed (use t in simp)
      qed
    qed (use t in simp)
    then show ?thesis using None by simp
  next
    case (Some a)
    then have "moded s (deop_service (lib E) dir a t)"
      using r t ptrs.set_Delete_sub [of a "deopped_list t"] moded_deopped_in [OF t] by (auto simp: deop_service_def find_destroy_def intro!: moded_deopped)
    then show ?thesis using Some t by simp
  qed
qed

lemma ban_mode_runs:
  assumes t: "moded s t" and c: "chans s c \<noteq> None"
  shows "runs (ban_mode (lib E) c p dir m t) (moded s)"
proof -
  obtain ch where "chans t c = Some ch" using moded_chan [OF t c] by blast
  then show ?thesis unfolding ban_mode_def
    by (auto simp: Let_def split: prod.splits option.splits intro!: moded_ban intro: upd_chan_moded [OF t c] runs_mono [OF upd_chan_moded [OF t c]])
qed

lemma full_mode_loop_runs:
  assumes "moded s t" and c: "chans s c \<noteq> None"
  shows "runs (full_mode_loop E c source_p allow_sslonly ps str dir start t) (\<lambda>(d, u). moded s u)"
  using assms(1)
proof (induction str arbitrary: dir start t)
  case (Cons p str)
  note IH = Cons.IH
  have set: "runs (set_mode c f u \<bind> (\<lambda>v. full_mode_loop E c source_p allow_sslonly ps str d n (issue source_p dir l x v))) (\<lambda>(d, u). moded s u)"
    if "moded s u" for f u d n l x
    by (rule runs_seq [OF set_mode_moded [OF that c]]) (intro IH moded_issue)
  have set': "runs (set_mode c f u \<bind> (\<lambda>v. full_mode_loop E c source_p allow_sslonly ps str d n v)) (\<lambda>(d, u). moded s u)"
    if "moded s u" for f u d n
    by (rule runs_seq [OF set_mode_moded [OF that c]]) (intro IH)
  have mem: "runs (member_mode E c source_p p dir x t \<bind> full_mode_loop E c source_p allow_sslonly ps str d n) (\<lambda>(d, u). moded s u)" for d n x
    by (rule runs_seq [OF member_mode_runs [OF Cons.prems c]]) (intro IH)
  have ban: "runs (ban_mode (lib E) c p dir x t \<bind> (\<lambda>v. full_mode_loop E c source_p allow_sslonly ps str d n (issue source_p dir p y v)))
      (\<lambda>(d, u). moded s u)" for d n x y
    by (rule runs_seq [OF ban_mode_runs [OF Cons.prems c]]) (intro IH moded_issue)
  show ?case
    unfolding full_mode_loop.simps Let_def
    by (intro runs_ifI runs_optI set set' mem ban IH moded_issue) (use Cons.prems in simp_all)
qed simp

lemma mb_start_runs:
  assumes "clients t p \<noteq> None" "chans t c \<noteq> None"
  shows "runs (mb_start p c t) (\<lambda>u. quiet u t)"
  using assms by (auto simp: mb_start_def)

text \<open>With no source, or an allocated one, \<open>parse_full_mode\<close> returns.\<close>

lemma parse_full_mode_runs:
  assumes t: "moded s t" and c: "chans s c \<noteq> None" and p: "\<And>p. source_p = Some p \<Longrightarrow> clients t p \<noteq> None"
  shows "runs (parse_full_mode E c source_p ps start allow_sslonly t) (moded s)"
proof -
  have "chans t c \<noteq> None" using moded_chan [OF t c] by auto
  then have "runs (case source_p of None \<Rightarrow> Some t | Some p \<Rightarrow> mb_start p c t) (\<lambda>u. quiet u t)"
    using p mb_start_runs by (cases source_p) auto
  moreover have "runs (full_mode_loop E c source_p allow_sslonly ps (arg ps start) True (Suc start) u)
     (\<lambda>x. (fst x \<and> source_p \<noteq> None \<longrightarrow> moded s (mb_finish (snd x))) \<and> (\<not> (fst x \<and> source_p \<noteq> None) \<longrightarrow> moded s (snd x)))" if "quiet u t" for u
    by (rule runs_mono [OF full_mode_loop_runs [OF moded_quiet [OF t that] c]]) (auto intro: moded_quiet)
  ultimately have "runs ((case source_p of None \<Rightarrow> Some t | Some p \<Rightarrow> mb_start p c t) \<bind>
      full_mode_loop E c source_p allow_sslonly ps (arg ps start) True (Suc start))
     (\<lambda>x. (fst x \<and> source_p \<noteq> None \<longrightarrow> moded s (mb_finish (snd x))) \<and> (\<not> (fst x \<and> source_p \<noteq> None) \<longrightarrow> moded s (snd x)))"
    by (rule runs_seq)
  then show ?thesis
    using t by (auto simp: parse_full_mode_def split_beta simp del: runs_case_option elim!: runs_mono)
qed

end

context env_active
begin

lemma mode_hook_runs:
  assumes t: "moded s t" and c: "chans s c \<noteq> None" and h: "h \<in> set chan_hooks" "h \<noteq> HOOK_CHANNEL_JOIN"
  shows "runs (if b then hook_do E h (ArgChannel c) x t else Some t) (moded s)"
proof -
  obtain ch where "chans t c = Some ch" using moded_chan [OF t c] by blast
  from hook_do_chan [OF h(1) modedD(1) [OF t] this, of x]
  have "runs (hook_do E h (ArgChannel c) x t) (moded s)" by (rule runs_mono) (use h(2) in \<open>auto intro: moded_step [OF t]\<close>)
  then show ?thesis using t by simp
qed

lemma service_client: "net_ok s \<Longrightarrow> a \<in> set (service_list s) \<Longrightarrow> \<exists>cl. clients s a = Some cl"
  by (auto simp: net_ok_def services_ok_def service_chans_def get_service_def bind_eq_Some_conv map_option_case split: option.splits)

lemma reop_loop_runs:
  assumes "moded s t" "chans s c \<noteq> None" "deopped_list t = l" "set l \<subseteq> set (service_list s)" "set m \<subseteq> set (service_list s)"
  shows "runs (foreach (\<lambda>a s. do { s \<leftarrow> rejoin_service E a c True s;
       Some (s\<lparr>deopped_list := dlinkDelete (rb_ptrs (lib E)) a (deopped_list s)\<rparr>) }) m t)
     (\<lambda>u. moded s u \<and> mset (deopped_list u) = mset l - mset m)"
  using assms
proof (induction m arbitrary: t l)
  case (Cons a m)
  have ok: "net_ok t" using modedD(1) [OF Cons.prems(1)] .
  obtain cl ch where a: "clients t a = Some cl" "chans t c = Some ch"
    using service_client [OF ok, of a] Cons.prems modedD(5) [OF Cons.prems(1)] moded_chan [OF Cons.prems(1,2)] by auto
  let ?del = "\<lambda>u. u\<lparr>deopped_list := dlinkDelete (rb_ptrs (lib E)) a (deopped_list u)\<rparr>"
  show ?case
    unfolding foreach.simps bind_assoc
  proof (rule runs_seq [OF rejoin_service_runs [OF a]], unfold bind.bind_lunit)
    fix u assume u: "quiet u t"
    then have d: "deopped_list u = l" "service_list u = service_list s"
      using Cons.prems(3) modedD(5) [OF Cons.prems(1)] by (auto simp: quiet_def)
    have sub: "set (dlinkDelete (rb_ptrs (lib E)) a l) \<subseteq> set (service_list s)" using ptrs.set_Delete_sub [of a l] Cons.prems(4) by blast
    have "moded s (?del u)" by (rule moded_deopped [OF moded_quiet [OF Cons.prems(1) u]]) (use d sub in simp)
    then have "runs (foreach (\<lambda>a s. do { s \<leftarrow> rejoin_service E a c True s;
       Some (s\<lparr>deopped_list := dlinkDelete (rb_ptrs (lib E)) a (deopped_list s)\<rparr>) }) m (?del u))
      (\<lambda>v. moded s v \<and> mset (deopped_list v) = mset (dlinkDelete (rb_ptrs (lib E)) a l) - mset m)"
      by (rule Cons.IH) (use Cons.prems(2,5) d sub in simp_all)
    then show "runs (foreach (\<lambda>a s. do { s \<leftarrow> rejoin_service E a c True s;
       Some (s\<lparr>deopped_list := dlinkDelete (rb_ptrs (lib E)) a (deopped_list s)\<rparr>) }) m (?del u))
      (\<lambda>v. moded s v \<and> mset (deopped_list v) = mset l - mset (a # m))"
      by (simp add: ptrs.mset_Delete)
  qed
qed simp

lemma reop_services_runs:
  assumes t: "moded s t" and c: "chans s c \<noteq> None"
  shows "runs (reop_services E c t) (\<lambda>u. moded s u \<and> deopped_list u = [])"
proof -
  have d: "set (deopped_list t) \<subseteq> set (service_list s)" using moded_deopped_in [OF t] modedD(5) [OF t] by simp
  show ?thesis unfolding reop_services_def using reop_loop_runs [OF t c refl d d] by simp
qed

text \<open>A mode change returns; afterwards the static lists are empty again, every service that was
  deopped has been put back.\<close>

lemma handle_chmode_runs:
  assumes ok: "net_ok s" and c: "chans s c \<noteq> None" and a: "hashed s a"
  shows "runs (handle_chmode E c a ps s) (\<lambda>t. moded s t \<and> deopped_list t = [])"
proof -
  obtain ch where ch: "chans s c = Some ch" using c by blast
  have hooks: "HOOK_CHANNEL_MODE_OP \<in> set chan_hooks" "HOOK_CHANNEL_MODE_OP \<noteq> HOOK_CHANNEL_JOIN"
    "HOOK_CHANNEL_MODE_VOICE \<in> set chan_hooks" "HOOK_CHANNEL_MODE_VOICE \<noteq> HOOK_CHANNEL_JOIN"
    "HOOK_CHANNEL_MODE_SIMPLE \<in> set chan_hooks" "HOOK_CHANNEL_MODE_SIMPLE \<noteq> HOOK_CHANNEL_JOIN"
    "HOOK_CHANNEL_MODE_BAN \<in> set chan_hooks" "HOOK_CHANNEL_MODE_BAN \<noteq> HOOK_CHANNEL_JOIN"
    by (simp_all add: chan_hooks_def)
  note H = mode_hook_runs [OF _ c hooks(1,2)] mode_hook_runs [OF _ c hooks(3,4)] mode_hook_runs [OF _ c hooks(5,6)] mode_hook_runs [OF _ c hooks(7,8)]
  show ?thesis
    unfolding handle_chmode_def ch bind.bind_lunit Let_def
  proof (rule runs_seq [OF parse_full_mode_runs [OF moded_refl [OF ok] c]], simp, rule runs_seq [OF H(1)], assumption, rule runs_seq [OF H(2)], assumption)
    fix t assume t: "moded s t"
    obtain ch' where ch': "chans t c = Some ch'" using moded_chan [OF t c] by blast
    show "runs (chans t c \<bind> (\<lambda>cha. (if mode_changed (cmode ch) (cmode cha) then hook_do E HOOK_CHANNEL_MODE_SIMPLE (ArgChannel c) ArgNull t else Some t) \<bind>
      (\<lambda>s. clients s a \<bind> (\<lambda>cl. (if user cl \<noteq> None \<and> ban_list s \<noteq> [] then hook_do E HOOK_CHANNEL_MODE_BAN (ArgChannel c) (ArgBans (ban_list s)) s else Some s) \<bind>
      (\<lambda>s. reop_services E c (s\<lparr>opped_list := [], voiced_list := [], ban_list := []\<rparr>)))))) (\<lambda>t. moded s t \<and> deopped_list t = [])"
      unfolding ch' bind.bind_lunit
    proof (rule runs_seq [OF H(3)], rule t)
      fix u assume u: "moded s u"
      obtain cl where cl: "clients u a = Some cl" using same_clients_now [OF modedD(3) [OF u] a] by blast
      show "runs (clients u a \<bind> (\<lambda>cl. (if user cl \<noteq> None \<and> ban_list u \<noteq> [] then hook_do E HOOK_CHANNEL_MODE_BAN (ArgChannel c) (ArgBans (ban_list u)) u else Some u) \<bind>
      (\<lambda>s. reop_services E c (s\<lparr>opped_list := [], voiced_list := [], ban_list := []\<rparr>)))) (\<lambda>t. moded s t \<and> deopped_list t = [])"
        unfolding cl bind.bind_lunit
        by (rule runs_seq [OF H(4)], rule u) (intro reop_services_runs [OF _ c] moded_opped moded_voiced moded_ban)
    qed
  qed
qed

end

lemma umode_moded:
  assumes ok: "net_ok s" and u: "get_user a s = Some u"
  shows "runs (upd_user a (\<lambda>u. u\<lparr>umode := f (umode u)\<rparr>) s) (moded s)"
proof -
  let ?u = "u\<lparr>umode := f (umode u)\<rparr>" and ?s = "set_user a (u\<lparr>umode := f (umode u)\<rparr>) s"
  have P: "keys ?s = keys s" "kind ?s = kind s" "parent ?s = parent s" "dead ?s = dead s" "server_lists ?s = server_lists s"
    "user_oper ?s = user_oper s" "user_link ?s = user_link s" "user_chans ?s = user_chans s" "service_chans ?s = service_chans s"
    using set_user_proj [OF u, where u = ?u] user_projs [OF u] by (simp_all add: fun_upd_idem)
  have sc: "same_clients ?s s" using P by (simp add: same_clients_def)
  have D: "chans_ok s" using ok by (simp add: net_ok_alt)
  have "chans_ok ?s" using D chans_ok_cong [of ?s s] P by simp
  then have "net_ok ?s" by (rule net_ok_same_chans [OF ok _ sc]) simp_all
  then show ?thesis using sc by (simp add: upd_user_eq [OF u] moded_def chan_frame_def)
qed

lemma moded_state_ok: "state_ok s \<Longrightarrow> moded s t \<Longrightarrow> state_ok t"
  using modedD(1,3) [of s t] by (auto simp: state_ok_def alive_def same_clients_def)

context env_active
begin

lemma c_mode_runs:
  assumes ok: "net_ok s" and a: "hashed s a"
  shows "runs (c_mode E a ps s) (moded s)"
proof -
  have r: "moded s s" using ok by (rule moded_refl)
  have user: "runs (find_user (arg ps 0) True s \<bind> (\<lambda>r. case r of None \<Rightarrow> Some s | Some t \<Rightarrow> if t \<noteq> a then Some s
      else upd_user t (\<lambda>u. u\<lparr>umode := string_to_umode (arg ps 1) (umode u)\<rparr>) s)) (moded s)"
    by (rule find_user_seq [OF ok]) (use r umode_moded [OF ok, where f = "string_to_umode (arg ps 1)"] in auto)
  have chan: "runs (do { cl \<leftarrow> clients s a;
            msptr \<leftarrow> (if user cl \<noteq> None then find_chmember c a s else Some None);
            deopped \<leftarrow> (case msptr of None \<Rightarrow> Some False | Some m \<Rightarrow> do { mp \<leftarrow> members s m; Some (mflags mp AND MODE_DEOPPED \<noteq> 0) });
            if deopped then Some s else handle_chmode E c a (drop 1 ps) s }) (moded s)" if c: "chans s c \<noteq> None" for c
  proof -
    obtain cl where cl: "clients s a = Some cl" using hashed_client [OF a] by blast
    have "runs (if user cl \<noteq> None then find_chmember c a s else Some None) (\<lambda>r. \<forall>m. r = Some m \<longrightarrow> members s m \<noteq> None)"
    proof (cases "user cl")
      case (Some u)
      then have "get_user a s \<noteq> None" using cl by (simp add: get_user_def)
      then have "runs (find_chmember c a s) (\<lambda>r. \<forall>m. r = Some m \<longrightarrow> members s m \<noteq> None)"
        by (rule find_chmember_runs [OF ok c]) auto
      then show ?thesis using Some by simp
    qed simp
    moreover have "runs (handle_chmode E c a (drop 1 ps) s) (moded s)" by (rule runs_mono [OF handle_chmode_runs [OF ok c a]]) simp
    ultimately show ?thesis using cl r by (auto elim!: runs_mono split: option.splits)
  qed
  have "runs (find_channel (arg ps 0) s) (\<lambda>r. \<forall>c. r = Some c \<longrightarrow> chans s c \<noteq> None)"
    by (rule find_channel_runs [OF ok]) auto
  then have chan': "runs (find_channel (arg ps 0) s \<bind> (\<lambda>r. case r of None \<Rightarrow> Some s | Some c \<Rightarrow> do { cl \<leftarrow> clients s a;
            msptr \<leftarrow> (if user cl \<noteq> None then find_chmember c a s else Some None);
            deopped \<leftarrow> (case msptr of None \<Rightarrow> Some False | Some m \<Rightarrow> do { mp \<leftarrow> members s m; Some (mflags mp AND MODE_DEOPPED \<noteq> 0) });
            if deopped then Some s else handle_chmode E c a (drop 1 ps) s })) (moded s)"
  proof (rule runs_seq)
    fix r assume "\<forall>c. r = Some c \<longrightarrow> chans s c \<noteq> None"
    then show "runs (case r of None \<Rightarrow> Some s | Some c \<Rightarrow> do { cl \<leftarrow> clients s a;
            msptr \<leftarrow> (if user cl \<noteq> None then find_chmember c a s else Some None);
            deopped \<leftarrow> (case msptr of None \<Rightarrow> Some False | Some m \<Rightarrow> do { mp \<leftarrow> members s m; Some (mflags mp AND MODE_DEOPPED \<noteq> 0) });
            if deopped then Some s else handle_chmode E c a (drop 1 ps) s }) (moded s)"
      using chan r by (cases r) (simp_all only: option.case runs_Some, auto)
  qed
  show ?thesis
    unfolding c_mode_def by (intro runs_ifI chan' user; use r in simp)
qed

lemma c_tmode_runs:
  assumes ok: "net_ok s" and a: "hashed s a"
  shows "runs (c_tmode E a ps s) (moded s)"
proof -
  have h: "runs (handle_chmode E c a (drop 2 ps) s) (moded s)" if "chans s c \<noteq> None" for c
    by (rule runs_mono [OF handle_chmode_runs [OF ok that a]]) simp
  have "runs (find_channel (arg ps 1) s \<bind> (\<lambda>r. case r of None \<Rightarrow> Some s
     | Some c \<Rightarrow> do { ch \<leftarrow> chans s c; if atol (arg ps 0) > ch_tsinfo ch then Some s else handle_chmode E c a (drop 2 ps) s })) (moded s)"
  proof (rule runs_seq [OF find_channel_runs [OF ok, where Q = "\<lambda>r. \<forall>c. r = Some c \<longrightarrow> chans s c \<noteq> None"]])
    fix r assume r: "\<forall>c. r = Some c \<longrightarrow> chans s c \<noteq> None"
    show "runs (case r of None \<Rightarrow> Some s
     | Some c \<Rightarrow> do { ch \<leftarrow> chans s c; if atol (arg ps 0) > ch_tsinfo ch then Some s else handle_chmode E c a (drop 2 ps) s }) (moded s)"
      using r h moded_refl [OF ok] by (cases r) (auto split: option.splits)
  qed auto
  then show ?thesis using moded_refl [OF ok] unfolding c_tmode_def by (intro runs_ifI) simp_all
qed

lemma c_bmask_runs:
  assumes ok: "net_ok s" and ps: "4 \<le> length ps"
  shows "runs (c_bmask E a ps s) (moded s)"
proof -
  have r: "moded s s" using ok by (rule moded_refl)
  have u: "runs (upd_chan c (\<lambda>ch. if t = CHR ''b'' then ch\<lparr>bans := f (bans ch)\<rparr> else if t = CHR ''e'' then ch\<lparr>excepts := f (excepts ch)\<rparr>
      else ch\<lparr>invites := f (invites ch)\<rparr>) s) (moded s)" if "chans s c \<noteq> None" for c t f
    by (rule upd_chan_moded [OF r that]) simp
  have "rd (arg ps 2) 0 \<noteq> None" by (simp add: rd_def)
  then obtain t where t: "rd (arg ps 2) 0 = Some t" by blast
  show ?thesis
    unfolding c_bmask_def t bind.bind_lunit Let_def
  proof (intro runs_ifI runs_seq [OF find_channel_runs [OF ok, where Q = "\<lambda>r. \<forall>c. r = Some c \<longrightarrow> chans s c \<noteq> None"]])
    fix x assume x: "\<forall>c. x = Some c \<longrightarrow> chans s c \<noteq> None"
    have "runs (do { ch \<leftarrow> chans s c; if atol (arg ps 0) > ch_tsinfo ch then Some s else if length ps < 3 then None
         else if t \<noteq> CHR ''b'' \<and> t \<noteq> CHR ''e'' \<and> t \<noteq> CHR ''I'' then Some s else if length ps < 4 then None
         else upd_chan c (\<lambda>ch. if t = CHR ''b'' then ch\<lparr>bans := f (bans ch)\<rparr> else if t = CHR ''e'' then ch\<lparr>excepts := f (excepts ch)\<rparr>
           else ch\<lparr>invites := f (invites ch)\<rparr>) s }) (moded s)" if c: "chans s c \<noteq> None" for c f
    proof -
      obtain ch where ch: "chans s c = Some ch" using c by blast
      show ?thesis unfolding ch bind.bind_lunit by (intro runs_ifI u c) (use ps r in simp_all)
    qed
    then show "runs (case x of None \<Rightarrow> Some s | Some c \<Rightarrow> do { ch \<leftarrow> chans s c; if atol (arg ps 0) > ch_tsinfo ch then Some s else if length ps < 3 then None
         else if t \<noteq> CHR ''b'' \<and> t \<noteq> CHR ''e'' \<and> t \<noteq> CHR ''I'' then Some s else if length ps < 4 then None
         else upd_chan c (\<lambda>ch. if t = CHR ''b'' then ch\<lparr>bans := bmask_add (lib E) (filter (\<lambda>m. m \<noteq> []) (sjoin_nicks (arg ps 3))) (bans ch)\<rparr>
           else if t = CHR ''e'' then ch\<lparr>excepts := bmask_add (lib E) (filter (\<lambda>m. m \<noteq> []) (sjoin_nicks (arg ps 3))) (excepts ch)\<rparr>
           else ch\<lparr>invites := bmask_add (lib E) (filter (\<lambda>m. m \<noteq> []) (sjoin_nicks (arg ps 3))) (invites ch)\<rparr>) s }) (moded s)"
      using x r by (intro runs_optI) simp_all
  qed (use ps in auto)
qed

end

subsection \<open>The two parsers of modes\<close>

lemma issue_None [simp]: "issue None dir l para s = s"
  by (simp add: issue_def)

lemma set_mode_set_chan:
  "chans s c = Some ch \<Longrightarrow> set_mode c f s = Some (set_chan c (ch\<lparr>cmode := f (cmode ch)\<rparr>) s)"
  by (simp add: set_mode_def upd_chan_eq)

text \<open>The parameters that the letters consume: keys are valid as they are and limits are positive.\<close>

fun simple_params :: "rblib \<Rightarrow> parv \<Rightarrow> string \<Rightarrow> bool \<Rightarrow> nat \<Rightarrow> bool" where
  "simple_params L ps [] dir i = True"
| "simple_params L ps (p # str) dir i =
     (if p = CHR ''+'' then simple_params L ps str True i
      else if p = CHR ''-'' then simple_params L ps str False i
      else if p = CHR ''k'' then (dir \<longrightarrow> valid_key L (arg ps i) = Some (arg ps i)) \<and> simple_params L ps str dir (Suc i)
      else if p = CHR ''l'' \<and> dir then 0 < atoi (arg ps i) \<and> simple_params L ps str dir (Suc i)
      else simple_params L ps str dir i)"

lemma simple_full_mode:
  assumes "simple_mode_loop (lib E) sslonly ps str dir start (cmode ch) = (Suc n, m')" "simple_params (lib E) ps str dir start" "chans s c = Some ch"
  shows "full_mode_loop E c None sslonly ps str dir start s = Some (True, set_chan c (ch\<lparr>cmode := m'\<rparr>) s)"
  using assms
proof (induction str arbitrary: dir start s ch)
  case Nil
  then have "set_chan c (ch\<lparr>cmode := m'\<rparr>) s = s" by (intro set_chan_same) auto
  then show ?case by simp
next
  case (Cons p str)
  have IH: "full_mode_loop E c None sslonly ps str d k (set_chan c (ch\<lparr>cmode := x\<rparr>) s) = Some (True, set_chan c (ch\<lparr>cmode := m'\<rparr>) s)"
    if "simple_mode_loop (lib E) sslonly ps str d k x = (Suc n, m')" "simple_params (lib E) ps str d k" for d k x
    using Cons.IH [where ch = "ch\<lparr>cmode := x\<rparr>" and s = "set_chan c (ch\<lparr>cmode := x\<rparr>) s"] that by simp
  have IH0: "full_mode_loop E c None sslonly ps str d k s = Some (True, set_chan c (ch\<lparr>cmode := m'\<rparr>) s)"
    if "simple_mode_loop (lib E) sslonly ps str d k (cmode ch) = (Suc n, m')" "simple_params (lib E) ps str d k" for d k
    using Cons.IH [OF that Cons.prems(3)] .
  show ?case
    using Cons.prems(1,2) IH IH0
    by (auto simp: Let_def simple_bit_def set_mode_set_chan [OF Cons.prems(3)] EmptyString_def split: if_splits)
qed

subsection \<open>The properties\<close>

text \<open>
  C5. MODE and TMODE from a known client, and BMASK with its four parameters, never follow a stale or
  null pointer: whatever the mode letters and parameters are, they return, the state is well-formed,
  and the clients, the channels and the members are the ones that were there. The change of a channel's modes behind TMODE and MODE
  leaves no service on the list of the deopped ones.
\<close>

theorem mode_commands_safe:
  assumes "env_active E" and "state_ok s" and "hashed s a"
  shows "(\<exists>s'. c_mode E a ps s = Some s' \<and> state_ok s' \<and> chan_frame s' s) \<and>
    (\<exists>s'. c_tmode E a ps s = Some s' \<and> state_ok s' \<and> chan_frame s' s) \<and>
    (4 \<le> length ps \<longrightarrow> (\<exists>s'. c_bmask E a ps s = Some s' \<and> state_ok s' \<and> chan_frame s' s)) \<and>
    (chans s c \<noteq> None \<longrightarrow> (\<exists>s'. handle_chmode E c a ps s = Some s' \<and> state_ok s' \<and> deopped_list s' = []))"
proof -
  have ok: "net_ok s" by (rule state_okD [OF assms(2)])
  have st: "state_ok t \<and> chan_frame t s" if "moded s t" for t using moded_state_ok [OF assms(2) that] modedD(2) [OF that] by simp
  note R = env_active.c_mode_runs [OF assms(1) ok assms(3), of ps] env_active.c_tmode_runs [OF assms(1) ok assms(3), of ps]
    env_active.c_bmask_runs [OF assms(1) ok, of ps a] env_active.handle_chmode_runs [OF assms(1) ok _ assms(3), of c ps]
  show ?thesis
  proof (intro conjI impI)
    show "\<exists>s'. c_mode E a ps s = Some s' \<and> state_ok s' \<and> chan_frame s' s" using R(1) st by (auto simp: runs_def)
    show "\<exists>s'. c_tmode E a ps s = Some s' \<and> state_ok s' \<and> chan_frame s' s" using R(2) st by (auto simp: runs_def)
    show "\<exists>s'. c_bmask E a ps s = Some s' \<and> state_ok s' \<and> chan_frame s' s" if "4 \<le> length ps" using R(3) [OF that] st by (auto simp: runs_def)
    show "\<exists>s'. handle_chmode E c a ps s = Some s' \<and> state_ok s' \<and> deopped_list s' = []" if "chans s c \<noteq> None"
      using R(4) [OF that] st by (auto simp: runs_def)
  qed
qed

theorem mode_commands_safe_witness:
  "\<exists>s'. c_tmode sample_env 0 [''90'', ''#a'', ''-o+b'', ''chanserv'', ''*!*@*''] sample_net = Some s' \<and> state_ok s'"
  using mode_commands_safe [OF sample_env_ok(1) sample_state_ok, of 0 "[''90'', ''#a'', ''-o+b'', ''chanserv'', ''*!*@*'']" 3]
  by (auto simp: sample_hashed)

text \<open>
  C12. \<open>+o\<close>, \<open>-o\<close>, \<open>+v\<close> and \<open>-v\<close> on a user in the channel: the membership of that user, and no
  other, changes, and it has the status afterwards exactly when the mode was set. The lists of opped
  and unopped users follow, since the state stays well-formed.
\<close>

theorem mode_sets_status:
  assumes "env_ok E" and "net_ok s" and "chans s c = Some ch" and "nick \<noteq> []" and "find_service nick s = Some None"
    and "find_user nick True s = Some (Some u)" and "find_chmember c u s = Some (Some m)" and "members s m = Some mp" and "p \<in> {CHR ''o'', CHR ''v''}"
  shows "\<exists>t mp'. parse_full_mode E c None [[if dir then CHR ''+'' else CHR ''-'', p], nick] 0 True s = Some t \<and>
    net_ok t \<and> chan_frame t s \<and> members t = (members s)(m \<mapsto> mp') \<and>
    (if p = CHR ''o'' then is_opped mp' else mflags mp' AND MODE_VOICED \<noteq> 0) = dir"
proof -
  have r: "moded s s" using assms(2) by (rule moded_refl)
  have run: "parse_full_mode E c None [[if dir then CHR ''+'' else CHR ''-'', p], nick] 0 True s =
      (if p = CHR ''o'' then op_mode E None dir m nick s else voice_mode E None dir m nick s)"
  proof -
    have "full_mode_loop E c None True [[if dir then CHR ''+'' else CHR ''-'', p], nick] [if dir then CHR ''+'' else CHR ''-'', p] True 1 s =
       (do { s \<leftarrow> member_mode E c None p dir nick s; Some (True, s) })"
      using assms(4,9) by (cases dir; cases "p = CHR ''o''"; cases "member_mode E c None p dir nick s") (simp_all add: arg_def Let_def simple_bit_def EmptyString_def)
    moreover have "member_mode E c None p dir nick s = (if p = CHR ''o'' then op_mode E None dir m nick s else voice_mode E None dir m nick s)"
      using assms(5-7) by (simp add: member_mode_def)
    ultimately show ?thesis by (simp add: parse_full_mode_def arg_def bind_assoc)
  qed
  show ?thesis
  proof (cases "p = CHR ''o''")
    case True
    then obtain t mp' where "op_mode E None dir m nick s = Some t" "moded s t" "members t = (members s)(m \<mapsto> mp')" "is_opped mp' = dir"
      using env_ok.op_mode_runs [OF assms(1) r assms(8), of None dir nick] by (auto simp: runs_def)
    then show ?thesis unfolding run using True by (intro exI [of _ t] exI [of _ mp']) (simp add: moded_def)
  next
    case False
    then obtain t mp' where "voice_mode E None dir m nick s = Some t" "moded s t" "members t = (members s)(m \<mapsto> mp')"
        "(mflags mp' AND MODE_VOICED \<noteq> 0) = dir"
      using env_ok.voice_mode_runs [OF assms(1) r assms(8), of None dir nick] by (auto simp: runs_def)
    then show ?thesis unfolding run using False by (intro exI [of _ t] exI [of _ mp']) (simp add: moded_def)
  qed
qed

lemma sample_find_alice: "find_client ''alice'' sample_net = Some (Some 1)"
proof -
  have t: "tables_ok sample_net" using sample_net_ok by blast
  note e = find_client_eq [OF t, of "''alice''"]
  have i: "irccmp ''hub.example.org'' ''alice'' \<noteq> 0" "irccmp ''alice'' ''alice'' = 0" "irccmp ''chanserv'' ''alice'' \<noteq> 0" "\<not> IsDigit CHR ''a''"
    by code_simp+
  have n: "client_name sample_net 0 = ''hub.example.org''" "client_name sample_net 1 = ''alice''" "client_name sample_net 2 = ''chanserv''"
    by (simp_all add: client_name_def sample_proj)
  have "name_table sample_net (hash_name ''alice'') \<in> {[1], [0, 1], [1, 2], [0, 1, 2]}" by (simp add: sample_net_def)
  then have "find (\<lambda>a. irccmp (client_name sample_net a) ''alice'' = 0) (name_table sample_net (hash_name ''alice'')) = Some 1"
    using i n by auto
  then show ?thesis using e i(4) by simp
qed

lemma sample_alice:
  "find_service ''alice'' sample_net = Some None" "find_user ''alice'' True sample_net = Some (Some 1)"
  "find_chmember 3 1 sample_net = Some (Some 4)"
  using sample_find_alice by (simp_all add: find_service_def find_user_def find_chmember_def get_user_def keep_if_def sample_clients_def sample_user_def
      sample_channel_def new_channel_def)

theorem mode_sets_status_witness:
  "\<exists>t. parse_full_mode sample_env 3 None [''-o'', ''alice''] 0 True sample_net = Some t \<and> net_ok t"
proof -
  show ?thesis
    using mode_sets_status [OF sample_env_ok(2) sample_net_ok, of 3 sample_channel "''alice''" 1 4 "\<lparr>chptr = 3, mclient = 1, mflags = MODE_OPPED\<rparr>" "CHR ''o''" False] sample_alice
    by auto
qed

text \<open>
  C29. The two parsers of modes agree: where \<open>parse_simple_mode\<close>, which reads the modes of SJOIN and of
  the configuration, accepts a mode string, \<open>parse_full_mode\<close> with the same parameters gives the
  channel the same modes, key and limit and changes nothing else, provided that the parameters that are set as a key are ones
  that \<open>valid_key\<close> does not alter and those that are set as a limit are positive: the parsers differ on other keys and limits.
\<close>

theorem mode_parsers_agree:
  assumes "parse_simple_mode (lib E) (cmode ch) ps (length ps) start sslonly = (n, m')" and "0 < n" and "chans s c = Some ch"
    and "simple_params (lib E) ps (arg ps start) True (Suc start)"
  shows "parse_full_mode E c None ps start sslonly s = Some (s\<lparr>chans := (chans s)(c \<mapsto> ch\<lparr>cmode := m'\<rparr>)\<rparr>)"
proof -
  have n: "n = Suc (n - 1)" using assms(2) by simp
  have l: "start < length ps" "simple_mode_loop (lib E) sslonly ps (arg ps start) True (Suc start) (cmode ch) = (Suc (n - 1), m')"
    using assms(1,2) n by (auto simp: parse_simple_mode_def split: if_splits)
  show ?thesis using simple_full_mode [OF l(2) assms(4,3)] l(1) by (simp add: parse_full_mode_def set_chan_def)
qed

theorem mode_parsers_agree_witness:
  "parse_full_mode sample_env 3 None [''+nlk-t'', ''42'', ''sesame'', ''@alice''] 0 True sample_net =
    Some (sample_net\<lparr>chans := (chans sample_net)(3 \<mapsto> sample_channel\<lparr>cmode := \<lparr>mode = 0xC4, key = ''sesame'', limit = 42\<rparr>\<rparr>)\<rparr>)"
proof -
  have p: "parse_simple_mode (lib sample_env) (cmode sample_channel) [''+nlk-t'', ''42'', ''sesame'', ''@alice''] (length [''+nlk-t'', ''42'', ''sesame'', ''@alice'']) 0 True =
     (3, \<lparr>mode = 0xC4, key = ''sesame'', limit = 42\<rparr>)"
    by code_simp
  have k: "simple_params (lib sample_env) [''+nlk-t'', ''42'', ''sesame'', ''@alice''] (arg [''+nlk-t'', ''42'', ''sesame'', ''@alice''] 0) True (Suc 0)" by code_simp
  show ?thesis using mode_parsers_agree [OF p _ _ k, of sample_net 3] by simp
qed

text \<open>The lines that put a service back into a channel.\<close>

definition rejoin_lines :: "env \<Rightarrow> client \<Rightarrow> channel \<Rightarrow> net \<Rightarrow> string list" where
  "rejoin_lines E sv ch s =
     (if ratbox (config_file E) then ['':'' @ MYUID E s @ '' MODE '' @ chname ch @ '' +o '' @ SVC_UID sv s]
      else ['':'' @ SVC_UID sv s @ '' PART '' @ chname ch,
        '':'' @ MYUID E s @ '' SJOIN '' @ lu (ch_tsinfo ch) @ '' '' @ chname ch @ '' '' @ chmode_to_string (cmode ch) @ '' :@'' @ SVC_UID sv s])"

text \<open>
  C13. A service that is deopped is put back. A \<open>-o\<close> on a service in the channel, from a user or a server of the network, has one effect:
  the line that ops it again is sent, or, to servers that do not know it, its PART and its SJOIN; the state is otherwise as it was.
\<close>

theorem deopped_service_put_back:
  assumes "env_ok E" and "chans s c = Some ch" and "clients s a = Some src" and "nick \<noteq> []" and "find_service nick s = Some (Some v)"
    and "clients s v = Some sv" and "server_p s = Some conn" and "conn_flags conn AND CONN_DEAD = 0"
    and "opped_list s = []" and "voiced_list s = []" and "ban_list s = []" and "deopped_list s = []"
  shows "handle_chmode E c a [''-o'', nick] s = Some (s\<lparr>sendq := sendq s @ rejoin_lines E sv ch s\<rparr>)"
proof -
  have L: "dlink_ok (rb_ptrs (lib E))" using rblib_ok.ptrs_ok assms(1) by (simp add: env_ok_def)
  have one: "dlinkAdd (rb_ptrs (lib E)) v [] = [v]" using dlink_ok.mset_Add [OF L, of v "[]"] by simp
  have none: "dlinkDelete (rb_ptrs (lib E)) v [v] = []" using dlink_ok.mset_Delete [OF L, of v "[v]"] by simp
  have find: "\<not> dlinkFind (rb_ptrs (lib E)) v []" using dlink_ok.Find_iff [OF L] by simp
  let ?s = "s\<lparr>deopped_list := [v]\<rparr>"
  have m: "member_mode E c None CHR ''o'' False nick s = Some ?s"
    using assms(5,12) one find by (simp add: member_mode_def deop_service_def)
  have "parse_full_mode E c None [''-o'', nick] 0 True s = Some ?s"
    using assms(4) m by (simp add: parse_full_mode_def arg_def Let_def simple_bit_def EmptyString_def)
  moreover have "\<not> mode_changed (cmode ch) (cmode ch)" by (simp add: mode_changed_def strcaseeq_def)
  ultimately have "handle_chmode E c a [''-o'', nick] s = reop_services E c (?s\<lparr>opped_list := [], voiced_list := [], ban_list := []\<rparr>)"
    using assms(2,3,9-11) by (simp add: handle_chmode_def)
  also have "?s\<lparr>opped_list := [], voiced_list := [], ban_list := []\<rparr> = ?s" using assms(9-11) by (cases s) simp
  also have "reop_services E c ?s = Some (s\<lparr>sendq := sendq s @ rejoin_lines E sv ch s\<rparr>)"
    using assms(2,6-8,12) none by (simp add: reop_services_def rejoin_service_def rejoin_lines_def sendto_server_def send_sjoin_def MYUID_def SVC_UID_def ts6_def Let_def)
  finally show ?thesis .
qed

lemma sample_find_chanserv: "find_service ''chanserv'' sample_net = Some (Some 2)"
proof -
  have t: "tables_ok sample_net" using sample_net_ok by blast
  note e = find_client_eq [OF t, of "''chanserv''"]
  have i: "irccmp ''hub.example.org'' ''chanserv'' \<noteq> 0" "irccmp ''chanserv'' ''chanserv'' = 0" "irccmp ''alice'' ''chanserv'' \<noteq> 0" "\<not> IsDigit CHR ''c''"
    by code_simp+
  have n: "client_name sample_net 0 = ''hub.example.org''" "client_name sample_net 1 = ''alice''" "client_name sample_net 2 = ''chanserv''"
    by (simp_all add: client_name_def sample_proj)
  have "name_table sample_net (hash_name ''chanserv'') \<in> {[2], [0, 2], [1, 2], [0, 1, 2]}" by (simp add: sample_net_def)
  then have "find (\<lambda>a. irccmp (client_name sample_net a) ''chanserv'' = 0) (name_table sample_net (hash_name ''chanserv'')) = Some 2"
    using i n by auto
  then show ?thesis using e i(4) by (simp add: find_service_def keep_if_def sample_clients_def)
qed

lemma sample_config [simp]: "config_file sample_env = sample_config"
  by (simp add: sample_env_def jupe_env_def hook_add_def bare_env_def)

theorem deopped_service_put_back_witness:
  "handle_chmode sample_env 3 1 [''-o'', ''chanserv''] sample_net = Some (sample_net\<lparr>sendq := ['':2SV MODE #a +o 2SVAAAAAA'']\<rparr>)"
proof -
  obtain conn where conn: "server_p sample_net = Some conn" "conn_flags conn AND CONN_DEAD = 0" "sid conn = ''1HB''"
    by (simp add: sample_net_def)
  have l: "opped_list sample_net = []" "voiced_list sample_net = []" "ban_list sample_net = []" "deopped_list sample_net = []" "sendq sample_net = []"
    by (simp_all add: sample_net_def empty_net_def)
  obtain al sv where c: "clients sample_net 1 = Some al" "clients sample_net 2 = Some sv" "uid sv = ''2SVAAAAAA''" by (simp add: sample_clients_def)
  have "rejoin_lines sample_env sv sample_channel sample_net = ['':2SV MODE #a +o 2SVAAAAAA'']"
    using conn c by (simp add: rejoin_lines_def sample_config_def MYUID_def SVC_UID_def ts6_def EmptyString_def sample_channel_def new_channel_def)
  then show ?thesis
    using deopped_service_put_back [OF sample_env_ok(2) _ c(1) _ sample_find_chanserv c(2) conn(1,2) l(1-4), of 3] l(5) by simp
qed

end
