(* ===== verification/Service_Dispatch.thy ===== *)
theory Service_Dispatch
  imports Mode_Handlers
begin

section \<open>Service\_Dispatch: commands to the services (src/service.c)\<close>

text \<open>
  A user talks to a service with a message, or with ENCAP RSMSG: \<open>handle_service\<close> limits floods, runs HELP and
  the oper login itself, checks the user's access to the command and calls the function that the service
  registered. The tables of the commands are in the structures of the services. The texts of the languages, the help
  files, the function that watches logins, the password hash of libratbox and the functions of the
  commands are parameters: the record \<open>svc_env\<close>. The locale \<open>svc_ok\<close> says what the dispatch relies on.
\<close>

abbreviation SERVICE_SHORTHELP :: u32 where "SERVICE_SHORTHELP \<equiv> 0x008"
abbreviation SERVICE_STEALTH :: u32 where "SERVICE_STEALTH \<equiv> 0x010"
abbreviation SERVICE_LOGINHELP :: u32 where "SERVICE_LOGINHELP \<equiv> 0x020"
abbreviation SERVICE_SHORTCUT :: u32 where "SERVICE_SHORTCUT \<equiv> 0x080"
abbreviation CONF_OPER_ENCRYPTED :: "64 word" where "CONF_OPER_ENCRYPTED \<equiv> 0x0010"
abbreviation WATCH_AUTH :: u32 where "WATCH_AUTH \<equiv> 0x00002000"
abbreviation US_FLAGS_NEEDUPDATE :: u32 where "US_FLAGS_NEEDUPDATE \<equiv> 0x00010000"

type_synonym svc_func = "addr \<Rightarrow> parv \<Rightarrow> net \<Rightarrow> (int \<times> net) option"

record svc_env =
  senv :: env
  lang_notice :: "string \<Rightarrow> addr \<Rightarrow> string list \<Rightarrow> string"
  crypt_pass :: "string \<Rightarrow> string \<Rightarrow> string"
  help_file :: "addr \<Rightarrow> addr \<Rightarrow> string list option"
  helpadmin_file :: "addr \<Rightarrow> addr \<Rightarrow> string list option"
  cmd_help :: "addr \<Rightarrow> string \<Rightarrow> addr \<Rightarrow> string list option"
  cmd_func :: "addr \<Rightarrow> string \<Rightarrow> svc_func option"
  watch_send :: "u32 \<Rightarrow> addr \<Rightarrow> bool \<Rightarrow> string \<Rightarrow> net \<Rightarrow> net"
  rsdb_exec :: "string \<Rightarrow> string list \<Rightarrow> net \<Rightarrow> net"

subsection \<open>The table of commands\<close>

text \<open>\<open>strcasecmp\<close> and the binary search \<open>bsearch\<close> of the C library.\<close>

definition strcasecmp :: "string \<Rightarrow> string \<Rightarrow> int" where
  "strcasecmp s t = strcmp (map tolower s) (map tolower t)"

definition scmd_compare :: "string \<Rightarrow> service_command \<Rightarrow> int" where
  "scmd_compare nm c = strcasecmp nm (cmd c)"

function bsearch_loop :: "('a \<Rightarrow> int) \<Rightarrow> 'a list \<Rightarrow> nat \<Rightarrow> nat \<Rightarrow> nat option" where
  "bsearch_loop compar base l u =
     (if l < u then
        let idx = (l + u) div 2; c = compar (base ! idx) in
        if c < 0 then bsearch_loop compar base l idx
        else if c > 0 then bsearch_loop compar base (Suc idx) u
        else Some idx
      else None)"
  by pat_completeness auto
termination
  by (relation "measure (\<lambda>(compar, base, l, u). u - l)") auto

declare bsearch_loop.simps [simp del]

definition bsearch :: "('a \<Rightarrow> int) \<Rightarrow> 'a list \<Rightarrow> nat option" where
  "bsearch compar base = bsearch_loop compar base 0 (length base)"

text \<open>
  The tables are sorted when a service is added, and again when one is merged into another. The
  standard fixes of \<open>qsort\<close> only that its result is sorted; for distinct names that is one list.
\<close>

definition scmd_sort :: "service_command \<Rightarrow> service_command \<Rightarrow> int" where
  "scmd_sort one two = strcasecmp (cmd one) (cmd two)"

fun qsort_insert :: "('a \<Rightarrow> 'a \<Rightarrow> int) \<Rightarrow> 'a \<Rightarrow> 'a list \<Rightarrow> 'a list" where
  "qsort_insert compar x [] = [x]"
| "qsort_insert compar x (y # ys) = (if compar x y \<le> 0 then x # y # ys else y # qsort_insert compar x ys)"

definition qsort :: "('a \<Rightarrow> 'a \<Rightarrow> int) \<Rightarrow> 'a list \<Rightarrow> 'a list" where
  "qsort compar base = foldr (qsort_insert compar) base []"

definition merge_commands :: "service_command list \<Rightarrow> service_command list \<Rightarrow> service_command list" where
  "merge_commands cmds handler_cmds = qsort scmd_sort (cmds @ handler_cmds)"

subsection \<open>Replies and counters\<close>

definition service_error :: "svc_env \<Rightarrow> addr \<Rightarrow> addr \<Rightarrow> string \<Rightarrow> net \<Rightarrow> net option" where
  "service_error V service_p client_p text s = do {
     sc \<leftarrow> clients s service_p;
     sv \<leftarrow> service sc;
     cl \<leftarrow> clients s client_p;
     Some (sendto_server ['':'', if svc_flags sv AND SERVICE_MSGSELF \<noteq> 0 then SVC_UID sc s else MYUID (senv V) s,
       '' NOTICE '', UID cl, '' :'', take (BUFSIZE - 1) text] s)
   }"

definition service_err :: "svc_env \<Rightarrow> addr \<Rightarrow> addr \<Rightarrow> string \<Rightarrow> string list \<Rightarrow> net \<Rightarrow> net option" where
  "service_err V service_p client_p msgid args s = service_error V service_p client_p (lang_notice V msgid client_p args) s"

definition find_ignore :: "user \<Rightarrow> net \<Rightarrow> bool" where
  "find_ignore u s \<longleftrightarrow> list_ex (\<lambda>m. match m (usermask u)) (ignore_list s)"

definition user_flood :: "addr \<Rightarrow> int \<Rightarrow> net \<Rightarrow> net option" where
  "user_flood client_p n s = upd_user client_p (\<lambda>u. u\<lparr>flood_count := flood_count u + word_of_int n\<rparr>) s"

definition service_flood :: "addr \<Rightarrow> int \<Rightarrow> net \<Rightarrow> net option" where
  "service_flood service_p n s = upd_service service_p (\<lambda>sv. sv\<lparr>flood := flood sv + n\<rparr>) s"

definition charge :: "addr \<Rightarrow> addr \<Rightarrow> int \<Rightarrow> net \<Rightarrow> net option" where
  "charge service_p client_p n s = do { s \<leftarrow> user_flood client_p n s; service_flood service_p n s }"

definition update_service_floodcount :: "net \<Rightarrow> net option" where
  "update_service_floodcount s =
     foreach (\<lambda>a. upd_service a (\<lambda>sv. sv\<lparr>flood := (if flood sv - flood_grace sv < 0 then 0 else flood sv - flood_grace sv)\<rparr>)) (service_list s) s"

definition user_is_oper :: "user \<Rightarrow> bool" where
  "user_is_oper u \<longleftrightarrow> umode u AND CLIENT_OPER \<noteq> 0"

text \<open>The flags of the block that a user is logged in with.\<close>

definition oper_has :: "(conf_oper \<Rightarrow> 64 word) \<Rightarrow> 64 word \<Rightarrow> user \<Rightarrow> net \<Rightarrow> bool option" where
  "oper_has fl need u s = (case oper u of None \<Rightarrow> Some False | Some p \<Rightarrow> do { co \<leftarrow> conf_opers s p; Some (fl co AND need \<noteq> 0) })"

definition no_access :: "(conf_oper \<Rightarrow> 64 word) \<Rightarrow> service_command \<Rightarrow> user \<Rightarrow> net \<Rightarrow> bool option" where
  "no_access fl c u s =
     (if operonly c \<and> \<not> user_is_oper u then Some True
      else if operflags c \<noteq> 0 then do { b \<leftarrow> oper_has fl (operflags c) u s; Some (\<not> b) }
      else Some False)"

subsection \<open>Help\<close>

definition send_texts :: "svc_env \<Rightarrow> addr \<Rightarrow> addr \<Rightarrow> string list \<Rightarrow> net \<Rightarrow> net option" where
  "send_texts V service_p client_p ls = foreach (service_error V service_p client_p) ls"

fun visible_cmds :: "service_command list \<Rightarrow> user \<Rightarrow> net \<Rightarrow> string option" where
  "visible_cmds [] u s = Some []"
| "visible_cmds (c # cs) u s = do {
     b \<leftarrow> no_access op_flags c u s;
     r \<leftarrow> visible_cmds cs u s;
     Some (if b then r else cmd c @ '' '' @ r)
   }"

definition handle_service_help_index :: "svc_env \<Rightarrow> addr \<Rightarrow> addr \<Rightarrow> net \<Rightarrow> net option" where
  "handle_service_help_index V service_p client_p s = do {
     sc \<leftarrow> clients s service_p;
     sv \<leftarrow> service sc;
     u \<leftarrow> get_user client_p s;
     if svc_flags sv AND SERVICE_SHORTHELP \<noteq> 0 \<or>
        help_file V service_p client_p = None \<and> (oper u = None \<or> helpadmin_file V service_p client_p = None)
     then do {
       cmds \<leftarrow> command sv;
       buf \<leftarrow> visible_cmds cmds u s;
       let buf = take (BUFSIZE - 1) buf;
       s \<leftarrow> (if buf \<noteq> []
             then do { s \<leftarrow> service_err V service_p client_p ''SVC_HELP_INDEXINFO'' [name sc] s; service_err V service_p client_p ''SVC_HELP_TOPICS'' [buf] s }
             else service_err V service_p client_p ''SVC_HELP_UNAVAILABLE'' [] s);
       upd_service service_p (\<lambda>sv. sv\<lparr>help_count := Suc (help_count sv)\<rparr>) s
     }
     else do {
       s \<leftarrow> service_flood service_p 1 s;
       s \<leftarrow> (case help_file V service_p client_p of None \<Rightarrow> Some s | Some ls \<Rightarrow> send_texts V service_p client_p ls s);
       (case helpadmin_file V service_p client_p of
          Some ls \<Rightarrow> if oper u \<noteq> None
            then do { s \<leftarrow> service_err V service_p client_p ''SVC_HELP_INDEXADMIN'' [] s; send_texts V service_p client_p ls s }
            else Some s
        | None \<Rightarrow> Some s)
     }
   }"

definition handle_service_help :: "svc_env \<Rightarrow> addr \<Rightarrow> addr \<Rightarrow> string \<Rightarrow> net \<Rightarrow> net option" where
  "handle_service_help V service_p client_p topic_name s = do {
     sv \<leftarrow> get_service service_p s;
     u \<leftarrow> get_user client_p s;
     cmds \<leftarrow> command sv;
     case bsearch (scmd_compare topic_name) cmds of
       None \<Rightarrow> service_err V service_p client_p ''SVC_HELP_UNAVAILABLETOPIC'' [topic_name] s
     | Some i \<Rightarrow>
         let entry = cmds ! i in
         (case (if helpfile entry then cmd_help V service_p (cmd entry) client_p else None) of
            None \<Rightarrow> service_err V service_p client_p ''SVC_HELP_UNAVAILABLETOPIC'' [topic_name] s
          | Some ls \<Rightarrow>
              if operonly entry \<and> \<not> user_is_oper u
              then service_err V service_p client_p ''SVC_HELP_UNAVAILABLETOPIC'' [topic_name] s
              else do {
                s \<leftarrow> send_texts V service_p client_p ls s;
                upd_service service_p (\<lambda>sv. sv\<lparr>flood := flood sv + help_penalty entry, ehelp_count := Suc (ehelp_count sv)\<rparr>) s
              })
   }"

subsection \<open>The dispatch\<close>

text \<open>Ignored and flooding users. The result says whether the command stops here.\<close>

definition svc_ignored :: "user \<Rightarrow> string \<Rightarrow> net \<Rightarrow> bool option" where
  "svc_ignored u cmdname s =
     (if \<not> find_ignore u s then Some False
      else if strcasecmp cmdname ''OLOGIN'' \<noteq> 0 then Some True
      else do { r \<leftarrow> find_conf_oper (username u) (host u) (servername u) [] s; Some (r = None) })"

definition flood_limit :: "svc_env \<Rightarrow> addr \<Rightarrow> addr \<Rightarrow> string \<Rightarrow> net \<Rightarrow> (bool \<times> net) option" where
  "flood_limit V service_p client_p cmdname s = do {
     u \<leftarrow> get_user client_p s;
     let cf = config_file (senv V);
     if oper u \<noteq> None then Some (False, s)
     else do {
       ign \<leftarrow> svc_ignored u cmdname s;
       if ign then Some (True, s)
       else do {
         s \<leftarrow> (if flood_time u + client_flood_time cf < now s
               then upd_user client_p (\<lambda>u. u\<lparr>flood_time := now s, flood_count := 0\<rparr>) s else Some s);
         u \<leftarrow> get_user client_p s;
         sv \<leftarrow> get_service service_p s;
         if flood_count u > client_flood_max_ignore cf then do {
           s \<leftarrow> user_flood client_p 1 s;
           s \<leftarrow> upd_service service_p (\<lambda>sv. sv\<lparr>ignored_count := Suc (ignored_count sv)\<rparr>) s;
           Some (True, s)
         }
         else if flood_max sv \<noteq> 0 \<and> flood sv > flood_max sv \<or> flood_count u > client_flood_max cf then do {
           s \<leftarrow> service_err V service_p client_p ''SVC_RATELIMITEDGENERIC'' [] s;
           s \<leftarrow> user_flood client_p 1 s;
           s \<leftarrow> upd_service service_p (\<lambda>sv. sv\<lparr>paced_count := Suc (paced_count sv)\<rparr>) s;
           Some (True, s)
         }
         else Some (False, s)
       }
     }
   }"

definition refuse :: "svc_env \<Rightarrow> addr \<Rightarrow> addr \<Rightarrow> string \<Rightarrow> string list \<Rightarrow> net \<Rightarrow> net option" where
  "refuse V service_p client_p msgid args s = do { s \<leftarrow> service_err V service_p client_p msgid args s; charge service_p client_p 1 s }"

definition svc_notice :: "svc_env \<Rightarrow> addr \<Rightarrow> string list \<Rightarrow> net \<Rightarrow> net option" where
  "svc_notice V client_p text s = do {
     cl \<leftarrow> clients s client_p;
     Some (sendto_server (['':'', MYUID (senv V) s, '' NOTICE '', UID cl, '' :''] @ text) s)
   }"

definition svc_help :: "svc_env \<Rightarrow> addr \<Rightarrow> addr \<Rightarrow> parv \<Rightarrow> net \<Rightarrow> net option" where
  "svc_help V service_p client_p ps s = do {
     sc \<leftarrow> clients s service_p;
     sv \<leftarrow> service sc;
     u \<leftarrow> get_user client_p s;
     if svc_flags sv AND SERVICE_LOGINHELP \<noteq> 0 \<and> user_reg u = None \<and> oper u = None \<and> \<not> user_is_oper u
     then service_err V service_p client_p ''SVC_NOTLOGGEDIN'' [name sc, ''HELP''] s
     else do {
       s \<leftarrow> charge service_p client_p 2 s;
       if length ps < 1 \<or> EmptyString (arg ps 0) then handle_service_help_index V service_p client_p s
       else handle_service_help V service_p client_p (arg ps 0) s
     }
   }"

definition svc_ologin :: "svc_env \<Rightarrow> addr \<Rightarrow> addr \<Rightarrow> parv \<Rightarrow> net \<Rightarrow> net option" where
  "svc_ologin V service_p client_p ps s = do {
     u \<leftarrow> get_user client_p s;
     sc \<leftarrow> clients s service_p;
     if oper u \<noteq> None then svc_notice V client_p [''You are already logged in as an oper''] s
     else if length ps < 2 then do {
       s \<leftarrow> svc_notice V client_p [''Insufficient parameters to '', name sc, ''::OLOGIN''] s;
       user_flood client_p 1 s
     }
     else do {
       r \<leftarrow> find_conf_oper (username u) (host u) (servername u) (arg ps 0) s;
       case r of
         None \<Rightarrow> do {
           s \<leftarrow> svc_notice V client_p [''No access to '', ucase (name sc), ''::OLOGIN''] s;
           user_flood client_p 1 s
         }
       | Some p \<Rightarrow> do {
           co \<leftarrow> conf_opers s p;
           let crpass = (if op_flags co AND CONF_OPER_ENCRYPTED \<noteq> 0 then crypt_pass V (arg ps 1) (op_pass co) else arg ps 1);
           if strcmp crpass (op_pass co) \<noteq> 0 then svc_notice V client_p [''Invalid password''] s
           else do {
             s \<leftarrow> svc_notice V client_p [''Oper login successful''] s;
             s \<leftarrow> upd_user client_p (\<lambda>u. u\<lparr>oper := Some p\<rparr>) s;
             let s = s\<lparr>conf_opers := (conf_opers s)(p \<mapsto> co\<lparr>refcount := refcount co + 1\<rparr>),
               oper_list := dlinkAdd (rb_ptrs (lib (senv V))) client_p (oper_list s)\<rparr>;
             Some (watch_send V WATCH_AUTH client_p True ''has logged in (irc)'' s)
           }
         }
     }
   }"

definition svc_ologout :: "svc_env \<Rightarrow> addr \<Rightarrow> net \<Rightarrow> net option" where
  "svc_ologout V client_p s = do {
     u \<leftarrow> get_user client_p s;
     case oper u of
       None \<Rightarrow> do { s \<leftarrow> svc_notice V client_p [''You are not logged in as an oper''] s; user_flood client_p 1 s }
     | Some p \<Rightarrow> do {
         let s = watch_send V WATCH_AUTH client_p True ''has logged out (irc)'' s;
         s \<leftarrow> deallocate_conf_oper p s;
         s \<leftarrow> upd_user client_p (\<lambda>u. u\<lparr>oper := None\<rparr>) s;
         let s = s\<lparr>oper_list := find_destroy (lib (senv V)) client_p (oper_list s)\<rparr>;
         svc_notice V client_p [''Oper logout successful''] s
       }
   }"

text \<open>A registered command: the check of the access, of the login and of the parameters, then its function.\<close>

definition run_command :: "svc_env \<Rightarrow> addr \<Rightarrow> addr \<Rightarrow> service_command list \<Rightarrow> nat \<Rightarrow> parv \<Rightarrow> net \<Rightarrow> net option" where
  "run_command V service_p client_p cmds i ps s = do {
     let entry = cmds ! i;
     s \<leftarrow> upd_service service_p (\<lambda>sv. sv\<lparr>command := Some (cmds[i := entry\<lparr>cmd_use := Suc (cmd_use entry)\<rparr>])\<rparr>) s;
     (retval, s) \<leftarrow> (case cmd_func V service_p (cmd entry) of None \<Rightarrow> Some (0, s) | Some f \<Rightarrow> f client_p ps s);
     charge service_p client_p retval s
   }"

definition svc_command :: "svc_env \<Rightarrow> addr \<Rightarrow> addr \<Rightarrow> service_command list \<Rightarrow> nat \<Rightarrow> parv \<Rightarrow> net \<Rightarrow> net option" where
  "svc_command V service_p client_p cmds i ps s = do {
     let entry = cmds ! i;
     sc \<leftarrow> clients s service_p;
     u \<leftarrow> get_user client_p s;
     no \<leftarrow> no_access op_sflags entry u s;
     if no then refuse V service_p client_p ''SVC_NOACCESS'' [name sc, cmd entry] s
     else if userreg entry \<and> user_reg u = None then refuse V service_p client_p ''SVC_NOTLOGGEDIN'' [name sc, cmd entry] s
     else do {
       s \<leftarrow> (case (if userreg entry then user_reg u else None) of
               None \<Rightarrow> Some s
             | Some r \<Rightarrow> do { rg \<leftarrow> user_regs s r;
                 Some (s\<lparr>user_regs := (user_regs s)(r \<mapsto> rg\<lparr>last_time := now s, reg_flags := reg_flags rg OR US_FLAGS_NEEDUPDATE\<rparr>)\<rparr>) });
       if length ps < minparc entry then refuse V service_p client_p ''SVC_NEEDMOREPARAMS'' [name sc, cmd entry] s
       else run_command V service_p client_p cmds i ps s
     }
   }"

definition stealthy :: "service \<Rightarrow> user \<Rightarrow> bool" where
  "stealthy sv u \<longleftrightarrow> svc_flags sv AND SERVICE_STEALTH \<noteq> 0 \<and> oper u = None \<and> \<not> user_is_oper u"

definition handle_service :: "svc_env \<Rightarrow> addr \<Rightarrow> addr \<Rightarrow> string \<Rightarrow> parv \<Rightarrow> bool \<Rightarrow> net \<Rightarrow> net option" where
  "handle_service V service_p client_p cmdname ps msg s = do {
     sc \<leftarrow> clients s service_p;
     sv \<leftarrow> service sc;
     case command sv of
       None \<Rightarrow> Some s
     | Some cmds \<Rightarrow> do {
         (stop, s) \<leftarrow> flood_limit V service_p client_p cmdname s;
         u \<leftarrow> get_user client_p s;
         if stop then Some s
         else if msg \<and> svc_flags sv AND SERVICE_SHORTCUT \<noteq> 0 then
           (if stealthy sv u then Some s
            else do { s \<leftarrow> charge service_p client_p 1 s; service_err V service_p client_p ''SVC_USECOMMANDSHORTCUT'' [name sc] s })
         else if strcasecmp cmdname ''HELP'' = 0 then
           (if stealthy sv u then Some s else svc_help V service_p client_p ps s)
         else if strcasecmp cmdname ''OPERLOGIN'' = 0 \<or> strcasecmp cmdname ''OLOGIN'' = 0 then svc_ologin V service_p client_p ps s
         else if strcasecmp cmdname ''OPERLOGOUT'' = 0 \<or> strcasecmp cmdname ''OLOGOUT'' = 0 then svc_ologout V client_p s
         else if stealthy sv u then Some s
         else case bsearch (scmd_compare cmdname) cmds of
           Some i \<Rightarrow> svc_command V service_p client_p cmds i ps s
         | None \<Rightarrow> refuse V service_p client_p ''SVC_UNKNOWNCOMMAND'' [name sc, cmdname] s
       }
   }"

text \<open>\<open>string_to_array\<close> is \<open>rb_string_to_array\<close> of libratbox, which splits the text after the command at spaces.\<close>

definition handle_service_msg :: "svc_env \<Rightarrow> (string \<Rightarrow> parv) \<Rightarrow> addr \<Rightarrow> addr \<Rightarrow> string \<Rightarrow> net \<Rightarrow> net option" where
  "handle_service_msg V string_to_array service_p client_p text s = do {
     cl \<leftarrow> clients s client_p;
     if user cl = None then Some s
     else case strchr_split CHR '' '' text of
       None \<Rightarrow> handle_service V service_p client_p text [] True s
     | Some (c, rest) \<Rightarrow> handle_service V service_p client_p c (string_to_array rest) True s
   }"

subsection \<open>Finding a command\<close>

lemma of_char_int_0 [simp]: "(of_char c :: int) = 0 \<longleftrightarrow> c = NUL"
  using of_char_eq_iff [of c NUL, where 'a = int] by simp

lemma of_char_int_pos [simp]: "(0 :: int) < of_char c \<longleftrightarrow> c \<noteq> NUL" "(of_char c :: int) \<le> 0 \<longleftrightarrow> c = NUL" "\<not> (of_char c :: int) < 0"
proof -
  have "(0 :: int) \<le> of_char c" by (metis of_nat_0_le_iff of_nat_of_char)
  then show "(0 :: int) < of_char c \<longleftrightarrow> c \<noteq> NUL" "(of_char c :: int) \<le> 0 \<longleftrightarrow> c = NUL" "\<not> (of_char c :: int) < 0" using of_char_int_0 [of c] by linarith+
qed

lemma of_char_int_less: "(of_char c :: int) \<le> of_char d \<Longrightarrow> c \<noteq> d \<Longrightarrow> (of_char c :: int) < of_char d"
  using of_char_eq_iff [of c d, where 'a = int] by (simp add: less_le)

lemma strcmp_0: "cstring s \<Longrightarrow> cstring t \<Longrightarrow> strcmp s t = 0 \<longleftrightarrow> s = t"
  by (induction s t rule: strcmp.induct) (auto simp: cstring_def)

lemma strcmp_trans:
  "cstring r \<Longrightarrow> cstring s \<Longrightarrow> cstring t \<Longrightarrow> strcmp r s \<le> 0 \<Longrightarrow> strcmp s t < 0 \<Longrightarrow> strcmp r t < 0"
proof (induction s t arbitrary: r rule: strcmp.induct)
  case (2 d t)
  then show ?case by (cases r) (auto simp: cstring_def)
next
  case (4 c s d t)
  then show ?case by (cases r) (auto simp: cstring_def of_char_int_less split: if_splits)
qed (auto simp: cstring_def)

lemma tolower_NUL: "tolower c = NUL \<longleftrightarrow> c = NUL"
proof -
  have "of_char (char_of (of_char c + 32 :: nat)) = (of_char c + 32 :: nat)" if "of_char c \<le> (90 :: nat)" using that by simp
  then have "of_char c \<le> (90 :: nat) \<Longrightarrow> char_of (of_char c + 32 :: nat) \<noteq> NUL"
    by (metis add_is_0 of_char_eq_0 zero_neq_numeral)
  then show ?thesis by (auto simp: tolower_def)
qed

lemma cstring_tolower [simp]: "cstring (map tolower s) \<longleftrightarrow> cstring s"
proof (induction s)
  case (Cons c s)
  then show ?case using tolower_NUL [of c] by (auto simp: cstring_def)
qed (simp add: cstring_def)

lemma strcasecmp_0: "cstring s \<Longrightarrow> cstring t \<Longrightarrow> strcasecmp s t = 0 \<longleftrightarrow> strcaseeq s t"
  by (simp add: strcasecmp_def strcaseeq_def strcmp_0)

text \<open>The comparison has to be antitone along the array: once it is not positive it is negative from there on.\<close>

definition antitone :: "('a \<Rightarrow> int) \<Rightarrow> 'a list \<Rightarrow> bool" where
  "antitone compar base \<longleftrightarrow> (\<forall>j<length base. \<forall>i<j. compar (base ! i) \<le> 0 \<longrightarrow> compar (base ! j) < 0)"

lemma bsearch_loop_hit:
  "bsearch_loop compar base l u = Some i \<Longrightarrow> l \<le> i \<and> i < u \<and> compar (base ! i) = 0"
proof (induction compar base l u rule: bsearch_loop.induct)
  case (1 compar base l u)
  then show ?case by (subst (asm) bsearch_loop.simps) (fastforce simp: Let_def split: if_splits)
qed

lemma bsearch_loop_miss:
  assumes "antitone compar base" "u \<le> length base" "bsearch_loop compar base l u = None" "l \<le> i" "i < u"
  shows "compar (base ! i) \<noteq> 0"
  using assms
proof (induction compar base l u rule: bsearch_loop.induct)
  case (1 compar base l u)
  let ?m = "(l + u) div 2"
  have lu: "l < u" "l \<le> ?m" "?m < u" using 1(6,7) by auto
  have mono: "compar (base ! i) \<le> 0 \<Longrightarrow> compar (base ! j) < 0" if "i < j" "j < length base" for i j
    using 1(3) that by (auto simp: antitone_def)
  consider "compar (base ! ?m) < 0" "bsearch_loop compar base l ?m = None" | "compar (base ! ?m) > 0" "bsearch_loop compar base (Suc ?m) u = None"
    using 1(5) lu(1) by (subst (asm) bsearch_loop.simps) (auto simp: Let_def split: if_splits)
  then show ?case
  proof cases
    case a: 1
    show ?thesis
    proof (cases "i < ?m")
      case True
      then show ?thesis using 1(1) [OF lu(1) refl refl a(1) 1(3) _ a(2)] 1(4,6) lu by simp
    next
      case False
      then show ?thesis using a(1) mono [of ?m i] 1(4,7) by (cases "i = ?m") auto
    qed
  next
    case a: 2
    show ?thesis
    proof (cases "?m < i")
      case True
      then show ?thesis using 1(2) [OF lu(1) refl refl _ a(1) 1(3,4) a(2)] 1(7) a(1) by simp
    next
      case False
      then show ?thesis using a(1) mono [of i ?m] 1(4) lu by (cases "i = ?m") force+
    qed
  qed
qed

lemma bsearch_hit: "bsearch compar base = Some i \<Longrightarrow> i < length base \<and> compar (base ! i) = 0"
  using bsearch_loop_hit [of compar base 0 "length base" i] by (simp add: bsearch_def)

definition sorted_cmds :: "service_command list \<Rightarrow> bool" where
  "sorted_cmds cmds \<longleftrightarrow> sorted_wrt (\<lambda>a b. strcasecmp (cmd a) (cmd b) < 0) cmds \<and> list_all (\<lambda>c. cstring (cmd c)) cmds"

lemma sorted_antitone:
  assumes "sorted_cmds cmds" "cstring nm"
  shows "antitone (scmd_compare nm) cmds"
  unfolding antitone_def
proof (intro allI impI)
  fix i j assume h: "j < length cmds" "i < j" "scmd_compare nm (cmds ! i) \<le> 0"
  then have "strcasecmp (cmd (cmds ! i)) (cmd (cmds ! j)) < 0" "cstring (cmd (cmds ! i))" "cstring (cmd (cmds ! j))"
    using assms(1) by (auto simp: sorted_cmds_def sorted_wrt_iff_nth_less list_all_length)
  then show "scmd_compare nm (cmds ! j) < 0"
    using h(3) assms(2) strcmp_trans [of "map tolower nm" "map tolower (cmd (cmds ! i))" "map tolower (cmd (cmds ! j))"]
    by (simp add: scmd_compare_def strcasecmp_def)
qed

lemma bsearch_commands:
  assumes "sorted_cmds cmds" "cstring nm"
  shows "bsearch (scmd_compare nm) cmds = Some i \<longleftrightarrow> i < length cmds \<and> strcaseeq nm (cmd (cmds ! i))"
proof -
  have anti: "antitone (scmd_compare nm) cmds" by (rule sorted_antitone [OF assms])
  have eq: "scmd_compare nm (cmds ! j) = 0 \<longleftrightarrow> strcaseeq nm (cmd (cmds ! j))" if "j < length cmds" for j
    using assms that by (simp add: scmd_compare_def strcasecmp_0 sorted_cmds_def list_all_length)
  show ?thesis
  proof
    assume "bsearch (scmd_compare nm) cmds = Some i"
    from bsearch_hit [OF this] eq show "i < length cmds \<and> strcaseeq nm (cmd (cmds ! i))" by blast
  next
    assume i: "i < length cmds \<and> strcaseeq nm (cmd (cmds ! i))"
    then have z: "scmd_compare nm (cmds ! i) = 0" using eq by blast
    show "bsearch (scmd_compare nm) cmds = Some i"
    proof (cases "bsearch (scmd_compare nm) cmds")
      case None
      then show ?thesis using bsearch_loop_miss [OF anti le_refl, of 0 i] z i by (simp add: bsearch_def)
    next
      case (Some j)
      then have j: "j < length cmds" "scmd_compare nm (cmds ! j) = 0" using bsearch_hit by blast+
      have "\<not> i < j" "\<not> j < i" using anti z j i by (fastforce simp: antitone_def)+
      then show ?thesis using Some by simp
    qed
  qed
qed

subsection \<open>What the dispatch keeps\<close>

lemma state_ok_upd_user:
  assumes ok: "state_ok s" and u: "get_user a s = Some u" and f: "channels (f u) = channels u" "oper (f u) = oper u" "user_reg (f u) = user_reg u"
  shows "state_ok (set_user a (f u) s)" "same_clients (set_user a (f u) s) s"
proof -
  let ?s = "set_user a (f u) s"
  have P: "keys ?s = keys s" "kind ?s = kind s" "parent ?s = parent s" "dead ?s = dead s" "server_lists ?s = server_lists s"
    "user_oper ?s = user_oper s" "user_link ?s = user_link s" "user_chans ?s = user_chans s" "service_chans ?s = service_chans s"
    using set_user_proj [OF u, where u = "f u"] user_projs [OF u] f by (simp_all add: fun_upd_idem)
  show sc: "same_clients ?s s" using P by (simp add: same_clients_def)
  have n: "net_ok s" by (rule state_okD [OF ok])
  then have D: "chans_ok s" by (simp add: net_ok_alt)
  have "chans_ok ?s" using D chans_ok_cong [of ?s s] P by simp
  then have "net_ok ?s" by (rule net_ok_same_chans [OF n _ sc]) simp_all
  then show "state_ok ?s" using ok P by (simp add: state_ok_def alive_def)
qed

text \<open>The user and the service stay, and the table of its commands satisfies \<open>G\<close>: the state \<open>t\<close> after some steps of the dispatch.\<close>

definition served :: "(service_command list option \<Rightarrow> bool) \<Rightarrow> addr \<Rightarrow> addr \<Rightarrow> addr list \<Rightarrow> net \<Rightarrow> bool" where
  "served G v a us t \<longleftrightarrow> state_ok t \<and> get_user a t \<noteq> None \<and> (\<exists>sv. get_service v t = Some sv \<and> G (command sv)) \<and> user_list t = us"

lemma servedE:
  assumes "served G v a us t"
  obtains u cl sv sc where "state_ok t" "get_user a t = Some u" "clients t a = Some cl" "user cl = Some u"
    "get_service v t = Some sv" "clients t v = Some sc" "service sc = Some sv" "user_list t = us" "G (command sv)"
  using assms by (auto simp: served_def get_user_def get_service_def bind_eq_Some_conv)

lemma served_quiet: "served G v a us t \<Longrightarrow> quiet u t \<Longrightarrow> served G v a us u"
  using quiet_net_ok [of u t] quiet_same_clients [of u t] quiet_fields(1) [of u t]
  by (auto simp: served_def state_ok_def alive_def same_clients_def get_user_def get_service_def)

lemma served_send: "served G v a us t \<Longrightarrow> served G v a us (sendto_server ps t)"
  by (erule served_quiet) (rule quiet_sendto_server)

lemma served_user:
  assumes t: "served G v a us t" and f: "\<And>u. channels (f u) = channels u \<and> oper (f u) = oper u \<and> user_reg (f u) = user_reg u"
  shows "runs (upd_user a f t) (served G v a us)"
proof -
  obtain u sv where u: "state_ok t" "get_user a t = Some u" "get_service v t = Some sv" "user_list t = us" "G (command sv)" using t by (rule servedE)
  have "state_ok (set_user a (f u) t)" by (rule state_ok_upd_user [OF u(1,2)]) (use f in auto)
  then show ?thesis using u set_user_proj [OF u(2), where u = "f u"] by (simp add: upd_user_eq [OF u(2)] served_def)
qed

lemma served_service:
  assumes t: "served G v a us t" and f: "\<And>sv. svc_channels (f sv) = svc_channels sv \<and> (G (command sv) \<longrightarrow> G (command (f sv)))"
  shows "runs (upd_service v f t) (served G v a us)"
proof -
  obtain u sv where u: "state_ok t" "get_user a t = Some u" "get_service v t = Some sv" "user_list t = us" "G (command sv)" using t by (rule servedE)
  note P = set_service_proj [OF u(3), where v = "f sv"]
  have "net_ok (set_service v (f sv) t)" by (rule net_ok_set_service [OF state_okD(1) [OF u(1)] u(3)]) (use f in auto)
  then have "state_ok (set_service v (f sv) t)" using u(1) P by (simp add: state_ok_def alive_def)
  then show ?thesis using u P f [of sv] by (simp add: upd_service_eq [OF u(3)] served_def)
qed

lemma charge_runs: "served G v a us t \<Longrightarrow> runs (charge v a n t) (served G v a us)"
  unfolding charge_def user_flood_def service_flood_def
  by (rule runs_seq [OF served_user]) (auto intro!: served_service)

lemma user_flood_runs: "served G v a us t \<Longrightarrow> runs (user_flood a n t) (served G v a us)"
  unfolding user_flood_def by (rule served_user) auto

lemma service_error_runs:
  assumes "served G v a us t"
  shows "runs (service_error V v a text t) (served G v a us)"
  by (rule servedE [OF assms]) (use assms in \<open>simp add: service_error_def served_send\<close>)

lemma service_err_runs: "served G v a us t \<Longrightarrow> runs (service_err V v a msgid args t) (served G v a us)"
  unfolding service_err_def by (rule service_error_runs)

lemma refuse_runs: "served G v a us t \<Longrightarrow> runs (refuse V v a msgid args t) (served G v a us)"
  unfolding refuse_def by (rule runs_seq [OF service_err_runs]) (auto intro: charge_runs)

lemma svc_notice_runs:
  assumes "served G v a us t"
  shows "runs (svc_notice V a text t) (served G v a us)"
  by (rule servedE [OF assms]) (use assms in \<open>simp add: svc_notice_def served_send\<close>)

lemma send_texts_runs: "served G v a us t \<Longrightarrow> runs (send_texts V v a ls t) (served G v a us)"
  unfolding send_texts_def by (rule runs_foreach) (auto intro: service_error_runs)

subsection \<open>Operator blocks of the users\<close>

lemma state_ok_set_oper:
  assumes ok: "state_ok s" and u: "get_user a s = Some u" and a: "a \<in> set (user_list s)"
    and cnt: "\<And>q. counted M q (refs_without s a q + (if o' = Some q then 1 else 0))" and lst: "listed_opers (s\<lparr>conf_opers := M\<rparr>)"
  shows "state_ok ((set_user a (u\<lparr>oper := o'\<rparr>) s)\<lparr>conf_opers := M, oper_list := l\<rparr>)" (is "state_ok ?t")
proof -
  let ?s = "set_user a (u\<lparr>oper := o'\<rparr>) s"
  have n: "net_ok s" by (rule state_okD [OF ok])
  note D = net_okD [OF n]
  note S = set_user_proj [OF u, where u = "u\<lparr>oper := o'\<rparr>"]
  have E: "get_user b ?t = get_user b ?s" "clients ?t = clients ?s" for b by (simp_all add: get_user_def)
  have P: "keys ?t = keys s" "kind ?t = kind s" "parent ?t = parent s" "dead ?t = dead s" "server_lists ?t = server_lists s"
    "chan_key ?t = chan_key s" "chan_lists ?t = chan_lists s" "chan_services ?t = chan_services s" "service_chans ?t = service_chans s"
    "user_chans ?t = user_chans s" "user_link ?t = user_link s"
    using S user_projs [OF u] by (auto simp: projection_defs fun_eq_iff)
  have o1: "user_oper ?t b = (if b = a then o' else user_oper s b)" for b
    using S(7) [of b] by (simp add: user_oper_def E)
  have r: "oper_refs ?t q = refs_without s a q + (if o' = Some q then 1 else 0)" for q
  proof -
    have "oper_refs ?t q = refs_without ?t a q + (if user_oper ?t a = Some q then 1 else 0)"
      by (rule oper_refs_user) (use a links_okD(1) [OF D(5)] in simp_all)
    moreover have "refs_without ?t a q = refs_without s a q"
      using S(7) by (simp add: refs_without_def user_oper_def cong: conj_cong)
    ultimately show ?thesis unfolding o1 by simp
  qed
  have "user_regs_ok s" using D(6) by (simp add: opers_ok_alt)
  then have "user_regs_ok ?t" using P(11) by (simp add: user_regs_ok_def)
  moreover have "listed_opers ?t" using lst by (simp add: listed_opers_def)
  ultimately have "opers_ok ?t" using cnt by (simp add: opers_ok_alt r)
  then have "net_ok ?t"
    unfolding net_ok_def
    using D tables_ok_cong [of ?t s] chtable_ok_cong [of ?t s] members_ok_cong [of ?t s] services_ok_cong [of ?t s]
      links_ok_cong [of ?t s] alloc_ok_cong [of ?t s] listed_ok_cong [of ?t s] P by simp
  then show ?thesis using ok P(4) by (simp add: state_ok_def alive_def)
qed

lemma user_oper_allocated:
  assumes ok: "state_ok s" and u: "get_user a s = Some u" "oper u = Some p" and a: "a \<in> set (user_list s)"
  obtains co where "conf_opers s p = Some co"
proof -
  have n: "net_ok s" by (rule state_okD [OF ok])
  have "user_oper s a = Some p" using u user_projs [OF u(1)] by simp
  then have "0 < oper_refs s p" using oper_refs_user [OF links_okD(1) [OF net_okD(5) [OF n]] a, of p] by simp
  moreover have "\<forall>p. 0 < oper_refs s p \<longrightarrow> conf_opers s p \<noteq> None" using net_okD(6) [OF n] by (simp add: opers_ok_def)
  ultimately obtain co where "conf_opers s p = Some co" by blast
  then show thesis by (rule that)
qed

lemma oper_has_total:
  assumes "state_ok s" "get_user a s = Some u" "a \<in> set (user_list s)"
  shows "runs (oper_has fl need u s) (\<lambda>b. True)"
proof (cases "oper u")
  case (Some p)
  obtain co where "conf_opers s p = Some co" by (rule user_oper_allocated [OF assms(1,2) Some assms(3)])
  then show ?thesis using Some by (simp add: oper_has_def)
qed (simp add: oper_has_def)

lemma no_access_total:
  assumes "state_ok s" "get_user a s = Some u" "a \<in> set (user_list s)"
  shows "runs (no_access fl c u s) (\<lambda>b. True)"
  using oper_has_total [OF assms, of fl "operflags c"] by (simp add: no_access_def)

lemma visible_cmds_total:
  assumes "state_ok s" "get_user a s = Some u" "a \<in> set (user_list s)"
  shows "runs (visible_cmds cs u s) (\<lambda>b. True)"
  by (induction cs) (auto intro!: runs_mono [OF no_access_total [OF assms]] elim!: runs_mono)

lemma find_conf_oper_runs:
  assumes "state_ok s"
  shows "runs (find_conf_oper un ho sv nm s) (\<lambda>r. \<forall>p. r = Some p \<longrightarrow> p \<in> set (conf_oper_list s) \<and>
    (\<exists>co. conf_opers s p = Some co \<and> oper_matches un ho sv nm co))"
proof -
  let ?P = "\<lambda>p. oper_matches un ho sv nm (the (conf_opers s p))"
  have l: "\<exists>co. conf_opers s p = Some co" if "p \<in> set (conf_oper_list s)" for p
    using net_okD(6) [OF state_okD(1) [OF assms]] that by (auto simp: opers_ok_def)
  have "find_conf_oper un ho sv nm s = Some (find ?P (conf_oper_list s))"
    unfolding find_conf_oper_def by (rule hunt_total) (use l in fastforce)
  moreover have "p \<in> set (conf_oper_list s) \<and> (\<exists>co. conf_opers s p = Some co \<and> oper_matches un ho sv nm co)"
    if p: "find ?P (conf_oper_list s) = Some p" for p
  proof -
    have "p \<in> set (conf_oper_list s)" "?P p" using p by (auto simp: find_Some_iff)
    then show ?thesis using l [of p] by auto
  qed
  ultimately show ?thesis by simp
qed

subsection \<open>Limits and help\<close>

lemma svc_ignored_runs:
  assumes "state_ok s"
  shows "runs (svc_ignored u cmdname s) (\<lambda>b. True)"
  unfolding svc_ignored_def by (intro runs_ifI runs_seq [OF find_conf_oper_runs [OF assms]]) simp_all

lemma served_cases:
  assumes "served G v a us t" "\<And>u cl sv sc. clients t a = Some cl \<Longrightarrow> user cl = Some u \<Longrightarrow> get_user a t = Some u \<Longrightarrow>
    clients t v = Some sc \<Longrightarrow> service sc = Some sv \<Longrightarrow> get_service v t = Some sv \<Longrightarrow> G (command sv) \<Longrightarrow> runs r Q"
  shows "runs r Q"
  using assms(1) by (rule servedE) (use assms(2) in blast)

lemma flood_limit_runs:
  assumes t: "served G v a us t"
  shows "runs (flood_limit V v a cmdname t) (\<lambda>(b, t'). served G v a us t')"
proof (rule served_cases [OF t])
  fix u cl sv sc assume u: "clients t a = Some cl" "user cl = Some u" "get_user a t = Some u" "get_service v t = Some sv"
  let ?r = "if flood_time u + client_flood_time (config_file (senv V)) < now t
     then upd_user a (\<lambda>u. u\<lparr>flood_time := now t, flood_count := 0\<rparr>) t else Some t"
  have r: "runs ?r (served G v a us)" using t by (auto intro!: served_user)
  have st: "state_ok t" using t by (simp add: served_def)
  have rest: "runs (do { u \<leftarrow> get_user a s; sv \<leftarrow> get_service v s;
      if flood_count u > client_flood_max_ignore (config_file (senv V)) then do {
        s \<leftarrow> user_flood a 1 s;
        s \<leftarrow> upd_service v (\<lambda>sv. sv\<lparr>ignored_count := Suc (ignored_count sv)\<rparr>) s;
        Some (True, s) }
      else if flood_max sv \<noteq> 0 \<and> flood sv > flood_max sv \<or> flood_count u > client_flood_max (config_file (senv V)) then do {
        s \<leftarrow> service_err V v a ''SVC_RATELIMITEDGENERIC'' [] s;
        s \<leftarrow> user_flood a 1 s;
        s \<leftarrow> upd_service v (\<lambda>sv. sv\<lparr>paced_count := Suc (paced_count sv)\<rparr>) s;
        Some (True, s) }
      else Some (False, s) }) (\<lambda>(b, t'). served G v a us t')" if s: "served G v a us s" for s
  proof (rule served_cases [OF s])
    fix u sv assume u: "get_user a s = Some u" "get_service v s = Some sv"
    show ?thesis
      unfolding u bind.bind_lunit
      by (intro runs_ifI runs_seq [OF user_flood_runs] runs_seq [OF served_service] runs_seq [OF service_err_runs])
        (use s in simp_all)
  qed
  show ?thesis
    unfolding flood_limit_def Let_def u bind.bind_lunit
    by (intro runs_ifI runs_seq [OF svc_ignored_runs [OF st]] runs_seq [OF r] rest) (use t in simp_all)
qed

lemma handle_service_help_index_runs:
  assumes t: "served G v a us t" "a \<in> set us" and G: "\<not> G None"
  shows "runs (handle_service_help_index V v a t) (served G v a us)"
proof (rule served_cases [OF t(1)])
  fix u sv sc assume sc: "clients t v = Some sc" "service sc = Some sv" and u: "get_user a t = Some u" and g: "G (command sv)"
  obtain cs where cs: "command sv = Some cs" using g G by (cases "command sv") auto
  have st: "state_ok t" "a \<in> set (user_list t)" using t by (auto simp: served_def)
  obtain b where b: "visible_cmds cs u t = Some b" using visible_cmds_total [OF st(1) u st(2), of cs] by (auto simp: runs_def)
  show ?thesis
    unfolding handle_service_help_index_def Let_def sc u cs b bind.bind_lunit
    by (intro runs_ifI runs_optI runs_seq [OF service_err_runs] runs_seq [OF send_texts_runs] runs_seq [where P = "served G v a us"] served_service
        service_err_runs send_texts_runs)
      (use t in \<open>auto simp: service_flood_def intro!: served_service service_err_runs send_texts_runs\<close>)
qed

lemma handle_service_help_runs:
  assumes t: "served G v a us t" and G: "\<not> G None"
  shows "runs (handle_service_help V v a x t) (served G v a us)"
proof (rule served_cases [OF t])
  fix u sv assume u: "get_user a t = Some u" "get_service v t = Some sv" and g: "G (command sv)"
  obtain cs where cs: "command sv = Some cs" using g G by (cases "command sv") auto
  show ?thesis
    unfolding handle_service_help_def Let_def u cs bind.bind_lunit
    by (intro runs_ifI runs_optI runs_seq [OF send_texts_runs] served_service service_err_runs) (use t in auto)
qed

lemma svc_help_runs:
  assumes t: "served G v a us t" "a \<in> set us" and G: "\<not> G None"
  shows "runs (svc_help V v a ps t) (served G v a us)"
proof (rule served_cases [OF t(1)])
  fix u sv sc assume u: "get_user a t = Some u" "clients t v = Some sc" "service sc = Some sv"
  show ?thesis
    unfolding svc_help_def Let_def u bind.bind_lunit
    by (intro runs_ifI runs_seq [OF charge_runs] service_err_runs handle_service_help_index_runs handle_service_help_runs) (use t G in auto)
qed

subsection \<open>Login and logout\<close>

lemma served_set_oper:
  assumes t: "served G v a us t" "a \<in> set us" and u: "get_user a t = Some u"
    and cnt: "\<And>q. counted M q (refs_without t a q + (if o' = Some q then 1 else 0))" and lst: "listed_opers (t\<lparr>conf_opers := M\<rparr>)"
  shows "served G v a us ((set_user a (u\<lparr>oper := o'\<rparr>) t)\<lparr>conf_opers := M, oper_list := l\<rparr>)" (is "served G v a us ?t")
proof -
  have st: "state_ok t" "a \<in> set (user_list t)" "user_list t = us" using t by (auto simp: served_def)
  have "state_ok ?t" by (rule state_ok_set_oper [OF st(1) u st(2) cnt lst])
  moreover have "get_user a ?t = Some (u\<lparr>oper := o'\<rparr>)" "get_service v ?t = get_service v t"
    using set_user_proj [OF u, where u = "u\<lparr>oper := o'\<rparr>"] by (simp_all add: get_user_def get_service_def)
  ultimately show ?thesis using t by (simp add: served_def)
qed

lemma user_counted:
  assumes t: "served G v a us t" "a \<in> set us" and u: "get_user a t = Some u"
  shows "counted (conf_opers t) q (refs_without t a q + (if oper u = Some q then 1 else 0))" "listed_opers t"
proof -
  have n: "net_ok t" and a: "a \<in> set (user_list t)" using t state_okD(1) by (auto simp: served_def)
  have "oper_refs t q = refs_without t a q + (if oper u = Some q then 1 else 0)"
    using oper_refs_user [OF links_okD(1) [OF net_okD(5) [OF n]] a] user_projs [OF u] by simp
  moreover have "counted (conf_opers t) q (oper_refs t q)" "listed_opers t" using net_okD(6) [OF n] by (auto simp: opers_ok_alt)
  ultimately show "counted (conf_opers t) q (refs_without t a q + (if oper u = Some q then 1 else 0))" "listed_opers t" by simp_all
qed

lemma served_login:
  assumes t: "served G v a us t" "a \<in> set us" and u: "get_user a t = Some u" "oper u = None" and p: "conf_opers t p = Some co" "p \<in> set (conf_oper_list t)"
  shows "served G v a us ((set_user a (u\<lparr>oper := Some p\<rparr>) t)\<lparr>conf_opers := (conf_opers t)(p \<mapsto> co\<lparr>refcount := refcount co + 1\<rparr>), oper_list := l\<rparr>)"
proof (rule served_set_oper [OF t u(1)])
  note C = user_counted [OF t u(1)]
  show "listed_opers (t\<lparr>conf_opers := (conf_opers t)(p \<mapsto> co\<lparr>refcount := refcount co + 1\<rparr>)\<rparr>)"
    using C(2) p by (auto simp: listed_opers_def)
  show "counted ((conf_opers t)(p \<mapsto> co\<lparr>refcount := refcount co + 1\<rparr>)) q (refs_without t a q + (if Some p = Some q then 1 else 0))" for q
    using C(1) [of q] u(2) p by (auto simp: counted_def)
qed

lemma quiet_opers: "quiet t s \<Longrightarrow> conf_opers t = conf_opers s \<and> conf_oper_list t = conf_oper_list s \<and> user_regs t = user_regs s"
  using quiet_same_clients [of t s] by (simp add: same_clients_def)

subsection \<open>What the dispatch relies on\<close>

text \<open>
  The fields of a command that its registration fixes; the use counter and the help files vary.
  The function of a command may rely on the access that the table asks for and on
  the number of parameters; it leaves a well-formed state in which the user and the service are still there.
\<close>

definition sig :: "service_command \<Rightarrow> service_command" where
  "sig e = e\<lparr>cmd_use := 0, helpfile := False\<rparr>"

definition like :: "service_command list \<Rightarrow> service_command list option \<Rightarrow> bool" where
  "like T c \<longleftrightarrow> (case c of None \<Rightarrow> False | Some cmds \<Rightarrow> map sig cmds = map sig T)"

definition granted :: "service_command \<Rightarrow> addr \<Rightarrow> net \<Rightarrow> bool" where
  "granted e a s \<longleftrightarrow> (\<exists>u. get_user a s = Some u \<and> (operonly e \<longrightarrow> umode u AND CLIENT_OPER \<noteq> 0) \<and>
     (operflags e \<noteq> 0 \<longrightarrow> (\<exists>p co. oper u = Some p \<and> conf_opers s p = Some co \<and> op_sflags co AND operflags e \<noteq> 0)) \<and>
     (userreg e \<longrightarrow> user_reg u \<noteq> None))"

lemma no_access_False:
  "no_access op_sflags e u s = Some False \<longleftrightarrow> (operonly e \<longrightarrow> umode u AND CLIENT_OPER \<noteq> 0) \<and>
     (operflags e \<noteq> 0 \<longrightarrow> (\<exists>p co. oper u = Some p \<and> conf_opers s p = Some co \<and> op_sflags co AND operflags e \<noteq> 0))"
  by (auto simp: no_access_def oper_has_def user_is_oper_def bind_eq_Some_conv split: option.splits)

lemma granted_iff:
  "granted e a s \<longleftrightarrow> (\<exists>u. get_user a s = Some u \<and> no_access op_sflags e u s = Some False \<and> (userreg e \<longrightarrow> user_reg u \<noteq> None))"
  by (simp add: granted_def no_access_False)

abbreviation present :: "addr \<Rightarrow> addr \<Rightarrow> net \<Rightarrow> bool" where
  "present v a t \<equiv> \<exists>us. served (\<lambda>c. True) v a us t"

locale svc_base = env_active "senv V" for V :: svc_env +
  assumes watch_quiet: "quiet (watch_send V lvl a op msg s) s"
    and rsdb_quiet: "quiet (rsdb_exec V stmt args s) s"
begin

lemma served_login_step:
  assumes t: "served G v a us t" "a \<in> set us" and u: "get_user a t = Some u" "oper u = None"
    and p: "conf_opers t p = Some co" "p \<in> set (conf_oper_list t)"
  shows "runs (do {
     s \<leftarrow> svc_notice V a text t;
     s \<leftarrow> upd_user a (\<lambda>u. u\<lparr>oper := Some p\<rparr>) s;
     let s = s\<lparr>conf_opers := (conf_opers s)(p \<mapsto> co\<lparr>refcount := refcount co + 1\<rparr>), oper_list := dlinkAdd (rb_ptrs (lib (senv V))) a (oper_list s)\<rparr>;
     Some (watch_send V lvl a op msg s) }) (served G v a us)"
proof -
  obtain cl where cl: "clients t a = Some cl" using u by (auto simp: get_user_def bind_eq_Some_conv)
  let ?t = "sendto_server (['':'', MYUID (senv V) t, '' NOTICE '', UID cl, '' :''] @ text) t"
  have n: "svc_notice V a text t = Some ?t" using cl by (simp add: svc_notice_def)
  have t1: "served G v a us ?t" by (rule served_send [OF t(1)])
  have q: "quiet ?t t" by simp
  have u1: "get_user a ?t = Some u" using u quiet_fields(1) [OF q] by (simp add: get_user_def)
  show ?thesis
    unfolding n bind.bind_lunit upd_user_eq [OF u1] Let_def
    using served_quiet [OF served_login [OF t1 t(2) u1 u(2)] watch_quiet] p quiet_opers [OF q] by simp
qed

lemma svc_ologin_runs:
  assumes t: "served G v a us t" "a \<in> set us"
  shows "runs (svc_ologin V v a ps t) (served G v a us)"
proof (rule served_cases [OF t(1)])
  fix u sc assume u: "get_user a t = Some u" and sc: "clients t v = Some sc"
  have st: "state_ok t" using t by (simp add: served_def)
  have 1: "runs (svc_notice V a m t) (served G v a us)" for m by (rule svc_notice_runs [OF t(1)])
  have 2: "runs (case r of None \<Rightarrow> do { s \<leftarrow> svc_notice V a [''No access to '', ucase (name sc), ''::OLOGIN''] t; user_flood a 1 s }
     | Some p \<Rightarrow> do {
           co \<leftarrow> conf_opers t p;
           let crpass = (if op_flags co AND CONF_OPER_ENCRYPTED \<noteq> 0 then crypt_pass V (arg ps 1) (op_pass co) else arg ps 1);
           if strcmp crpass (op_pass co) \<noteq> 0 then svc_notice V a [''Invalid password''] t
           else do {
             s \<leftarrow> svc_notice V a [''Oper login successful''] t;
             s \<leftarrow> upd_user a (\<lambda>u. u\<lparr>oper := Some p\<rparr>) s;
             let s = s\<lparr>conf_opers := (conf_opers s)(p \<mapsto> co\<lparr>refcount := refcount co + 1\<rparr>),
               oper_list := dlinkAdd (rb_ptrs (lib (senv V))) a (oper_list s)\<rparr>;
             Some (watch_send V WATCH_AUTH a True ''has logged in (irc)'' s) } }) (served G v a us)"
    if o': "oper u = None" and r: "\<forall>p. r = Some p \<longrightarrow> p \<in> set (conf_oper_list t) \<and> (\<exists>co. conf_opers t p = Some co \<and> Q p co)" for r Q
  proof (cases r)
    case None
    show ?thesis unfolding None option.case by (rule runs_seq [OF 1]) (rule user_flood_runs)
  next
    case (Some p)
    then obtain co where co: "conf_opers t p = Some co" "p \<in> set (conf_oper_list t)" using r by blast
    show ?thesis
      unfolding Some option.case co(1) bind.bind_lunit Let_def
      by (intro runs_ifI 1) (rule served_login_step [OF t u o' co, unfolded Let_def])
  qed
  show ?thesis
    unfolding svc_ologin_def u sc bind.bind_lunit
    by (intro runs_ifI runs_seq [OF 1] 1 user_flood_runs runs_seq [OF find_conf_oper_runs [OF st]]
        2 [where Q = "\<lambda>p. oper_matches (username u) (host u) (servername u) (arg ps 0)"]) simp_all
qed

lemma svc_ologout_runs:
  assumes t: "served G v a us t" "a \<in> set us"
  shows "runs (svc_ologout V a t) (served G v a us)"
proof (rule served_cases [OF t(1)])
  fix u assume u: "get_user a t = Some u"
  show ?thesis
  proof (cases "oper u")
    case None
    show ?thesis unfolding svc_ologout_def u None option.case bind.bind_lunit
      by (rule runs_seq [OF svc_notice_runs [OF t(1)]]) (rule user_flood_runs)
  next
    case (Some p)
    let ?t = "watch_send V WATCH_AUTH a True ''has logged out (irc)'' t"
    have t1: "served G v a us ?t" by (rule served_quiet [OF t(1) watch_quiet])
    have u1: "get_user a ?t = Some u" using u quiet_fields(1) [OF watch_quiet] by (simp add: get_user_def)
    note C = user_counted [OF t1 t(2) u1]
    let ?n = "\<lambda>q. refs_without ?t a q + (if oper u = Some q then 1 else 0)"
    have d: "runs (deallocate_conf_oper p ?t) (\<lambda>s'. (\<exists>M. s' = ?t\<lparr>conf_opers := M\<rparr>) \<and> listed_opers s' \<and>
        (\<forall>q. counted (conf_opers s') q (if q = p then ?n q - 1 else ?n q)))"
      by (rule deallocate_conf_oper_runs) (use C Some in simp_all)
    show ?thesis
      unfolding svc_ologout_def u Some option.case bind.bind_lunit Let_def
    proof (rule runs_seq [OF d])
      fix w assume w: "(\<exists>M. w = ?t\<lparr>conf_opers := M\<rparr>) \<and> listed_opers w \<and> (\<forall>q. counted (conf_opers w) q (if q = p then ?n q - 1 else ?n q))"
      then obtain M where M: "w = ?t\<lparr>conf_opers := M\<rparr>" by blast
      have uw: "get_user a w = Some u" using u1 by (simp add: M get_user_def)
      have c: "counted M q (refs_without ?t a q + (if None = Some q then 1 else 0))" for q
        using w Some by (auto simp: M dest: spec [of _ q] split: if_splits)
      have e: "(set_user a (u\<lparr>oper := None\<rparr>) w)\<lparr>oper_list := l\<rparr> = (set_user a (u\<lparr>oper := None\<rparr>) ?t)\<lparr>conf_opers := M, oper_list := l\<rparr>" for l
        by (simp add: M set_user_def)
      have "served G v a us ((set_user a (u\<lparr>oper := None\<rparr>) w)\<lparr>oper_list := l\<rparr>)" for l
        unfolding e by (rule served_set_oper [OF t1 t(2) u1 c]) (use w in \<open>simp add: M\<close>)
      then show "runs (do { s \<leftarrow> upd_user a (\<lambda>u. u\<lparr>oper := None\<rparr>) w;
          svc_notice V a [''Oper logout successful''] (s\<lparr>oper_list := find_destroy (lib (senv V)) a (oper_list s)\<rparr>) }) (served G v a us)"
        unfolding upd_user_eq [OF uw] bind.bind_lunit by (rule svc_notice_runs)
    qed
  qed
qed

end

lemma sigD:
  assumes "sig e = sig e'"
  shows "cmd e = cmd e'" "minparc e = minparc e'" "userreg e = userreg e'" "operonly e = operonly e'" "operflags e = operflags e'"
proof -
  have "cmd (sig e) = cmd (sig e')" "minparc (sig e) = minparc (sig e')" "userreg (sig e) = userreg (sig e')"
    "operonly (sig e) = operonly (sig e')" "operflags (sig e) = operflags (sig e')" using assms by simp_all
  then show "cmd e = cmd e'" "minparc e = minparc e'" "userreg e = userreg e'" "operonly e = operonly e'" "operflags e = operflags e'"
    by (simp_all add: sig_def)
qed

lemma granted_sig: "sig e = sig e' \<Longrightarrow> granted e a s = granted e' a s"
  using sigD [of e e'] by (simp add: granted_iff no_access_def)

lemma like_nth:
  assumes "like T (Some cmds)" "i < length cmds"
  shows "i < length T" "sig (cmds ! i) = sig (T ! i)"
proof -
  have m: "map sig cmds = map sig T" using assms(1) by (simp add: like_def)
  then have "length (map sig cmds) = length (map sig T)" by simp
  then show i: "i < length T" using assms(2) by simp
  have "map sig cmds ! i = map sig T ! i" using m by simp
  then show "sig (cmds ! i) = sig (T ! i)" using assms(2) i by simp
qed

lemma like_used:
  assumes "like T (Some cmds)" "i < length cmds"
  shows "like T (Some (cmds[i := (cmds ! i)\<lparr>cmd_use := n\<rparr>]))"
proof -
  have "map sig (cmds[i := (cmds ! i)\<lparr>cmd_use := n\<rparr>]) = (map sig cmds)[i := map sig cmds ! i]"
    using assms(2) by (simp add: map_update sig_def)
  then show ?thesis using assms(1) by (simp add: like_def)
qed

lemma served_present: "served G v a us t \<Longrightarrow> present v a t"
  by (auto simp: served_def)

lemma present_charge: "present v a t \<Longrightarrow> runs (charge v a n t) (present v a)"
  by (elim exE) (rule runs_mono [OF charge_runs], auto)

lemma oper_has_cong: "conf_opers t = conf_opers s \<Longrightarrow> oper_has fl need u t = oper_has fl need u s"
  by (simp add: oper_has_def split: option.split)

lemma no_access_cong: "conf_opers t = conf_opers s \<Longrightarrow> no_access fl e u t = no_access fl e u s"
  using oper_has_cong [of t s] by (simp add: no_access_def)

lemma granted_cong: "conf_opers t = conf_opers s \<Longrightarrow> get_user a t = get_user a s \<Longrightarrow> granted e a t = granted e a s"
  using no_access_cong [of t s] by (simp add: granted_iff)

lemma granted_service: "get_service v s = Some sv \<Longrightarrow> granted e a (set_service v sv' s) = granted e a s"
  by (rule granted_cong) (use set_service_proj [where v = sv'] in simp_all)

lemma served_regs:
  assumes t: "served G v a us t" and r: "user_regs t r = Some rg"
  shows "served G v a us (t\<lparr>user_regs := (user_regs t)(r \<mapsto> rg')\<rparr>)" (is "served G v a us ?t")
proof -
  have n: "net_ok t" using t state_okD(1) by (auto simp: served_def)
  have e: "?t = t\<lparr>conf_opers := conf_opers t, client_oper_list := client_oper_list t, oper_list := oper_list t,
    user_regs := (user_regs t)(r \<mapsto> rg')\<rparr>" by simp
  have p: "user_link ?t = user_link t" "user_oper ?t = user_oper t" "dead ?t = dead t" by (auto simp: projection_defs fun_eq_iff)
  have "opers_ok ?t" using net_okD(6) [OF n] p by (auto simp: opers_ok_def oper_refs_def)
  then have "net_ok ?t" using net_ok_opers [OF n] e by metis
  then have "state_ok ?t" using t p by (simp add: served_def state_ok_def alive_def)
  then show ?thesis using t by (simp add: served_def get_user_def get_service_def)
qed

locale svc_ok = svc_base V for V :: svc_env +
  fixes tab :: "addr \<Rightarrow> service_command list"
  assumes cmd_ok: "served (like (tab v)) v a us s \<Longrightarrow> a \<in> set us \<Longrightarrow> e \<in> set (tab v) \<Longrightarrow> granted e a s \<Longrightarrow>
      minparc e \<le> length ps \<Longrightarrow> list_all cstring ps \<Longrightarrow> cmd_func V v (cmd e) = Some f \<Longrightarrow>
      runs (f a ps s) (\<lambda>(r, s'). present v a s')"
begin

lemma run_command_runs:
  assumes t: "served (like (tab v)) v a us t" "a \<in> set us" and sv: "get_service v t = Some sv" "command sv = Some cmds" and i: "i < length cmds"
    and e: "granted (cmds ! i) a t" "minparc (cmds ! i) \<le> length ps" "list_all cstring ps"
  shows "runs (run_command V v a cmds i ps t) (present v a)"
proof -
  let ?sv = "sv\<lparr>command := Some (cmds[i := (cmds ! i)\<lparr>cmd_use := Suc (cmd_use (cmds ! i))\<rparr>])\<rparr>"
  let ?t = "set_service v ?sv t"
  have L: "like (tab v) (Some cmds)" using t sv by (auto simp: served_def)
  have "runs (upd_service v (\<lambda>sv'. sv'\<lparr>command := command ?sv\<rparr>) t) (served (like (tab v)) v a us)"
    by (rule served_service [OF t(1)]) (use like_used [OF L i] in simp)
  then have t1: "served (like (tab v)) v a us ?t" by (simp add: upd_service_eq [OF sv(1)])
  note S = like_nth [OF L i]
  have g: "granted (tab v ! i) a ?t" using e(1) granted_service [OF sv(1)] granted_sig [OF S(2)] by simp
  have f: "runs (f a ps ?t) (\<lambda>(r, s'). present v a s')" if "cmd_func V v (cmd (cmds ! i)) = Some f" for f
    by (rule cmd_ok [OF t1 t(2) nth_mem [OF S(1)] g]) (use that e sigD [OF S(2)] in simp_all)
  show ?thesis
    unfolding run_command_def Let_def upd_service_eq [OF sv(1)] bind.bind_lunit
  proof (rule runs_seq [where P = "\<lambda>(r, s'). present v a s'"])
    show "runs (case cmd_func V v (cmd (cmds ! i)) of None \<Rightarrow> Some (0, ?t) | Some f \<Rightarrow> f a ps ?t) (\<lambda>(r, s'). present v a s')"
      by (rule runs_optI) (use f served_present [OF t1] in auto)
  next
    fix x assume "case x of (r :: int, s') \<Rightarrow> present v a s'"
    then show "runs (case x of (retval, s) \<Rightarrow> charge v a retval s) (present v a)"
      by (cases x) (simp add: present_charge)
  qed
qed

lemma svc_command_runs:
  assumes t: "served (like (tab v)) v a us t" "a \<in> set us" and sv: "get_service v t = Some sv" "command sv = Some cmds" and i: "i < length cmds"
    and ps: "list_all cstring ps"
  shows "runs (svc_command V v a cmds i ps t) (present v a)"
proof (rule served_cases [OF t(1)])
  fix u sc assume u: "get_user a t = Some u" and sc: "clients t v = Some sc"
  have st: "state_ok t" "a \<in> set (user_list t)" using t by (auto simp: served_def)
  obtain no where no: "no_access op_sflags (cmds ! i) u t = Some no"
    using no_access_total [OF st(1) u st(2)] by (auto simp: runs_def)
  have ref: "runs (refuse V v a m args s) (present v a)" if "served (like (tab v)) v a us s" for m args s
    by (rule runs_mono [OF refuse_runs [OF that]]) (rule served_present)
  have load: "runs (case (if userreg (cmds ! i) then user_reg u else None) of None \<Rightarrow> Some t
       | Some r \<Rightarrow> do { rg \<leftarrow> user_regs t r;
           Some (t\<lparr>user_regs := (user_regs t)(r \<mapsto> rg\<lparr>last_time := now t, reg_flags := reg_flags rg OR US_FLAGS_NEEDUPDATE\<rparr>)\<rparr>) })
       (\<lambda>s. served (like (tab v)) v a us s \<and> get_service v s = Some sv \<and> granted (cmds ! i) a s)"
    if no': "\<not> no" "\<not> (userreg (cmds ! i) \<and> user_reg u = None)"
  proof -
    have g: "granted (cmds ! i) a t" using u no no' by (auto simp: granted_iff)
    show ?thesis
    proof (rule runs_optI)
      fix r assume "(if userreg (cmds ! i) then user_reg u else None) = Some r"
      then have "user_link t a = Some r" using user_projs [OF u] by (simp split: if_splits)
      then obtain rg where rg: "user_regs t r = Some rg"
        using net_okD(6) [OF state_okD(1) [OF st(1)]] st(2) unfolding opers_ok_def by blast
      have "granted (cmds ! i) a (t\<lparr>user_regs := m\<rparr>)" for m
        using g granted_cong [of "t\<lparr>user_regs := m\<rparr>" t] by (simp add: get_user_def)
      then show "runs (do { rg \<leftarrow> user_regs t r;
           Some (t\<lparr>user_regs := (user_regs t)(r \<mapsto> rg\<lparr>last_time := now t, reg_flags := reg_flags rg OR US_FLAGS_NEEDUPDATE\<rparr>)\<rparr>) })
         (\<lambda>s. served (like (tab v)) v a us s \<and> get_service v s = Some sv \<and> granted (cmds ! i) a s)"
        using rg served_regs [OF t(1) rg] sv by (simp add: get_service_def)
    qed (use t sv g in simp)
  qed
  show ?thesis
    unfolding svc_command_def Let_def sc u no bind.bind_lunit
  proof (intro runs_ifI ref [OF t(1)] runs_seq [OF load])
    fix s assume s: "served (like (tab v)) v a us s \<and> get_service v s = Some sv \<and> granted (cmds ! i) a s"
    show "runs (refuse V v a ''SVC_NEEDMOREPARAMS'' [name sc, cmd (cmds ! i)] s) (present v a)" using s ref by blast
    assume "\<not> length ps < minparc (cmds ! i)"
    then show "runs (run_command V v a cmds i ps s) (present v a)"
      using run_command_runs [OF _ t(2) _ sv(2) i _ _ ps] s by simp
  qed simp_all
qed

end

lemma served_mono: "served G v a us t \<Longrightarrow> (\<And>c. G c \<Longrightarrow> H c) \<Longrightarrow> served H v a us t"
  by (auto simp: served_def)

context svc_ok
begin

lemma handle_service_runs:
  assumes t: "served (like (tab v)) v a us t" "a \<in> set us" and ps: "list_all cstring ps"
  shows "runs (handle_service V v a cmdname ps msg t) (present v a)"
proof (rule served_cases [OF t(1)])
  fix sc sv assume sc: "clients t v = Some sc" "service sc = Some sv" "get_service v t = Some sv" and L: "like (tab v) (command sv)"
  obtain cmds where c: "command sv = Some cmds" using L by (cases "command sv") (auto simp: like_def)
  let ?G = "\<lambda>c. c = Some cmds"
  have t0: "served ?G v a us t" using t sc c by (simp add: served_def)
  show ?thesis
    unfolding handle_service_def sc(1,2) c option.case bind.bind_lunit
  proof (rule runs_seq [OF flood_limit_runs [OF t0]])
    fix x :: "bool \<times> net" assume x: "case x of (b, t') \<Rightarrow> served ?G v a us t'"
    obtain stop s where xs: "x = (stop, s)" by (cases x)
    have s: "served ?G v a us s" using x xs by simp
    obtain u where u: "get_user a s = Some u" using s by (auto simp: served_def)
    obtain sv' where sv': "get_service v s = Some sv'" "command sv' = Some cmds" using s by (auto simp: served_def)
    have s': "served (like (tab v)) v a us s" by (rule served_mono [OF s]) (use L c in simp)
    have keep: "runs r (present v a)" if "runs r (served ?G v a us)" for r
      by (rule runs_mono [OF that]) (rule served_present)
    have cmd: "runs (case bsearch (scmd_compare cmdname) cmds of Some i \<Rightarrow> svc_command V v a cmds i ps s
        | None \<Rightarrow> refuse V v a ''SVC_UNKNOWNCOMMAND'' [name sc, cmdname] s) (present v a)"
    proof (cases "bsearch (scmd_compare cmdname) cmds")
      case (Some i)
      then show ?thesis using svc_command_runs [OF s' t(2) sv' _ ps] bsearch_hit by fastforce
    next
      case None
      show ?thesis unfolding None option.case by (rule keep [OF refuse_runs [OF s]])
    qed
    show "runs (case x of (stop, s) \<Rightarrow> do {
         u \<leftarrow> get_user a s;
         if stop then Some s
         else if msg \<and> svc_flags sv AND SERVICE_SHORTCUT \<noteq> 0 then
           (if stealthy sv u then Some s
            else do { s \<leftarrow> charge v a 1 s; service_err V v a ''SVC_USECOMMANDSHORTCUT'' [name sc] s })
         else if strcasecmp cmdname ''HELP'' = 0 then
           (if stealthy sv u then Some s else svc_help V v a ps s)
         else if strcasecmp cmdname ''OPERLOGIN'' = 0 \<or> strcasecmp cmdname ''OLOGIN'' = 0 then svc_ologin V v a ps s
         else if strcasecmp cmdname ''OPERLOGOUT'' = 0 \<or> strcasecmp cmdname ''OLOGOUT'' = 0 then svc_ologout V a s
         else if stealthy sv u then Some s
         else case bsearch (scmd_compare cmdname) cmds of
           Some i \<Rightarrow> svc_command V v a cmds i ps s
         | None \<Rightarrow> refuse V v a ''SVC_UNKNOWNCOMMAND'' [name sc, cmdname] s }) (present v a)"
      unfolding xs prod.case u bind.bind_lunit
      by (intro runs_ifI cmd keep [OF svc_help_runs [OF s t(2)]] keep [OF svc_ologin_runs [OF s t(2)]] keep [OF svc_ologout_runs [OF s t(2)]]
          keep [OF runs_seq [OF charge_runs [OF s] service_err_runs]])
        (use served_present [OF s] in simp_all)
  qed
qed

end

subsection \<open>The registered commands are found\<close>

lemma strcmp_swap: "strcmp t s = - strcmp s t"
  by (induction s t rule: strcmp.induct) auto

lemma strcasecmp_swap: "strcasecmp t s = - strcasecmp s t"
  by (simp add: strcasecmp_def strcmp_swap [of "map tolower t"])

lemma strcasecmp_trans:
  "cstring r \<Longrightarrow> cstring s \<Longrightarrow> cstring t \<Longrightarrow> strcasecmp r s < 0 \<Longrightarrow> strcasecmp s t < 0 \<Longrightarrow> strcasecmp r t < 0"
  using strcmp_trans [of "map tolower r" "map tolower s" "map tolower t"] by (simp add: strcasecmp_def)

text \<open>No two commands have the same name, up to case.\<close>

definition distinct_cmds :: "service_command list \<Rightarrow> bool" where
  "distinct_cmds cmds \<longleftrightarrow> distinct (map (\<lambda>c. map tolower (cmd c)) cmds) \<and> list_all (\<lambda>c. cstring (cmd c)) cmds"

lemma qsort_insert_mset: "mset (qsort_insert cmp x xs) = add_mset x (mset xs)"
  by (induction xs) auto

lemma mset_qsort [simp]: "mset (qsort cmp xs) = mset xs"
  by (induction xs) (auto simp: qsort_def qsort_insert_mset)

lemma set_qsort [simp]: "set (qsort cmp xs) = set xs"
  by (rule mset_eq_setD) simp

lemma sorted_insert:
  assumes "sorted_cmds cs" "cstring (cmd c)" "map tolower (cmd c) \<notin> (\<lambda>c. map tolower (cmd c)) ` set cs"
  shows "sorted_cmds (qsort_insert scmd_sort c cs)"
  using assms
proof (induction cs)
  case (Cons d cs)
  have cst: "cstring (cmd c)" "cstring (cmd d)" "\<And>e. e \<in> set cs \<Longrightarrow> cstring (cmd e)" "sorted_cmds cs"
    "\<And>e. e \<in> set cs \<Longrightarrow> strcasecmp (cmd d) (cmd e) < 0"
    using Cons.prems by (auto simp: sorted_cmds_def list_all_iff)
  have ne: "strcasecmp (cmd c) (cmd d) \<noteq> 0" using Cons.prems cst by (auto simp: strcasecmp_0 strcaseeq_def)
  show ?case
  proof (cases "strcasecmp (cmd c) (cmd d) \<le> 0")
    case True
    then have "strcasecmp (cmd c) (cmd d) < 0" using ne by simp
    then have "strcasecmp (cmd c) (cmd e) < 0" if "e \<in> set cs" for e
      using strcasecmp_trans [OF cst(1,2) cst(3) [OF that]] cst(5) [OF that] by simp
    then show ?thesis using True ne cst Cons.prems by (auto simp: sorted_cmds_def scmd_sort_def)
  next
    case False
    then have "strcasecmp (cmd d) (cmd c) < 0" using strcasecmp_swap [of "cmd d" "cmd c"] by simp
    moreover have "sorted_cmds (qsort_insert scmd_sort c cs)" using Cons.IH [OF cst(4,1)] Cons.prems(3) by simp
    moreover have "set (qsort_insert scmd_sort c cs) = insert c (set cs)"
      using mset_eq_setD [OF qsort_insert_mset [of scmd_sort c cs, folded mset.simps(2)]] by simp
    ultimately show ?thesis using False cst by (auto simp: sorted_cmds_def scmd_sort_def [of c d])
  qed
qed (simp add: sorted_cmds_def)

lemma sorted_qsort: "distinct_cmds cs \<Longrightarrow> sorted_cmds (qsort scmd_sort cs)"
proof (induction cs)
  case (Cons c cs)
  then have "sorted_cmds (qsort scmd_sort cs)" by (simp add: distinct_cmds_def)
  moreover have "qsort scmd_sort (c # cs) = qsort_insert scmd_sort c (qsort scmd_sort cs)" by (simp add: qsort_def)
  ultimately show ?case using Cons.prems by (auto simp: distinct_cmds_def intro!: sorted_insert)
qed (simp add: qsort_def sorted_cmds_def)

text \<open>
  C26. Every command of a service is found. The table of a service, sorted together with that of a service
  merged into it, holds the entries of both; looking a name up in it by binary search ends at the
  entry of that name up to case, and fails only when neither table has one.
\<close>

theorem merged_commands_found:
  assumes "distinct_cmds (cmds @ handler_cmds)" and "cstring nm"
  shows "mset (merge_commands cmds handler_cmds) = mset cmds + mset handler_cmds \<and>
    (case bsearch (scmd_compare nm) (merge_commands cmds handler_cmds) of
       Some i \<Rightarrow> i < length (merge_commands cmds handler_cmds) \<and> strcaseeq nm (cmd (merge_commands cmds handler_cmds ! i))
     | None \<Rightarrow> \<not> (\<exists>e. e \<in> set cmds \<union> set handler_cmds \<and> strcaseeq nm (cmd e)))"
proof -
  let ?t = "merge_commands cmds handler_cmds"
  have "sorted_cmds ?t" unfolding merge_commands_def by (rule sorted_qsort [OF assms(1)])
  note B = bsearch_commands [OF this assms(2)]
  have "\<not> (\<exists>e. e \<in> set cmds \<union> set handler_cmds \<and> strcaseeq nm (cmd e))" if n: "bsearch (scmd_compare nm) ?t = None"
  proof (rule notI)
    assume "\<exists>e. e \<in> set cmds \<union> set handler_cmds \<and> strcaseeq nm (cmd e)"
    then obtain e where e: "e \<in> set ?t" "strcaseeq nm (cmd e)" by (auto simp: merge_commands_def)
    then obtain i where "i < length ?t" "?t ! i = e" by (auto simp: in_set_conv_nth)
    then show False using B [of i] n e(2) by simp
  qed
  then show ?thesis using B by (auto simp: merge_commands_def split: option.split)
qed

subsection \<open>Access\<close>

text \<open>What access depends on stays while the limits are applied.\<close>

definition same_login :: "addr \<Rightarrow> net \<Rightarrow> net \<Rightarrow> bool" where
  "same_login a s t \<longleftrightarrow> conf_opers t = conf_opers s \<and>
     map_option (\<lambda>u. (umode u, oper u, user_reg u)) (get_user a t) = map_option (\<lambda>u. (umode u, oper u, user_reg u)) (get_user a s)"

lemma same_login_refl [simp]: "same_login a s s"
  by (simp add: same_login_def)

lemma same_login_trans: "same_login a s t \<Longrightarrow> same_login a t u \<Longrightarrow> same_login a s u"
  by (simp add: same_login_def)

lemma same_login_user:
  assumes "upd_user b f s = Some t" "\<And>u. umode (f u) = umode u \<and> oper (f u) = oper u \<and> user_reg (f u) = user_reg u"
  shows "same_login a s t"
proof -
  obtain u where u: "get_user b s = Some u" using assms(1) by (auto simp: upd_user_def upd_client_def get_user_def bind_eq_Some_conv)
  then have t: "t = set_user b (f u) s" using assms(1) upd_user_eq [OF u] by simp
  show ?thesis using set_user_proj(7) [OF u, of a "f u"] assms(2) [of u] u by (auto simp: same_login_def t)
qed

lemma same_login_service:
  assumes "upd_service b f s = Some t"
  shows "same_login a s t"
proof -
  obtain v where v: "get_service b s = Some v" using assms(1) by (auto simp: upd_service_def upd_client_def get_service_def bind_eq_Some_conv)
  then have t: "t = set_service b (f v) s" using assms(1) upd_service_eq [OF v] by simp
  show ?thesis using set_service_proj [OF v, where v = "f v"] by (simp add: same_login_def t)
qed

lemma same_login_quiet: "quiet t s \<Longrightarrow> same_login a s t"
  using quiet_opers [of t s] quiet_fields(1) [of t s] by (simp add: same_login_def get_user_def)

lemma same_login_err: "service_err V v b m args s = Some t \<Longrightarrow> same_login a s t"
  by (auto simp: service_err_def service_error_def bind_eq_Some_conv intro: same_login_quiet)

lemma same_login_flood:
  assumes "flood_limit V v b nm s = Some (stop, t)"
  shows "same_login a s t"
proof -
  have uf: "same_login a s t" if "user_flood b n s = Some t" for n s t
    using that unfolding user_flood_def by (rule same_login_user) simp
  show ?thesis
    using assms unfolding flood_limit_def Let_def
    by (auto simp del: runs_bind simp: bind_eq_Some_conv split: if_splits
        dest!: uf same_login_service [where a = a] same_login_err [where a = a] same_login_user [where a = a] intro: same_login_trans)
qed

lemma same_login_granted:
  assumes "same_login a s t"
  shows "granted e a t = granted e a s"
proof (cases "get_user a s")
  case (Some u)
  obtain u' where u': "get_user a t = Some u'" "umode u' = umode u" "oper u' = oper u" "user_reg u' = user_reg u"
    using assms Some by (auto simp: same_login_def)
  have c: "conf_opers t = conf_opers s" using assms by (simp add: same_login_def)
  have "no_access op_sflags e u' t = no_access op_sflags e u s"
    unfolding no_access_def oper_has_def user_is_oper_def u' c ..
  then show ?thesis using Some u' by (simp add: granted_iff)
qed (use assms in \<open>auto simp: same_login_def granted_iff\<close>)

lemma cmd_func_irrelevant:
  fixes V :: svc_env
  defines "W \<equiv> (\<lambda>f. V\<lparr>cmd_func := f\<rparr>)"
  shows "service_error (W f) = service_error V" "service_err (W f) = service_err V" "refuse (W f) = refuse V"
    "flood_limit (W f) = flood_limit V" "svc_notice (W f) = svc_notice V" "svc_help (W f) = svc_help V"
    "svc_ologin (W f) = svc_ologin V" "svc_ologout (W f) = svc_ologout V"
proof -
  have F: "senv (W f) = senv V" "lang_notice (W f) = lang_notice V" "crypt_pass (W f) = crypt_pass V" "help_file (W f) = help_file V"
    "helpadmin_file (W f) = helpadmin_file V" "cmd_help (W f) = cmd_help V" "watch_send (W f) = watch_send V"
    by (simp_all add: W_def)
  show 1: "service_error (W f) = service_error V" unfolding service_error_def F ..
  show 2: "service_err (W f) = service_err V" unfolding service_err_def 1 F ..
  show 3: "refuse (W f) = refuse V" unfolding refuse_def 2 ..
  show "flood_limit (W f) = flood_limit V" unfolding flood_limit_def 2 F ..
  show 4: "svc_notice (W f) = svc_notice V" unfolding svc_notice_def F ..
  have 5: "send_texts (W f) = send_texts V" unfolding send_texts_def 1 ..
  have 6: "handle_service_help_index (W f) = handle_service_help_index V" unfolding handle_service_help_index_def 2 5 F ..
  have 7: "handle_service_help (W f) = handle_service_help V" unfolding handle_service_help_def 2 5 F ..
  show "svc_help (W f) = svc_help V" unfolding svc_help_def 2 6 7 ..
  show "svc_ologin (W f) = svc_ologin V" unfolding svc_ologin_def 4 F ..
  show "svc_ologout (W f) = svc_ologout V" unfolding svc_ologout_def 4 F ..
qed

lemma svc_command_denied:
  assumes "\<not> granted (cmds ! i) a t"
  shows "svc_command (V\<lparr>cmd_func := f\<rparr>) v a cmds i ps t = svc_command V v a cmds i ps t"
proof (cases "get_user a t")
  case (Some u)
  have "no_access op_sflags (cmds ! i) u t \<noteq> Some False \<or> userreg (cmds ! i) \<and> user_reg u = None"
    using assms Some by (auto simp: granted_iff)
  then show ?thesis
    unfolding svc_command_def Some bind.bind_lunit Let_def cmd_func_irrelevant
    by (cases "no_access op_sflags (cmds ! i) u t"; cases "clients t v") auto
next
  case None
  then show ?thesis by (simp add: svc_command_def Let_def split: bind_splits)
qed

text \<open>
  C15. Commands are run only with access. When the user may use no command of that name - not an oper where the
  table asks for one, no operator block with the flags asked for, or not logged in to an account
  where that is needed - the functions of the commands have no say in what happens: the dispatch does the same with any others.
\<close>

theorem command_needs_access:
  assumes "get_service v s = Some sv" and "command sv = Some cmds"
    and "\<not> (\<exists>e. e \<in> set cmds \<and> strcasecmp nm (cmd e) = 0 \<and> granted e a s)"
  shows "handle_service (V\<lparr>cmd_func := f\<rparr>) v a nm ps msg s = handle_service V v a nm ps msg s"
proof -
  obtain sc where sc: "clients s v = Some sc" "service sc = Some sv" using assms(1) by (auto simp: get_service_def bind_eq_Some_conv)
  have eq: "svc_command (V\<lparr>cmd_func := f\<rparr>) v a cmds i ps t = svc_command V v a cmds i ps t"
    if "flood_limit V v a nm s = Some (stop, t)" "bsearch (scmd_compare nm) cmds = Some i" for stop t i
  proof (rule svc_command_denied)
    have "i < length cmds" "strcasecmp nm (cmd (cmds ! i)) = 0" using bsearch_hit [OF that(2)] by (auto simp: scmd_compare_def)
    then show "\<not> granted (cmds ! i) a t"
      using assms(3) same_login_granted [OF same_login_flood [OF that(1)]] nth_mem by blast
  qed
  show ?thesis
  proof (cases "flood_limit V v a nm s")
    case (Some x)
    obtain stop t where x: "x = (stop, t)" by (cases x)
    have c: "(case bsearch (scmd_compare nm) cmds of None \<Rightarrow> r | Some i \<Rightarrow> svc_command (V\<lparr>cmd_func := f\<rparr>) v a cmds i ps t) =
        (case bsearch (scmd_compare nm) cmds of None \<Rightarrow> r | Some i \<Rightarrow> svc_command V v a cmds i ps t)" for r
      using eq Some x by (simp split: option.split)
    show ?thesis
      unfolding handle_service_def sc assms(2) bind.bind_lunit option.case cmd_func_irrelevant Some x prod.case c ..
  next
    case None
    then show ?thesis unfolding handle_service_def sc assms(2) bind.bind_lunit option.case cmd_func_irrelevant by simp
  qed
qed

subsection \<open>Floods\<close>

text \<open>
  C28. A user that floods far enough is ignored. Where a user is not logged in as an oper and the count of the current
  interval is over \<open>client_flood_max_ignore\<close>, a message to a service has no effect but on two counters: the count of the user
  and the service's count of ignored messages each grow by one, and every other part of the state, the lines to be sent included,
  is the same. Where the service has no commands, or \<open>svc_ignored\<close> holds for the user, not even the counters change.
\<close>

theorem flooding_user_ignored:
  assumes "state_ok s" and "get_user a s = Some u" and "oper u = None" and "get_service v s = Some sv"
    and "\<not> flood_time u + client_flood_time (config_file (senv V)) < now s"
    and "client_flood_max_ignore (config_file (senv V)) < flood_count u"
  shows "\<exists>ign. svc_ignored u nm s = Some ign \<and>
    handle_service V v a nm ps msg s = Some (if command sv = None \<or> ign then s
      else set_service v (sv\<lparr>ignored_count := Suc (ignored_count sv)\<rparr>) (set_user a (u\<lparr>flood_count := flood_count u + 1\<rparr>) s))"
proof -
  obtain sc where sc: "clients s v = Some sc" "service sc = Some sv" using assms(4) by (auto simp: get_service_def bind_eq_Some_conv)
  obtain ign where ign: "svc_ignored u nm s = Some ign" using svc_ignored_runs [OF assms(1)] by (auto simp: runs_def)
  let ?u = "u\<lparr>flood_count := flood_count u + 1\<rparr>"
  let ?t = "set_user a ?u s"
  let ?w = "set_service v (sv\<lparr>ignored_count := Suc (ignored_count sv)\<rparr>) ?t"
  note U = set_user_proj [OF assms(2), where u = ?u]
  have v: "get_service v ?t = Some sv" using U assms(4) by simp
  note W = set_service_proj [OF v, where v = "sv\<lparr>ignored_count := Suc (ignored_count sv)\<rparr>"]
  have fl: "flood_limit V v a nm s = Some (True, if ign then s else ?w)"
    using assms(2,3,5,6) ign by (simp add: flood_limit_def assms(4) user_flood_def upd_user_eq [OF assms(2)] upd_service_eq [OF v])
  have w: "get_user a ?w = Some ?u" using W U by simp
  have "handle_service V v a nm ps msg s = Some (if command sv = None \<or> ign then s else ?w)"
    using sc fl w assms(2) by (cases "command sv") (auto simp: handle_service_def)
  then show ?thesis using ign by blast
qed

text \<open>The periodic update, run \<open>n\<close> times.\<close>

fun floodcount_updates :: "nat \<Rightarrow> net \<Rightarrow> net option" where
  "floodcount_updates 0 s = Some s"
| "floodcount_updates (Suc n) s = do { s \<leftarrow> update_service_floodcount s; floodcount_updates n s }"

lemma foreach_upd_service:
  assumes "distinct vs" "\<And>v. v \<in> set vs \<Longrightarrow> get_service v s \<noteq> None"
  shows "runs (foreach (\<lambda>v. upd_service v f) vs s)
    (\<lambda>t. service_list t = service_list s \<and> (\<forall>b. get_service b t = (if b \<in> set vs then map_option f (get_service b s) else get_service b s)))"
  using assms
proof (induction vs arbitrary: s)
  case (Cons v vs)
  obtain sv where sv: "get_service v s = Some sv" using Cons.prems(2) [of v] by auto
  note P = set_service_proj [OF sv, where v = "f sv"]
  have "\<And>w. w \<in> set vs \<Longrightarrow> get_service w (set_service v (f sv) s) \<noteq> None" using Cons.prems P by auto
  from Cons.IH [OF _ this] Cons.prems(1)
  have "runs (foreach (\<lambda>v. upd_service v f) vs (set_service v (f sv) s)) (\<lambda>t. service_list t = service_list (set_service v (f sv) s) \<and>
      (\<forall>b. get_service b t = (if b \<in> set vs then map_option f (get_service b (set_service v (f sv) s)) else get_service b (set_service v (f sv) s))))"
    by simp
  then show ?case
    using Cons.prems(1) sv P by (simp add: upd_service_eq [OF sv]) (erule runs_mono, auto)
qed simp

abbreviation drained :: "service \<Rightarrow> service" where
  "drained sv \<equiv> sv\<lparr>flood := (if flood sv - flood_grace sv < 0 then 0 else flood sv - flood_grace sv)\<rparr>"

lemma update_service_floodcount_runs:
  assumes "distinct (service_list s)" "\<And>v. v \<in> set (service_list s) \<Longrightarrow> get_service v s \<noteq> None"
  shows "runs (update_service_floodcount s) (\<lambda>t. service_list t = service_list s \<and>
    (\<forall>b. get_service b t = (if b \<in> set (service_list s) then map_option drained (get_service b s) else get_service b s)))"
  unfolding update_service_floodcount_def by (rule foreach_upd_service [OF assms])

lemma floodcount_updates_runs:
  assumes "distinct (service_list s)" "\<And>v. v \<in> set (service_list s) \<Longrightarrow> get_service v s \<noteq> None"
    and v: "v \<in> set (service_list s)" "get_service v s = Some sv" "0 \<le> flood_grace sv"
  shows "runs (floodcount_updates (Suc n) s) (\<lambda>t. \<exists>sv'. get_service v t = Some sv' \<and> flood sv' = max 0 (flood sv - int (Suc n) * flood_grace sv))"
  using assms
proof (induction n arbitrary: s sv)
  case 0
  show ?case
    using update_service_floodcount_runs [OF 0(1,2)] 0(3,4) by (simp add: runs_def) (auto intro!: exI simp: max_def)
next
  case (Suc n)
  show ?case
    unfolding floodcount_updates.simps(2) [of "Suc n"]
  proof (rule runs_seq [OF update_service_floodcount_runs [OF Suc.prems(1,2)]])
    fix t assume t: "service_list t = service_list s \<and>
      (\<forall>b. get_service b t = (if b \<in> set (service_list s) then map_option drained (get_service b s) else get_service b s))"
    have "get_service v t = Some (drained sv)" using t Suc.prems(3,4) by simp
    with Suc.IH [of t "drained sv"] t Suc.prems
    have "runs (floodcount_updates (Suc n) t) (\<lambda>u. \<exists>sv'. get_service v u = Some sv' \<and>
        flood sv' = max 0 (flood (drained sv) - int (Suc n) * flood_grace sv))" by auto
    moreover have "max 0 (flood (drained sv) - int (Suc n) * flood_grace sv) = max 0 (flood sv - int (Suc (Suc n)) * flood_grace sv)"
      using Suc.prems(5) by (simp add: max_def algebra_simps) (smt (verit) mult_nonneg_nonneg of_nat_0_le_iff)
    ultimately show "runs (floodcount_updates (Suc n) t) (\<lambda>u. \<exists>sv'. get_service v u = Some sv' \<and>
        flood sv' = max 0 (flood sv - int (Suc (Suc n)) * flood_grace sv))" by simp
  qed
qed

text \<open>
  The flood count of a service. After \<open>n\<close> periodic updates the count is what is left of it after \<open>n\<close> times the service's grace,
  and never below zero. Where the configuration gives the service a positive grace, the count is zero after as many updates as it had units;
  with the grace of zero, with which every service is registered, it does not fall.
\<close>

theorem service_flood_drains:
  assumes "net_ok s" and "v \<in> set (service_list s)" and "get_service v s = Some sv" and "0 \<le> flood_grace sv" and "0 < n"
  shows "\<exists>s' sv'. floodcount_updates n s = Some s' \<and> get_service v s' = Some sv' \<and>
    flood sv' = max 0 (flood sv - int n * flood_grace sv) \<and> (0 < flood_grace sv \<and> flood sv \<le> int n \<longrightarrow> flood sv' = 0) \<and>
    (flood_grace sv = 0 \<and> 0 \<le> flood sv \<longrightarrow> flood sv' = flood sv)"
proof -
  have sv: "distinct (service_list s)" "\<And>v. v \<in> set (service_list s) \<Longrightarrow> get_service v s \<noteq> None"
    using net_okD(4) [OF assms(1)] by (auto simp: services_ok_def service_chans_def)
  obtain m where n: "n = Suc m" using assms(5) by (cases n) auto
  have "flood sv - int n * flood_grace sv \<le> 0" if "0 < flood_grace sv" "flood sv \<le> int n"
    using that by (smt (verit) mult_le_cancel_left1 of_nat_0_le_iff)
  then show ?thesis
    using floodcount_updates_runs [OF sv assms(2-4), of m] unfolding n runs_def by fastforce
qed

subsection \<open>Who is logged in\<close>

text \<open>The user's masks and the name given select the block \<open>p\<close> of the configuration, and the password is that of the block.\<close>

definition credentials :: "svc_env \<Rightarrow> parv \<Rightarrow> user \<Rightarrow> net \<Rightarrow> addr \<Rightarrow> conf_oper \<Rightarrow> bool" where
  "credentials V ps u s p co \<longleftrightarrow> 2 \<le> length ps \<and> find_conf_oper (username u) (host u) (servername u) (arg ps 0) s = Some (Some p) \<and>
     conf_opers s p = Some co \<and>
     strcmp (if op_flags co AND CONF_OPER_ENCRYPTED \<noteq> 0 then crypt_pass V (arg ps 1) (op_pass co) else arg ps 1) (op_pass co) = 0"

lemma credentials_listed:
  assumes "state_ok s" "credentials V ps u s p co"
  shows "p \<in> set (conf_oper_list s) \<and> oper_matches (username u) (host u) (servername u) (arg ps 0) co"
  using find_conf_oper_runs [OF assms(1), of "username u" "host u" "servername u" "arg ps 0"] assms(2) by (auto simp: credentials_def)

definition logged_in :: "svc_env \<Rightarrow> addr \<Rightarrow> user \<Rightarrow> addr \<Rightarrow> conf_oper \<Rightarrow> net \<Rightarrow> net \<Rightarrow> bool" where
  "logged_in V a u p co s t \<longleftrightarrow> conf_opers t = (conf_opers s)(p \<mapsto> co\<lparr>refcount := refcount co + 1\<rparr>) \<and>
     oper_list t = dlinkAdd (rb_ptrs (lib (senv V))) a (oper_list s) \<and> get_user a t = Some (u\<lparr>oper := Some p\<rparr>)"

lemma same_login_notice: "svc_notice V b m s = Some t \<Longrightarrow> same_login a s t"
  by (auto simp: svc_notice_def bind_eq_Some_conv intro: same_login_quiet)

lemma same_login_user_flood: "user_flood b n s = Some t \<Longrightarrow> same_login a s t"
  unfolding user_flood_def by (erule same_login_user) simp

lemma quiet_user: "quiet t s \<Longrightarrow> get_user a t = get_user a s \<and> oper_list t = oper_list s"
  using quiet_fields(1) [of t s] quiet_same_clients [of t s] by (simp add: get_user_def same_clients_def)

context svc_base
begin

lemma login_step:
  assumes u: "get_user a t = Some u" and r: "do {
     s \<leftarrow> svc_notice V a txt t;
     s \<leftarrow> upd_user a (\<lambda>u. u\<lparr>oper := Some p\<rparr>) s;
     let s = s\<lparr>conf_opers := (conf_opers s)(p \<mapsto> co\<lparr>refcount := refcount co + 1\<rparr>), oper_list := dlinkAdd (rb_ptrs (lib (senv V))) a (oper_list s)\<rparr>;
     Some (watch_send V lvl a op msg s) } = Some t'"
  shows "logged_in V a u p co t t'"
proof -
  obtain cl where cl: "clients t a = Some cl" using u by (auto simp: get_user_def bind_eq_Some_conv)
  let ?t = "sendto_server (['':'', MYUID (senv V) t, '' NOTICE '', UID cl, '' :''] @ txt) t"
  let ?w = "(set_user a (u\<lparr>oper := Some p\<rparr>) ?t)\<lparr>conf_opers := (conf_opers ?t)(p \<mapsto> co\<lparr>refcount := refcount co + 1\<rparr>),
    oper_list := dlinkAdd (rb_ptrs (lib (senv V))) a (oper_list ?t)\<rparr>"
  have n: "svc_notice V a txt t = Some ?t" using cl by (simp add: svc_notice_def)
  have q: "quiet ?t t" by simp
  have u1: "get_user a ?t = Some u" using u quiet_user [OF q] by simp
  have t': "t' = watch_send V lvl a op msg ?w" using r n upd_user_eq [OF u1, of "\<lambda>u. u\<lparr>oper := Some p\<rparr>"] by (simp add: Let_def)
  have q': "quiet t' ?w" unfolding t' by (rule watch_quiet)
  have "get_user a ?w = Some (u\<lparr>oper := Some p\<rparr>)"
    using set_user_proj(7) [OF u1, of a "u\<lparr>oper := Some p\<rparr>"] by (simp add: get_user_def)
  then show ?thesis
    using quiet_user [OF q'] quiet_opers [OF q'] quiet_user [OF q] quiet_opers [OF q] by (simp add: logged_in_def)
qed

lemma svc_ologin_result:
  assumes st: "state_ok t" and u: "get_user a t = Some u" "oper u = None" and run: "svc_ologin V v a ps t = Some t'"
  shows "(\<exists>p co. credentials V ps u t p co \<and> logged_in V a u p co t t') \<or> \<not> (\<exists>p co. credentials V ps u t p co) \<and> same_login a t t'"
proof -
  obtain r where r: "find_conf_oper (username u) (host u) (servername u) (arg ps 0) t = Some r"
    using find_conf_oper_runs [OF st, of "username u" "host u" "servername u" "arg ps 0"] by (auto simp: runs_def)
  obtain sc where sc: "clients t v = Some sc" using run u by (auto simp: svc_ologin_def bind_eq_Some_conv)
  note D = run [unfolded svc_ologin_def u(1) sc bind.bind_lunit u(2)]
  consider "length ps < 2" | "2 \<le> length ps" "r = None" | p where "2 \<le> length ps" "r = Some p" by (cases r) fastforce+
  then show ?thesis
  proof cases
    case 1
    then show ?thesis using D
      by (auto simp: credentials_def bind_eq_Some_conv dest!: same_login_notice [where a = a] same_login_user_flood [where a = a] intro: same_login_trans)
  next
    case 2
    then show ?thesis using D r
      by (auto simp: credentials_def bind_eq_Some_conv dest!: same_login_notice [where a = a] same_login_user_flood [where a = a] intro: same_login_trans)
  next
    case 3
    then obtain co where co: "conf_opers t p = Some co"
      using find_conf_oper_runs [OF st, of "username u" "host u" "servername u" "arg ps 0"] r by auto
    let ?ok = "strcmp (if op_flags co AND CONF_OPER_ENCRYPTED \<noteq> 0 then crypt_pass V (arg ps 1) (op_pass co) else arg ps 1) (op_pass co) = 0"
    have c: "credentials V ps u t q co' \<longleftrightarrow> q = p \<and> co' = co \<and> ?ok" for q co' using 3 r co by (auto simp: credentials_def)
    show ?thesis
    proof (cases ?ok)
      case True
      have l: "\<not> length ps < 2" using 3 by simp
      have "do { s \<leftarrow> svc_notice V a [''Oper login successful''] t;
          s \<leftarrow> upd_user a (\<lambda>u. u\<lparr>oper := Some p\<rparr>) s;
          let s = s\<lparr>conf_opers := (conf_opers s)(p \<mapsto> co\<lparr>refcount := refcount co + 1\<rparr>), oper_list := dlinkAdd (rb_ptrs (lib (senv V))) a (oper_list s)\<rparr>;
          Some (watch_send V WATCH_AUTH a True ''has logged in (irc)'' s) } = Some t'"
        using D [unfolded r 3 bind.bind_lunit option.case co] True l by (simp only: Let_def if_False simp_thms)
      then have "logged_in V a u p co t t'" by (rule login_step [OF u(1)])
      moreover have "credentials V ps u t p co" using True by (simp only: c)
      ultimately show ?thesis by (intro disjI1 exI conjI)
    next
      case False
      then have "svc_notice V a [''Invalid password''] t = Some t'" using D 3 r co by simp
      then have "same_login a t t'" by (rule same_login_notice)
      then show ?thesis unfolding c using False by simp
    qed
  qed
qed

end

subsection \<open>Examples\<close>

definition sample_svc :: svc_env where
  "sample_svc = \<lparr>senv = sample_env, lang_notice = (\<lambda>m _ args. concat (m # args)), crypt_pass = (\<lambda>p _. p),
     help_file = (\<lambda>_ _. None), helpadmin_file = (\<lambda>_ _. None), cmd_help = (\<lambda>_ _ _. None),
     cmd_func = (\<lambda>_ _. Some (\<lambda>a ps s. Some (1, s))), watch_send = (\<lambda>_ _ _ _ s. s), rsdb_exec = (\<lambda>_ _ s. s)\<rparr>"

definition sample_cmd :: "string \<Rightarrow> service_command" where
  "sample_cmd nm = \<lparr>cmd = nm, minparc = 0, help_penalty = 1, helpfile = False, cmd_use = 0, userreg = False, operonly = True, operflags = 0\<rparr>"

lemma sample_services: "get_service 2 sample_net = Some sample_service" "get_user 1 sample_net = Some sample_user"
  by (simp_all add: get_service_def get_user_def sample_clients_def)

theorem merged_commands_found_witness:
  "mset (merge_commands [sample_cmd ''OP''] [sample_cmd ''INVITE'']) = {#sample_cmd ''OP'', sample_cmd ''INVITE''#} \<and>
   bsearch (scmd_compare ''op'') (merge_commands [sample_cmd ''OP''] [sample_cmd ''INVITE'']) = Some 1"
proof -
  have "distinct_cmds ([sample_cmd ''OP''] @ [sample_cmd ''INVITE''])" by code_simp
  from merged_commands_found [OF this, of "''op''"]
  have "mset (merge_commands [sample_cmd ''OP''] [sample_cmd ''INVITE'']) = {#sample_cmd ''OP'', sample_cmd ''INVITE''#}" by (simp add: cstring_def)
  moreover have "bsearch (scmd_compare ''op'') (merge_commands [sample_cmd ''OP''] [sample_cmd ''INVITE'']) = Some 1" by code_simp
  ultimately show ?thesis ..
qed

definition served_net :: net where
  "served_net = set_service 2 (sample_service\<lparr>command := Some [sample_cmd ''OP''], flood := 12\<rparr>) sample_net"

lemma served_net_proj:
  "get_service 2 served_net = Some (sample_service\<lparr>command := Some [sample_cmd ''OP''], flood := 12\<rparr>)" "get_user 1 served_net = Some sample_user"
  "service_list served_net = [2]" "now served_net = 200"
  using set_service_proj [OF sample_services(1)] sample_services by (simp_all add: served_net_def sample_net_def)

lemma served_net_ok: "state_ok served_net"
proof -
  have "net_ok served_net" unfolding served_net_def by (rule net_ok_set_service [OF state_okD(1) [OF sample_state_ok] sample_services(1)]) simp
  then show ?thesis
    using sample_state_ok set_service_proj(4) [OF sample_services(1)] by (simp add: state_ok_def alive_def served_net_def)
qed

theorem command_needs_access_witness:
  "handle_service (sample_svc\<lparr>cmd_func := (\<lambda>_ _. None)\<rparr>) 2 1 ''op'' [] False served_net = handle_service sample_svc 2 1 ''op'' [] False served_net"
proof (rule command_needs_access [OF served_net_proj(1)])
  have "\<not> granted (sample_cmd ''OP'') 1 served_net"
    by (simp add: granted_iff served_net_proj(2) no_access_def sample_cmd_def user_is_oper_def sample_user_def del: One_nat_def)
  then show "\<not> (\<exists>e. e \<in> set [sample_cmd ''OP''] \<and> strcasecmp ''op'' (cmd e) = 0 \<and> granted e 1 served_net)" by simp
qed simp

theorem service_flood_drains_witness:
  "\<exists>s' sv'. floodcount_updates 3 served_net = Some s' \<and> get_service 2 s' = Some sv' \<and> flood sv' = 0"
  using service_flood_drains [OF state_okD(1) [OF served_net_ok] _ served_net_proj(1), of 3] by (fastforce simp: served_net_proj(3) sample_service_def)

theorem flooding_user_ignored_witness:
  "handle_service sample_svc 2 1 ''op'' [] False (set_user 1 (sample_user\<lparr>flood_count := 11, flood_time := 195\<rparr>) served_net) =
     Some (set_service 2 (sample_service\<lparr>command := Some [sample_cmd ''OP''], flood := 12, ignored_count := 1\<rparr>)
       (set_user 1 (sample_user\<lparr>flood_count := 12, flood_time := 195\<rparr>) (set_user 1 (sample_user\<lparr>flood_count := 11, flood_time := 195\<rparr>) served_net)))"
proof -
  let ?u = "sample_user\<lparr>flood_count := 11, flood_time := 195\<rparr>"
  let ?s = "set_user 1 ?u served_net"
  have "state_ok (set_user 1 ((\<lambda>u. u\<lparr>flood_count := 11, flood_time := 195\<rparr>) sample_user) served_net)"
    by (rule state_ok_upd_user [OF served_net_ok served_net_proj(2)]) simp_all
  then have ok: "state_ok ?s" by simp
  have p: "get_user 1 ?s = Some ?u" "get_service 2 ?s = get_service 2 served_net" "now ?s = 200" "sendq ?s = sendq served_net"
    using set_user_proj [OF served_net_proj(2), where u = ?u] served_net_proj by (simp_all add: set_user_def)
  have "ignore_list ?s = []" by (simp add: set_user_def served_net_def set_service_def sample_net_def empty_net_def)
  then have "svc_ignored ?u ''op'' ?s = Some False" by (simp add: svc_ignored_def find_ignore_def)
  then show ?thesis
    using flooding_user_ignored [OF ok p(1) _ p(2) [unfolded served_net_proj(1)], of sample_svc "''op''" "[]" False] p
    by (auto simp: sample_user_def sample_service_def sample_svc_def sample_env_def sample_config_def)
qed

end
