(* ===== verification/Operbot.thy ===== *)
theory Operbot
  imports Service_Dispatch Tools
begin

section \<open>Operbot: a service behind the dispatch (src/s\_operbot.c)\<close>

text \<open>
  OperBot sits in channels for the opers of the network: with the right flag they make it join (OBJOIN) and part
  (OBPART), and any oper can have itself invited (INVITE) and opped (OP) where it is. The
  functions are those called for a user of the network; calls from the console of the daemon are
  not modelled, nor is the log file of \<open>zlog\<close>. The table of the commands and the functions
  meet the contract of the dispatch: \<open>svc_ok\<close> is interpreted on them, with the event
  function of OperBot registered beside that of JupeServ.
\<close>

abbreviation CONF_OPER_OB_CHANNEL :: "64 word" where "CONF_OPER_OB_CHANNEL \<equiv> 0x00100000"
abbreviation SERVICE_WALLOPADM :: u32 where "SERVICE_WALLOPADM \<equiv> 0x040"
abbreviation WATCH_OPERBOT :: u32 where "WATCH_OPERBOT \<equiv> 0x00000004"

definition operbot_command :: "service_command list" where
  "operbot_command =
     [\<lparr>cmd = ''OBJOIN'', minparc = 1, help_penalty = 1, helpfile = False, cmd_use = 0, userreg = False, operonly = False, operflags = CONF_OPER_OB_CHANNEL\<rparr>,
      \<lparr>cmd = ''OBPART'', minparc = 1, help_penalty = 1, helpfile = False, cmd_use = 0, userreg = False, operonly = False, operflags = CONF_OPER_OB_CHANNEL\<rparr>,
      \<lparr>cmd = ''INVITE'', minparc = 1, help_penalty = 1, helpfile = False, cmd_use = 0, userreg = False, operonly = True, operflags = 0\<rparr>,
      \<lparr>cmd = ''OP'', minparc = 0, help_penalty = 1, helpfile = False, cmd_use = 0, userreg = False, operonly = True, operflags = 0\<rparr>]"

definition service_snd :: "svc_env \<Rightarrow> addr \<Rightarrow> addr \<Rightarrow> string \<Rightarrow> string list \<Rightarrow> net \<Rightarrow> net option" where
  "service_snd V service_p client_p msgid args s = do {
     sc \<leftarrow> clients s service_p;
     sv \<leftarrow> service sc;
     cl \<leftarrow> clients s client_p;
     Some (sendto_server ['':'', if svc_flags sv AND SERVICE_MSGSELF \<noteq> 0 then SVC_UID sc s else MYUID (senv V) s,
       '' NOTICE '', UID cl, '' :'', take (BUFSIZE - 1) (lang_notice V msgid client_p args)] s)
   }"

definition OPER_NAME :: "addr \<Rightarrow> net \<Rightarrow> string option" where
  "OPER_NAME client_p s = do {
     u \<leftarrow> get_user client_p s;
     case oper u of None \<Rightarrow> Some ''-'' | Some p \<Rightarrow> do { co \<leftarrow> conf_opers s p; Some (op_name co) }
   }"

definition OPER_MASK :: "addr \<Rightarrow> net \<Rightarrow> string option" where
  "OPER_MASK client_p s = do { u \<leftarrow> get_user client_p s; Some (usermask u) }"

definition zlog :: "svc_env \<Rightarrow> addr \<Rightarrow> int \<Rightarrow> u32 \<Rightarrow> bool \<Rightarrow> addr \<Rightarrow> string \<Rightarrow> net \<Rightarrow> net option" where
  "zlog V service_p loglevel watchlevel op client_p buf s = do {
     sc \<leftarrow> clients s service_p;
     sv \<leftarrow> service sc;
     let buf = take (BUFSIZE - 1) buf;
     s \<leftarrow> (if loglevel = 1 \<and> svc_flags sv AND SERVICE_WALLOPADM \<noteq> 0 then do {
             nm \<leftarrow> OPER_NAME client_p s;
             ms \<leftarrow> OPER_MASK client_p s;
             Some (sendto_server ['':'', MYUID (senv V) s, '' WALLOPS :'', name sc, '': '', nm, '' '', ms, '' '', buf] s)
           } else Some s);
     Some (if watchlevel \<noteq> 0 then watch_send V watchlevel client_p op buf s else s)
   }"

text \<open>The first parameter: without one the array holds nothing to read.\<close>

definition parv0 :: "parv \<Rightarrow> string option" where
  "parv0 ps = (case ps of [] \<Rightarrow> None | p # _ \<Rightarrow> Some p)"

definition on_channel :: "rblib \<Rightarrow> addr \<Rightarrow> addr option \<Rightarrow> net \<Rightarrow> bool option" where
  "on_channel L operbot_p r s = (case r of None \<Rightarrow> Some False | Some c \<Rightarrow> do { ch \<leftarrow> chans s c; Some (dlinkFind (rb_ptrs L) operbot_p (services ch)) })"

definition sql_quote :: "string \<Rightarrow> string" where
  "sql_quote t = char_of (39 :: nat) # t @ [char_of (39 :: nat)]"

definition h_operbot_sjoin_lowerts :: "rblib \<Rightarrow> (string \<Rightarrow> string list \<Rightarrow> net \<Rightarrow> net) \<Rightarrow> addr \<Rightarrow> hook_func" where
  "h_operbot_sjoin_lowerts L exec operbot_p a b s =
     (case a of
        ArgChannel c \<Rightarrow> do {
          ch \<leftarrow> chans s c;
          if \<not> dlinkFind (rb_ptrs L) operbot_p (services ch) then Some (0, s)
          else Some (0, exec (''UPDATE operbot SET tsinfo = '' @ sql_quote ''%lu'' @ '' WHERE chname = '' @ sql_quote ''%Q'') [lu (ch_tsinfo ch), lcase (chname ch)] s)
        }
      | _ \<Rightarrow> None)"

definition o_operbot_objoin :: "svc_env \<Rightarrow> addr \<Rightarrow> svc_func" where
  "o_operbot_objoin V operbot_p client_p ps s = do {
     p \<leftarrow> parv0 ps;
     sc \<leftarrow> clients s operbot_p;
     if \<not> valid_chname p then do { s \<leftarrow> service_snd V operbot_p client_p ''SVC_IRC_CHANNELINVALID'' [p] s; Some (0, s) }
     else do {
       r \<leftarrow> find_channel p s;
       on \<leftarrow> on_channel (lib (senv V)) operbot_p r s;
       if on then do {
         c \<leftarrow> r;
         ch \<leftarrow> chans s c;
         s \<leftarrow> service_snd V operbot_p client_p ''SVC_IRC_ALREADYONCHANNEL'' [name sc, chname ch] s;
         Some (0, s)
       }
       else do {
         s \<leftarrow> zlog V operbot_p 1 WATCH_OPERBOT True client_p (''OBJOIN '' @ p) s;
         ts \<leftarrow> (case r of None \<Rightarrow> Some (now s) | Some c \<Rightarrow> do { ch \<leftarrow> chans s c; Some (ch_tsinfo ch) });
         nm \<leftarrow> OPER_NAME client_p s;
         let s = rsdb_exec V (''INSERT INTO operbot (chname, tsinfo, oper) VALUES('' @ sql_quote ''%Q'' @ '', '' @ sql_quote ''%lu'' @ '', '' @ sql_quote ''%Q'' @ '')'') [lcase p, lu ts, nm] s;
         s \<leftarrow> join_service (senv V) operbot_p p ts None False s;
         s \<leftarrow> service_snd V operbot_p client_p ''SVC_SUCCESSFULON'' [name sc, ''OBJOIN'', p] s;
         Some (0, s)
       }
     }
   }"

definition o_operbot_obpart :: "svc_env \<Rightarrow> addr \<Rightarrow> svc_func" where
  "o_operbot_obpart V operbot_p client_p ps s = do {
     p \<leftarrow> parv0 ps;
     sc \<leftarrow> clients s operbot_p;
     (parted, s) \<leftarrow> part_service (senv V) operbot_p p s;
     if parted then do {
       s \<leftarrow> zlog V operbot_p 1 WATCH_OPERBOT True client_p (''OBPART '' @ p) s;
       let s = rsdb_exec V (''DELETE FROM operbot WHERE chname = '' @ sql_quote ''%Q'') [lcase p] s;
       s \<leftarrow> service_snd V operbot_p client_p ''SVC_SUCCESSFULON'' [name sc, ''OBPART'', p] s;
       Some (0, s)
     }
     else do {
       s \<leftarrow> service_snd V operbot_p client_p ''SVC_IRC_NOTINCHANNEL'' [name sc, p] s;
       Some (0, s)
     }
   }"

definition s_operbot_invite :: "svc_env \<Rightarrow> addr \<Rightarrow> svc_func" where
  "s_operbot_invite V operbot_p client_p ps s = do {
     p \<leftarrow> parv0 ps;
     r \<leftarrow> find_channel p s;
     sc \<leftarrow> clients s operbot_p;
     sv \<leftarrow> service sc;
     case r of
       None \<Rightarrow> do { s \<leftarrow> service_err V operbot_p client_p ''SVC_IRC_CHANNELINVALID'' [p] s; Some (1, s) }
     | Some c \<Rightarrow>
         if \<not> dlinkFind (rb_ptrs (lib (senv V))) c (svc_channels sv)
         then do { s \<leftarrow> service_err V operbot_p client_p ''SVC_IRC_CHANNELINVALID'' [p] s; Some (1, s) }
         else do {
           m \<leftarrow> find_chmember c client_p s;
           if m \<noteq> None then Some (1, s)
           else do {
             cl \<leftarrow> clients s client_p;
             ch \<leftarrow> chans s c;
             Some (1, sendto_server ['':'', SVC_UID sc s, '' INVITE '', UID cl, '' '', chname ch] s)
           }
         }
   }"

text \<open>Op the client where it is a member and not opped.\<close>

definition operbot_op_in :: "svc_env \<Rightarrow> addr \<Rightarrow> addr \<Rightarrow> addr \<Rightarrow> net \<Rightarrow> net option" where
  "operbot_op_in V operbot_p client_p c s = do {
     sc \<leftarrow> clients s operbot_p;
     r \<leftarrow> find_chmember c client_p s;
     case r of
       None \<Rightarrow> Some s
     | Some m \<Rightarrow> do {
         mp \<leftarrow> members s m;
         if is_opped mp then Some s
         else do {
           s \<leftarrow> op_chmember (lib (senv V)) m s;
           ch \<leftarrow> chans s c;
           cl \<leftarrow> clients s client_p;
           Some (sendto_server ['':'', SVC_UID sc s, '' MODE '', chname ch, '' +o '', UID cl] s)
         }
       }
   }"

definition s_operbot_op :: "svc_env \<Rightarrow> addr \<Rightarrow> svc_func" where
  "s_operbot_op V operbot_p client_p ps s = do {
     sv \<leftarrow> get_service operbot_p s;
     case ps of
       [] \<Rightarrow> do { s \<leftarrow> foreach (operbot_op_in V operbot_p client_p) (svc_channels sv) s; Some (1, s) }
     | p # _ \<Rightarrow> do {
         r \<leftarrow> find_channel p s;
         case r of
           None \<Rightarrow> do { s \<leftarrow> service_err V operbot_p client_p ''SVC_IRC_CHANNELINVALID'' [p] s; Some (1, s) }
         | Some c \<Rightarrow>
             if \<not> dlinkFind (rb_ptrs (lib (senv V))) c (svc_channels sv)
             then do { s \<leftarrow> service_err V operbot_p client_p ''SVC_IRC_CHANNELINVALID'' [p] s; Some (1, s) }
             else do { s \<leftarrow> operbot_op_in V operbot_p client_p c s; Some (1, s) }
       }
   }"

definition operbot_func :: "svc_env \<Rightarrow> addr \<Rightarrow> string \<Rightarrow> svc_func option" where
  "operbot_func V operbot_p c =
     (if c = ''OBJOIN'' then Some (o_operbot_objoin V operbot_p)
      else if c = ''OBPART'' then Some (o_operbot_obpart V operbot_p)
      else if c = ''INVITE'' then Some (s_operbot_invite V operbot_p)
      else if c = ''OP'' then Some (s_operbot_op V operbot_p)
      else None)"

subsection \<open>The functions meet the contract\<close>

abbreviation here :: "addr \<Rightarrow> addr \<Rightarrow> addr list \<Rightarrow> net \<Rightarrow> bool" where
  "here v a us t \<equiv> served (\<lambda>c. True) v a us t"

lemma here_same_clients:
  assumes t: "here v a us t" and u: "net_ok u" "same_clients u t"
  shows "here v a us u"
proof -
  obtain x sv where x: "state_ok t" "get_user a t = Some x" "get_service v t = Some sv" "user_list t = us" using t by (rule servedE)
  have "state_ok u" using x(1) u by (auto simp: state_ok_def alive_def same_clients_def)
  moreover obtain x' where "get_user a u = Some x'" using same_clients_user [OF u(2) x(2)] by blast
  moreover obtain sv' where "get_service v u = Some sv'" using same_clients_service [OF u(2) x(3)] by blast
  moreover have "user_list u = us" using u(2) x(4) by (simp add: same_clients_def)
  ultimately show ?thesis by (simp add: served_def)
qed

lemma service_snd_eq: "service_snd = service_err"
  by (simp add: fun_eq_iff service_snd_def service_err_def service_error_def)

lemma oper_name_total:
  assumes "served G v a us t" "a \<in> set us"
  shows "runs (OPER_NAME a t) (\<lambda>n. True)" "runs (OPER_MASK a t) (\<lambda>n. True)"
proof -
  obtain u where u: "state_ok t" "get_user a t = Some u" "user_list t = us" using assms(1) by (rule servedE)
  show "runs (OPER_MASK a t) (\<lambda>n. True)" using u by (simp add: OPER_MASK_def)
  show "runs (OPER_NAME a t) (\<lambda>n. True)"
  proof (cases "oper u")
    case (Some p)
    obtain co where "conf_opers t p = Some co" by (rule user_oper_allocated [OF u(1,2) Some]) (use assms u in simp_all)
    then show ?thesis using u Some by (simp add: OPER_NAME_def)
  qed (use u in \<open>simp add: OPER_NAME_def\<close>)
qed

context svc_base
begin

lemma zlog_runs:
  assumes t: "served G v a us t" "a \<in> set us"
  shows "runs (zlog V v lvl wl op a buf t) (\<lambda>s. quiet s t)"
proof (rule served_cases [OF t(1)])
  fix sc sv assume sc: "clients t v = Some sc" "service sc = Some sv"
  have 1: "runs (if lvl = 1 \<and> svc_flags sv AND SERVICE_WALLOPADM \<noteq> 0 then do {
             nm \<leftarrow> OPER_NAME a t;
             ms \<leftarrow> OPER_MASK a t;
             Some (sendto_server ['':'', MYUID (senv V) t, '' WALLOPS :'', name sc, '': '', nm, '' '', ms, '' '', take (BUFSIZE - 1) buf] t)
           } else Some t) (\<lambda>s. quiet s t)"
    by (intro runs_ifI runs_seq [OF oper_name_total(1) [OF t]] runs_seq [OF oper_name_total(2) [OF t]]) simp_all
  show ?thesis
    unfolding zlog_def sc Let_def bind.bind_lunit
    by (rule runs_seq [OF 1]) (auto intro: quiet_trans watch_quiet)
qed

lemma service_reply:
  assumes "here v a us t"
  shows "runs (do { s \<leftarrow> service_err V v a m args t; Some (n, s) }) (\<lambda>(r, s'). present v a s')"
  by (rule runs_seq [OF service_err_runs [OF assms]]) (auto intro: served_present)

lemma objoin_runs:
  assumes t: "here v a us t" "a \<in> set us" and p: "1 \<le> length ps" "list_all cstring ps"
  shows "runs (o_operbot_objoin V v a ps t) (\<lambda>(r, s'). present v a s')"
proof (rule served_cases [OF t(1)])
  fix sc sv assume sc: "clients t v = Some sc"
  obtain q where q: "parv0 ps = Some q" "cstring q" using p by (cases ps) (auto simp: parv0_def)
  have n: "net_ok t" using t state_okD(1) by (auto simp: served_def)
  have join: "runs (do {
         s \<leftarrow> zlog V v 1 WATCH_OPERBOT True a (''OBJOIN '' @ q) t;
         ts \<leftarrow> (case r of None \<Rightarrow> Some (now s) | Some c \<Rightarrow> do { ch \<leftarrow> chans s c; Some (ch_tsinfo ch) });
         nm \<leftarrow> OPER_NAME a s;
         let s = rsdb_exec V (stmt :: string) [lcase q, lu ts, nm] s;
         s \<leftarrow> join_service (senv V) v q ts None False s;
         s \<leftarrow> service_snd V v a ''SVC_SUCCESSFULON'' [name sc, ''OBJOIN'', q] s;
         Some (0, s) }) (\<lambda>(r, s'). present v a s')"
    if r: "\<And>c. r = Some c \<Longrightarrow> chans t c \<noteq> None" and len: "length q \<le> CHANNELLEN" for r stmt
  proof (rule runs_seq [OF zlog_runs [OF t]])
    fix s assume s: "quiet s t"
    have h: "here v a us s" by (rule served_quiet [OF t(1) s])
    have ts: "runs (case r of None \<Rightarrow> Some (now s) | Some c \<Rightarrow> do { ch \<leftarrow> chans s c; Some (ch_tsinfo ch) }) (\<lambda>x. True)"
      using r quiet_fields(2) [OF s] by (cases r) auto
    have j: "runs (join_service (senv V) v q ts None False (rsdb_exec V stmt args s)) (here v a us)" for ts args
    proof (rule served_cases [OF served_quiet [OF h rsdb_quiet]])
      fix sv assume sv: "get_service v (rsdb_exec V stmt args s) = Some sv"
      have h': "here v a us (rsdb_exec V stmt args s)" by (rule served_quiet [OF h rsdb_quiet])
      then have "net_ok (rsdb_exec V stmt args s)" using state_okD(1) by (auto simp: served_def)
      from join_service_runs [OF this sv q(2) len] show ?thesis by (rule runs_mono) (use here_same_clients [OF h'] in blast)
    qed
    show "runs (do {
         ts \<leftarrow> (case r of None \<Rightarrow> Some (now s) | Some c \<Rightarrow> do { ch \<leftarrow> chans s c; Some (ch_tsinfo ch) });
         nm \<leftarrow> OPER_NAME a s;
         let s = rsdb_exec V stmt [lcase q, lu ts, nm] s;
         s \<leftarrow> join_service (senv V) v q ts None False s;
         s \<leftarrow> service_snd V v a ''SVC_SUCCESSFULON'' [name sc, ''OBJOIN'', q] s;
         Some (0, s) }) (\<lambda>(r, s'). present v a s')"
      unfolding Let_def service_snd_eq
      by (intro runs_seq [OF ts] runs_seq [OF oper_name_total(1) [OF h t(2)]] runs_seq [OF j] service_reply)
  qed
  show ?thesis
    unfolding o_operbot_objoin_def q(1) sc bind.bind_lunit
  proof (rule runs_ifI)
    show "runs (do { s \<leftarrow> service_snd V v a ''SVC_IRC_CHANNELINVALID'' [q] t; Some (0, s) }) (\<lambda>(r, s'). present v a s')"
      unfolding service_snd_eq by (rule service_reply [OF t(1)])
  next
    assume "\<not> \<not> valid_chname q"
    then have len: "length q \<le> CHANNELLEN" by (simp add: valid_chname_def split: if_splits)
    show "runs (do {
       r \<leftarrow> find_channel q t;
       on \<leftarrow> on_channel (lib (senv V)) v r t;
       if on then do {
         c \<leftarrow> r;
         ch \<leftarrow> chans t c;
         s \<leftarrow> service_snd V v a ''SVC_IRC_ALREADYONCHANNEL'' [name sc, chname ch] t;
         Some (0, s)
       }
       else do {
         s \<leftarrow> zlog V v 1 WATCH_OPERBOT True a (''OBJOIN '' @ q) t;
         ts \<leftarrow> (case r of None \<Rightarrow> Some (now s) | Some c \<Rightarrow> do { ch \<leftarrow> chans s c; Some (ch_tsinfo ch) });
         nm \<leftarrow> OPER_NAME a s;
         let s = rsdb_exec V (''INSERT INTO operbot (chname, tsinfo, oper) VALUES('' @ sql_quote ''%Q'' @ '', '' @ sql_quote ''%lu'' @ '', '' @ sql_quote ''%Q'' @ '')'') [lcase q, lu ts, nm] s;
         s \<leftarrow> join_service (senv V) v q ts None False s;
         s \<leftarrow> service_snd V v a ''SVC_SUCCESSFULON'' [name sc, ''OBJOIN'', q] s;
         Some (0, s)
       } }) (\<lambda>(r, s'). present v a s')"
      (is "runs (do { r \<leftarrow> find_channel q t; ?rest r }) _")
    proof (rule runs_seq [OF find_channel_runs [OF n, where Q = "\<lambda>r. \<forall>c. r = Some c \<longrightarrow> chans t c \<noteq> None"]])
      fix r assume r: "\<forall>c. r = Some c \<longrightarrow> chans t c \<noteq> None"
      then have "runs (on_channel (lib (senv V)) v r t) (\<lambda>b. b \<longrightarrow> r \<noteq> None)" by (cases r) (auto simp: on_channel_def)
      then show "runs (?rest r) (\<lambda>(r, s'). present v a s')"
        by (rule runs_seq) (intro runs_ifI join, use r len service_reply [OF t(1)] in \<open>auto simp: service_snd_eq simp del: runs_bind\<close>)
    qed simp_all
  qed
qed

lemma obpart_runs:
  assumes t: "here v a us t" "a \<in> set us" and p: "1 \<le> length ps"
  shows "runs (o_operbot_obpart V v a ps t) (\<lambda>(r, s'). present v a s')"
proof (rule served_cases [OF t(1)])
  fix sc sv assume sc: "clients t v = Some sc" "get_service v t = Some sv"
  obtain q where q: "parv0 ps = Some q" using p by (cases ps) (auto simp: parv0_def)
  have n: "net_ok t" using t state_okD(1) by (auto simp: served_def)
  have part: "runs (part_service (senv V) v q t) (\<lambda>(b, s). here v a us s)"
    by (rule runs_mono [OF part_service_runs [OF n sc(2)]]) (use here_same_clients [OF t(1)] in blast)
  show ?thesis
    unfolding o_operbot_obpart_def q sc(1) bind.bind_lunit
  proof (rule runs_seq [OF part])
    fix x :: "bool \<times> net" assume "case x of (b, s) \<Rightarrow> here v a us s"
    then obtain b s where x: "x = (b, s)" and s: "here v a us s" by (cases x) auto
    have "runs (do {
        s \<leftarrow> zlog V v 1 WATCH_OPERBOT True a (''OBPART '' @ q) s;
        let s = rsdb_exec V (stmt :: string) [lcase q] s;
        s \<leftarrow> service_err V v a ''SVC_SUCCESSFULON'' [name sc, ''OBPART'', q] s;
        Some (0, s) }) (\<lambda>(r, s'). present v a s')" for stmt
      unfolding Let_def
      by (rule runs_seq [OF zlog_runs [OF s t(2)]], rule service_reply, rule served_quiet [OF served_quiet [OF s] rsdb_quiet])
    then show "runs (case x of (parted, s) \<Rightarrow> if parted then do {
         s \<leftarrow> zlog V v 1 WATCH_OPERBOT True a (''OBPART '' @ q) s;
         let s = rsdb_exec V (''DELETE FROM operbot WHERE chname = '' @ sql_quote ''%Q'') [lcase q] s;
         s \<leftarrow> service_snd V v a ''SVC_SUCCESSFULON'' [name sc, ''OBPART'', q] s;
         Some (0, s) }
       else do { s \<leftarrow> service_snd V v a ''SVC_IRC_NOTINCHANNEL'' [name sc, q] s; Some (0, s) }) (\<lambda>(r, s'). present v a s')"
      unfolding x prod.case service_snd_eq by (intro runs_ifI service_reply [OF s])
  qed
qed

lemma find_existing: "net_ok t \<Longrightarrow> runs (find_channel q t) (\<lambda>r. \<forall>c. r = Some c \<longrightarrow> chans t c \<noteq> None)"
  by (rule find_channel_runs) simp_all

lemma invite_runs:
  assumes t: "here v a us t" and p: "1 \<le> length ps"
  shows "runs (s_operbot_invite V v a ps t) (\<lambda>(r, s'). present v a s')"
proof (rule served_cases [OF t])
  fix sc sv u cl assume sc: "clients t v = Some sc" "service sc = Some sv" and u: "get_user a t = Some u" "clients t a = Some cl"
  obtain q where q: "parv0 ps = Some q" using p by (cases ps) (auto simp: parv0_def)
  have n: "net_ok t" using t state_okD(1) by (auto simp: served_def)
  have m: "runs (find_chmember c a t) (\<lambda>m. True)" if "chans t c \<noteq> None" for c
    by (rule find_chmember_runs) (use n u that in simp_all)
  have inv: "runs (do {
           m \<leftarrow> find_chmember c a t;
           if m \<noteq> None then Some (1, t)
           else do {
             cl \<leftarrow> clients t a;
             ch \<leftarrow> chans t c;
             Some (1, sendto_server ['':'', SVC_UID sc t, '' INVITE '', UID cl, '' '', chname ch] t)
           } }) (\<lambda>(r, s'). present v a s')" if c: "chans t c \<noteq> None" for c
    by (rule runs_seq [OF m [OF c]], rule runs_ifI) (use t u c served_present [OF t] served_present [OF served_send [OF t]] in auto)
  show ?thesis
    unfolding s_operbot_invite_def q sc bind.bind_lunit
    by (rule runs_seq [OF find_existing [OF n]], intro runs_optI runs_ifI service_reply [OF t] inv) simp
qed

lemma op_in_runs:
  assumes s: "here v a us t" and t: "moded t s" and c: "chans t c \<noteq> None"
  shows "runs (operbot_op_in V v a c s) (moded t)"
proof -
  have h: "here v a us s" by (rule here_same_clients [OF s]) (use modedD [OF t] in auto)
  show ?thesis
  proof (rule served_cases [OF h])
    fix sc cl u assume sc: "clients s v = Some sc" and u: "get_user a s = Some u" "clients s a = Some cl"
    obtain ch where ch: "chans s c = Some ch" using moded_chan [OF t c] by blast
    have f: "runs (find_chmember c a s) (\<lambda>r. \<forall>m. r = Some m \<longrightarrow> (\<exists>mp. members s m = Some mp))"
      by (rule find_chmember_runs) (use modedD(1) [OF t] ch u in simp_all)
    show ?thesis
      unfolding operbot_op_in_def sc bind.bind_lunit
    proof (rule runs_seq [OF f], rule runs_optI)
      fix r m assume r: "\<forall>m. r = Some m \<longrightarrow> (\<exists>mp. members s m = Some mp)" "r = Some m"
      then obtain mp where mp: "members s m = Some mp" by blast
      have go: "runs (do { s' \<leftarrow> op_chmember (lib (senv V)) m s; ch \<leftarrow> chans s' c; cl \<leftarrow> clients s' a;
          Some (sendto_server ['':'', SVC_UID sc s', '' MODE '', chname ch, '' +o '', UID cl] s') }) (moded t)"
      proof (rule runs_seq [OF op_chmember_moded [OF t mp]])
        fix w assume w: "moded t w \<and> members w = (if is_opped mp then members s
          else (members s)(m \<mapsto> mp\<lparr>mflags := (mflags mp AND NOT MODE_DEOPPED) OR MODE_OPPED\<rparr>))"
        obtain ch' where "chans w c = Some ch'" using moded_chan [of t w c] w c by blast
        moreover have "here v a us w" by (rule here_same_clients [OF s]) (use w modedD [of t w] in auto)
        then obtain cl' where "clients w a = Some cl'" by (rule servedE)
        ultimately show "runs (do { ch \<leftarrow> chans w c; cl \<leftarrow> clients w a;
            Some (sendto_server ['':'', SVC_UID sc w, '' MODE '', chname ch, '' +o '', UID cl] w) }) (moded t)"
          using w moded_quiet [OF _ quiet_sendto_server] by simp
      qed
      show "runs (do { mp \<leftarrow> members s m; if is_opped mp then Some s else do { s \<leftarrow> op_chmember (lib (senv V)) m s; ch \<leftarrow> chans s c; cl \<leftarrow> clients s a;
          Some (sendto_server ['':'', SVC_UID sc s, '' MODE '', chname ch, '' +o '', UID cl] s) } }) (moded t)"
        unfolding mp bind.bind_lunit by (intro runs_ifI go) (use t in simp)
    qed (use t in simp)
  qed
qed

lemma op_runs:
  assumes t: "here v a us t"
  shows "runs (s_operbot_op V v a ps t) (\<lambda>(r, s'). present v a s')"
proof (rule served_cases [OF t])
  fix sv assume sv: "get_service v t = Some sv"
  have n: "net_ok t" using t state_okD(1) by (auto simp: served_def)
  have fin: "present v a s" if "moded t s" for s
    by (rule served_present [OF here_same_clients [OF t]]) (use modedD [OF that] in auto)
  have all: "runs (foreach (operbot_op_in V v a) (svc_channels sv) t) (moded t)"
  proof (rule runs_foreach)
    fix c s assume c: "c \<in> set (svc_channels sv)" and s: "moded t s"
    have "service_chans t v = Some (svc_channels sv)" using sv by (simp add: service_chans_def)
    then have "chan_services t c \<noteq> None" using net_okD(4) [OF n] c unfolding services_ok_def by blast
    then show "runs (operbot_op_in V v a c s) (moded t)" using op_in_runs [OF t s] by (auto simp: chan_services_def)
  qed (rule moded_refl [OF n])
  show ?thesis
  proof (cases ps)
    case Nil
    show ?thesis unfolding s_operbot_op_def sv Nil list.case bind.bind_lunit
      by (rule runs_seq [OF all]) (use fin in simp)
  next
    case (Cons q qs)
    show ?thesis unfolding s_operbot_op_def sv Cons list.case bind.bind_lunit
      by (rule runs_seq [OF find_existing [OF n]], intro runs_optI runs_ifI service_reply [OF t] runs_seq [OF op_in_runs [OF t moded_refl [OF n]]])
        (use fin in simp_all)
  qed
qed

end

subsection \<open>Registration\<close>

text \<open>
  The environment of the dispatch with OperBot's functions registered for the client \<open>operbot_p\<close>. Its
  table is sorted as \<open>add_service\<close> does. The environment of the daemon has its event function beside that of JupeServ.
\<close>

definition operbot_svc :: "svc_env \<Rightarrow> addr \<Rightarrow> svc_env" where
  "operbot_svc V operbot_p = V\<lparr>cmd_func := (\<lambda>v c. if v = operbot_p then operbot_func V operbot_p c else None)\<rparr>"

definition operbot_table :: "service_command list" where
  "operbot_table = qsort scmd_sort operbot_command"

lemma operbot_svc_ok:
  assumes "svc_base V"
  shows "svc_ok (operbot_svc V w) (\<lambda>v. operbot_table)"
proof -
  have f: "senv (operbot_svc V w) = senv V" "watch_send (operbot_svc V w) = watch_send V" "rsdb_exec (operbot_svc V w) = rsdb_exec V"
    by (simp_all add: operbot_svc_def)
  have b: "svc_base (operbot_svc V w)" using assms unfolding svc_base_def svc_base_axioms_def f .
  show ?thesis
  proof (intro svc_ok.intro b svc_ok_axioms.intro)
    fix v a us s e ps g
    assume s: "served (like operbot_table) v a us s" and a: "a \<in> set us" and e: "e \<in> set operbot_table" "minparc e \<le> length ps"
      and ps: "list_all cstring ps" and g: "cmd_func (operbot_svc V w) v (cmd e) = Some g"
    have h: "here v a us s" by (rule served_mono [OF s]) simp
    have v: "v = w" and g': "operbot_func V w (cmd e) = Some g" using g by (auto simp: operbot_svc_def split: if_splits)
    have "e \<in> set operbot_command" using e(1) by (simp add: operbot_table_def)
    then consider "g = o_operbot_objoin V w" "1 \<le> length ps" | "g = o_operbot_obpart V w" "1 \<le> length ps"
      | "g = s_operbot_invite V w" "1 \<le> length ps" | "g = s_operbot_op V w"
      using e(2) g' by (auto simp: operbot_command_def operbot_func_def)
    then show "runs (g a ps s) (\<lambda>(r, s'). present v a s')"
      by cases (use svc_base.objoin_runs [OF assms h a _ ps] svc_base.obpart_runs [OF assms h a] svc_base.invite_runs [OF assms h]
          svc_base.op_runs [OF assms h] v in simp_all)
  qed
qed

definition operbot_env :: "config \<Rightarrow> server_jupe list \<Rightarrow> (string \<Rightarrow> string list \<Rightarrow> net \<Rightarrow> net) \<Rightarrow> addr \<Rightarrow> env" where
  "operbot_env cf js exec operbot_p = hook_add (h_operbot_sjoin_lowerts list_rblib exec operbot_p) HOOK_CHANNEL_SJOIN_LOWERTS (jupe_env cf js)"

text \<open>The parameters instantiated: plain texts, a password hash \<open>cr\<close>, no help files, and a watcher and a database that only listen.\<close>

definition plain_svc :: "config \<Rightarrow> server_jupe list \<Rightarrow> (string \<Rightarrow> string \<Rightarrow> string) \<Rightarrow> addr \<Rightarrow> svc_env" where
  "plain_svc cf js cr operbot_p = \<lparr>senv = operbot_env cf js (\<lambda>_ _ s. s) operbot_p, lang_notice = (\<lambda>m _ args. concat (m # args)), crypt_pass = cr,
     help_file = (\<lambda>_ _. None), helpadmin_file = (\<lambda>_ _. None), cmd_help = (\<lambda>_ _ _. None), cmd_func = (\<lambda>_ _. None),
     watch_send = (\<lambda>_ _ _ _ s. s), rsdb_exec = (\<lambda>_ _ s. s)\<rparr>"

lemma operbot_env_simps [simp]:
  "lib (operbot_env cf js ex w) = list_rblib" "coper_lib (operbot_env cf js ex w) = list_dlink" "config_file (operbot_env cf js ex w) = cf"
  "hooks (operbot_env cf js ex w) h = hooks (jupe_env cf js) h @ (if h = HOOK_CHANNEL_SJOIN_LOWERTS then [h_operbot_sjoin_lowerts list_rblib ex w] else [])"
  by (auto simp: operbot_env_def hook_add_def)

interpretation obenv: env_ok "operbot_env cf js ex w" for cf js ex w
proof (rule env_ok.intro)
  fix h f a b and s :: net
  assume "h \<in> set passive_hooks" "f \<in> set (hooks (operbot_env cf js ex w) h)"
  then show "\<exists>r q. f a b s = Some (r, s\<lparr>sendq := q\<rparr>)"
    by (intro jupe.passive_hook [of h f cf js]) (auto simp: passive_hooks_def)
qed (simp_all add: list_rb.rblib_ok_axioms list_dl.dlink_ok_axioms)

interpretation obbase: svc_base "plain_svc cf js cr w" for cf js cr w
proof (intro svc_base.intro env_active.intro svc_base_axioms.intro env_active_axioms.intro)
  show "env_ok (senv (plain_svc cf js cr w))" by (simp add: plain_svc_def obenv.env_ok_axioms)
next
  fix h c b and s :: net assume "h \<in> set chan_hooks" "net_ok s" "chans s c \<noteq> None"
  then show "runs (hook_call (senv (plain_svc cf js cr w)) h (ArgChannel c) b s)
      (\<lambda>(r, s'). net_ok s' \<and> same_clients s' s \<and> (h \<noteq> HOOK_CHANNEL_JOIN \<longrightarrow> chan_frame s' s))"
    by (auto simp: plain_svc_def hook_call_def chan_hooks_def h_operbot_sjoin_lowerts_def)
qed (simp_all add: plain_svc_def)

interpretation obsvc: svc_ok "operbot_svc (plain_svc cf js cr w) w" "\<lambda>v. operbot_table" for cf js cr w
  by (rule operbot_svc_ok [OF obbase.svc_base_axioms])

subsection \<open>What the dispatch guarantees\<close>

lemma here_intro:
  assumes "state_ok s" "a \<in> set (user_list s)" "get_service v s = Some sv" "G (command sv)"
  shows "served G v a (user_list s) s"
proof -
  have "kind s a = Some (True, False, False)" using net_okD(5) [OF state_okD(1) [OF assms(1)]] assms(2) unfolding links_ok_def by blast
  then have "get_user a s \<noteq> None" by (auto simp: kind_def get_user_def)
  then show ?thesis using assms by (simp add: served_def)
qed

text \<open>
  C6. A command to a service always comes to an end in a well-formed state. Whatever a user of the network sends to a service
  - help, a login, a registered command with or without access, or nonsense - the dispatch follows
  only pointers to live data, the table of operator blocks stays counted, and the user and the
  service are still there to be charged for the command.
\<close>

theorem handle_service_safe:
  assumes "svc_ok V tab" and "state_ok s" and "a \<in> set (user_list s)" and "get_service v s = Some sv" and "like (tab v) (command sv)"
    and "list_all cstring ps"
  shows "\<exists>s'. handle_service V v a nm ps msg s = Some s' \<and> state_ok s' \<and> get_user a s' \<noteq> None \<and> get_service v s' \<noteq> None"
  using svc_ok.handle_service_runs [OF assms(1) here_intro [of s a v sv "like (tab v)", OF assms(2-5)] assms(3,6), of nm msg]
  by (auto simp: runs_def served_def)

text \<open>
  C14. Who logs in as an oper. A user is logged in with a block exactly when the block is the one that the user's masks and the given name
  select and the password is right; such a block is in the configuration and not dead. The
  counts of the blocks stay right.
\<close>

theorem ologin_authenticates:
  assumes "svc_base V" and "state_ok s" and "a \<in> set (user_list s)" and "get_user a s = Some u" and "oper u = None"
    and "get_service v s = Some sv"
  shows "\<exists>s'. svc_ologin V v a ps s = Some s' \<and> state_ok s' \<and> (\<forall>p. user_oper s' a = Some p \<longleftrightarrow> (\<exists>co. credentials V ps u s p co)) \<and>
    (\<forall>p co. credentials V ps u s p co \<longrightarrow> p \<in> set (conf_oper_list s) \<and> op_flags co AND CONF_DEAD = 0 \<and>
      oper_matches (username u) (host u) (servername u) (arg ps 0) co)"
proof -
  have "here v a (user_list s) s" by (rule here_intro [OF assms(2,3,6)]) simp
  from svc_base.svc_ologin_runs [OF assms(1) this assms(3), of ps]
  obtain s' where s': "svc_ologin V v a ps s = Some s'" "state_ok s'" by (auto simp: runs_def served_def)
  have uniq: "p = q" if "credentials V ps u s p co" "credentials V ps u s q co'" for p q co co' using that by (simp add: credentials_def)
  from svc_base.svc_ologin_result [OF assms(1,2,4,5) s'(1)]
  have "user_oper s' a = Some p \<longleftrightarrow> (\<exists>co. credentials V ps u s p co)" for p
  proof (elim disjE exE conjE)
    fix q co assume c: "credentials V ps u s q co" "logged_in V a u q co s s'"
    then have "user_oper s' a = Some q" by (simp add: logged_in_def user_oper_def)
    then show ?thesis using c(1) uniq [of p _ q co] by auto
  next
    assume n: "\<not> (\<exists>p co. credentials V ps u s p co)" and l: "same_login a s s'"
    then have "user_oper s' a = None" using assms(4,5) by (auto simp: same_login_def user_oper_def)
    then show ?thesis using n by simp
  qed
  then show ?thesis using s' credentials_listed [OF assms(2)] by (auto simp: oper_matches_def)
qed

context svc_base
begin

lemma svc_ologout_result:
  assumes u: "get_user a t = Some u" "oper u = Some p" and co: "conf_opers t p = Some co" "op_flags co AND CONF_DEAD = 0"
    and run: "svc_ologout V a t = Some t'"
  shows "conf_opers t' = (conf_opers t)(p \<mapsto> co\<lparr>refcount := refcount co - 1\<rparr>) \<and>
    oper_list t' = find_destroy (lib (senv V)) a (oper_list t) \<and> user_oper t' a = None"
proof -
  let ?t = "watch_send V WATCH_AUTH a True ''has logged out (irc)'' t"
  let ?w = "?t\<lparr>conf_opers := (conf_opers ?t)(p \<mapsto> co\<lparr>refcount := refcount co - 1\<rparr>)\<rparr>"
  let ?x = "(set_user a (u\<lparr>oper := None\<rparr>) ?w)\<lparr>oper_list := find_destroy (lib (senv V)) a (oper_list ?w)\<rparr>"
  have q: "quiet ?t t" by (rule watch_quiet)
  note Q = quiet_opers [OF q] quiet_user [OF q, of a]
  have d: "deallocate_conf_oper p ?t = Some ?w" using co Q by (simp add: deallocate_conf_oper_def Let_def)
  have uw: "get_user a ?w = Some u" using u Q by (simp add: get_user_def)
  have "svc_notice V a [''Oper logout successful''] ?x = Some t'"
    using run unfolding svc_ologout_def u bind.bind_lunit option.case Let_def d upd_user_eq [OF uw] by (simp add: set_user_def)
  then have q': "quiet t' ?x" by (auto simp: svc_notice_def bind_eq_Some_conv)
  have "get_user a ?x = Some (u\<lparr>oper := None\<rparr>)" using set_user_proj(7) [OF uw, of a "u\<lparr>oper := None\<rparr>"] by (simp add: get_user_def)
  then show ?thesis using quiet_opers [OF q'] quiet_user [OF q', of a] Q by (simp add: user_oper_def)
qed

lemma login_logout_runs:
  assumes s: "here v a us s" "a \<in> set us" and u: "get_user a s = Some u" "oper u = None" and c: "credentials V ps u s p co"
    and t: "svc_ologin V v a ps s = Some t"
  shows "logged_in V a u p co s t \<and> a \<in> set (oper_list t) \<and> runs (svc_ologout V a t) (\<lambda>t'. state_ok t' \<and> user_oper t' a = None \<and>
    conf_opers t' = conf_opers s \<and> mset (oper_list t') = mset (oper_list s))"
proof -
  have st: "state_ok s" using s(1) by (simp add: served_def)
  have L: "logged_in V a u p co s t" using svc_ologin_result [OF st u t] c by (auto simp: credentials_def)
  have t1: "here v a us t" using svc_ologin_runs [OF s, of ps] t by simp
  have co: "conf_opers s p = Some co" "op_flags co AND CONF_DEAD = 0"
    using c credentials_listed [OF st c] by (auto simp: credentials_def oper_matches_def)
  have T: "get_user a t = Some (u\<lparr>oper := Some p\<rparr>)" "oper (u\<lparr>oper := Some p\<rparr>) = Some p"
    "conf_opers t p = Some (co\<lparr>refcount := refcount co + 1\<rparr>)" "op_flags (co\<lparr>refcount := refcount co + 1\<rparr>) AND CONF_DEAD = 0"
    "mset (oper_list t) = add_mset a (mset (oper_list s))" "conf_opers t = (conf_opers s)(p \<mapsto> co\<lparr>refcount := refcount co + 1\<rparr>)"
    using L co by (simp_all add: logged_in_def ptrs.mset_Add)
  have a: "a \<in> set (oper_list t)" using T(5) by (metis set_mset_mset union_single_eq_member)
  obtain t' where t': "svc_ologout V a t = Some t'" "here v a us t'" using svc_ologout_runs [OF t1 s(2)] by (auto simp: runs_def)
  note O = svc_ologout_result [OF T(1-4) t'(1)]
  have "conf_opers t' = conf_opers s" using O T(6) co(1) by (simp add: fun_upd_idem)
  moreover have "mset (oper_list t') = mset (oper_list s)" using O a T(5) by (simp add: find_destroy_def ptrs.Find_iff ptrs.mset_Delete)
  ultimately show ?thesis using L a t' O by (simp add: served_def)
qed

end

text \<open>
  C25. Logging out undoes a login: after a login with a block and a logout, every operator block has the
  reference count it had, the list of opers has the same members, and the user holds no block.
\<close>

theorem login_logout:
  assumes "svc_base V" and "state_ok s" and "a \<in> set (user_list s)" and "get_user a s = Some u" and "oper u = None"
    and "get_service v s = Some sv" and "credentials V ps u s p co"
  shows "\<exists>t t'. svc_ologin V v a ps s = Some t \<and> user_oper t a = Some p \<and> a \<in> set (oper_list t) \<and>
    svc_ologout V a t = Some t' \<and> state_ok t' \<and> user_oper t' a = None \<and> conf_opers t' = conf_opers s \<and> mset (oper_list t') = mset (oper_list s)"
proof -
  have h: "here v a (user_list s) s" by (rule here_intro [OF assms(2,3,6)]) simp
  from svc_base.svc_ologin_runs [OF assms(1) h assms(3), of ps]
  obtain t where t: "svc_ologin V v a ps s = Some t" by (auto simp: runs_def)
  from svc_base.login_logout_runs [OF assms(1) h assms(3-5,7) t] t show ?thesis
    by (auto simp: runs_def logged_in_def user_oper_def)
qed

text \<open>The memberships of \<open>a\<close> in the channels of \<open>C\<close> are opped, and no others change.\<close>

definition opped_in :: "addr \<Rightarrow> addr set \<Rightarrow> net \<Rightarrow> net \<Rightarrow> bool" where
  "opped_in a C s w \<longleftrightarrow> (\<forall>m mp. members s m = Some mp \<longrightarrow>
     (\<exists>mp'. members w m = Some mp' \<and> mclient mp' = mclient mp \<and> chptr mp' = chptr mp \<and> (is_opped mp \<longrightarrow> is_opped mp') \<and>
       (if mclient mp = a \<and> chptr mp \<in> C then is_opped mp' else mp' = mp)))"

lemma opped_in_trans:
  assumes "opped_in a {c} s w" "opped_in a C w x"
  shows "opped_in a (insert c C) s x"
  unfolding opped_in_def
proof (intro allI impI)
  fix m mp assume "members s m = Some mp"
  then obtain mp1 where 1: "members w m = Some mp1" "mclient mp1 = mclient mp" "chptr mp1 = chptr mp" "is_opped mp \<longrightarrow> is_opped mp1"
    "if mclient mp = a \<and> chptr mp \<in> {c} then is_opped mp1 else mp1 = mp" using assms(1) unfolding opped_in_def by blast
  then obtain mp2 where 2: "members x m = Some mp2" "mclient mp2 = mclient mp1" "chptr mp2 = chptr mp1" "is_opped mp1 \<longrightarrow> is_opped mp2"
    "if mclient mp1 = a \<and> chptr mp1 \<in> C then is_opped mp2 else mp2 = mp1" using assms(2) unfolding opped_in_def by blast
  show "\<exists>mp'. members x m = Some mp' \<and> mclient mp' = mclient mp \<and> chptr mp' = chptr mp \<and> (is_opped mp \<longrightarrow> is_opped mp') \<and>
      (if mclient mp = a \<and> chptr mp \<in> insert c C then is_opped mp' else mp' = mp)"
    using 1 2 by (intro exI [of _ mp2]) (auto split: if_splits)
qed

text \<open>The channels in which \<open>a\<close> is without ops, and the lines that op a client in those of a list.\<close>

definition unopped_in :: "addr \<Rightarrow> addr \<Rightarrow> net \<Rightarrow> bool" where
  "unopped_in a c s \<longleftrightarrow> (\<exists>m mp. members s m = Some mp \<and> chptr mp = c \<and> mclient mp = a \<and> \<not> is_opped mp)"

definition op_lines :: "client \<Rightarrow> client \<Rightarrow> addr \<Rightarrow> addr list \<Rightarrow> net \<Rightarrow> string list" where
  "op_lines sc cl a cs s = map (\<lambda>c. '':'' @ SVC_UID sc s @ '' MODE '' @ the (chan_key s c) @ '' +o '' @ UID cl) (filter (\<lambda>c. unopped_in a c s) cs)"

lemma op_chmember_keeps:
  assumes "op_chmember L m s = Some t"
  shows "sendq t = sendq s" "server_p t = server_p s" "clients t = clients s"
  using assms by (auto simp: op_chmember_def upd_member_def upd_chan_def set_member_def set_chan_def bind_eq_Some_conv split: if_splits)

lemma op_lines_others:
  assumes "opped_in a {c} s w" "dom (members w) = dom (members s)" "chan_key w = chan_key s" "server_p w = server_p s" "c \<notin> set cs"
  shows "op_lines sc cl a cs w = op_lines sc cl a cs s"
proof -
  have "unopped_in a d w = unopped_in a d s" if "d \<noteq> c" for d
  proof
    assume "unopped_in a d w"
    then obtain m mp where m: "members w m = Some mp" "chptr mp = d" "mclient mp = a" "\<not> is_opped mp" by (auto simp: unopped_in_def)
    obtain mq where q: "members s m = Some mq" using m(1) assms(2) by blast
    have "mp = mq" using assms(1) q m that unfolding opped_in_def by (metis option.inject singletonD)
    then show "unopped_in a d s" using m q by (auto simp: unopped_in_def)
  next
    assume "unopped_in a d s"
    then obtain m mp where m: "members s m = Some mp" "chptr mp = d" "mclient mp = a" "\<not> is_opped mp" by (auto simp: unopped_in_def)
    have "members w m = Some mp" using assms(1) m that unfolding opped_in_def by (metis singletonD)
    then show "unopped_in a d w" using m by (auto simp: unopped_in_def)
  qed
  then have "filter (\<lambda>d. unopped_in a d w) cs = filter (\<lambda>d. unopped_in a d s) cs" using assms(5) by (intro filter_cong) metis+
  then show ?thesis using assms(3,4) by (simp add: op_lines_def SVC_UID_def ts6_def)
qed

context svc_base
begin

lemma op_in_effect:
  assumes h: "here v a us s" and c: "chans s c \<noteq> None" and run: "operbot_op_in V v a c s = Some w"
  shows "opped_in a {c} s w"
proof -
  obtain u cl sc where u: "state_ok s" "get_user a s = Some u" "clients s v = Some sc" using h by (rule servedE)
  have ok: "members_ok s" "chans_ok s" using state_okD(1) [OF u(1)] by (auto simp: net_ok_alt chans_ok_def)
  obtain ch where ch: "chans s c = Some ch" using c by blast
  obtain r where r: "find_chmember c a s = Some r" "\<And>m. r = Some m \<longleftrightarrow> (\<exists>mp. members s m = Some mp \<and> chptr mp = c \<and> mclient mp = a)"
    using find_chmember_total [OF ok(1) ch u(2)] by metis
  show ?thesis
  proof (cases r)
    case None
    have "w = s" using run r(1) None u(3) by (simp add: operbot_op_in_def)
    moreover have "\<not> (chptr mp = c \<and> mclient mp = a)" if "members s m = Some mp" for m mp using r(2) [of m] None that by blast
    ultimately show ?thesis by (auto simp: opped_in_def)
  next
    case (Some k)
    obtain kp where k: "members s k = Some kp" "chptr kp = c" "mclient kp = a" using r(2) [of k] Some by blast
    have uniq: "m = k" if "members s m = Some mp" "chptr mp = c" "mclient mp = a" for m mp using r(2) [of m] Some that by blast
    show ?thesis
    proof (cases "is_opped kp")
      case True
      have "w = s" using run r(1) Some k(1) u(3) True by (simp add: operbot_op_in_def)
      moreover have "is_opped mp" if "members s m = Some mp" "chptr mp = c" "mclient mp = a" for m mp
        using uniq [OF that] that(1) k(1) True by simp
      ultimately show ?thesis by (simp add: opped_in_def)
    next
      case False
      obtain x where x: "op_chmember (lib (senv V)) k s = Some x"
        "members x = (if is_opped kp then members s else (members s)(k \<mapsto> kp\<lparr>mflags := (mflags kp AND NOT MODE_DEOPPED) OR MODE_OPPED\<rparr>))"
        by (rule op_chmember_ok [OF ok(2) k(1)])
      have "members w = members x" using run r(1) Some k(1) False u(3) x(1) by (auto simp: operbot_op_in_def bind_eq_Some_conv quiet_fields(3) [OF quiet_sendto_server])
      then have w: "members w = (members s)(k \<mapsto> kp\<lparr>mflags := (mflags kp AND NOT MODE_DEOPPED) OR MODE_OPPED\<rparr>)" using x(2) False by simp
      have o: "is_opped (kp\<lparr>mflags := (mflags kp AND NOT MODE_DEOPPED) OR MODE_OPPED\<rparr>)"
        by (simp add: is_opped_def bit.conj_disj_distrib2)
      show ?thesis
        unfolding opped_in_def
      proof (intro allI impI)
        fix m mp assume m: "members s m = Some mp"
        show "\<exists>mp'. members w m = Some mp' \<and> mclient mp' = mclient mp \<and> chptr mp' = chptr mp \<and> (is_opped mp \<longrightarrow> is_opped mp') \<and>
            (if mclient mp = a \<and> chptr mp \<in> {c} then is_opped mp' else mp' = mp)"
          using w o m k uniq [OF m] by (cases "m = k") auto
      qed
    qed
  qed
qed

lemma op_in_sends:
  assumes h: "here v a us s" and c: "chans s c \<noteq> None" and run: "operbot_op_in V v a c s = Some w"
    and up: "server_p s = Some conn" "conn_flags conn AND CONN_DEAD = 0" and cl: "clients s v = Some sc" "clients s a = Some cl"
  shows "sendq w = sendq s @ op_lines sc cl a [c] s \<and> server_p w = server_p s \<and> clients w = clients s"
proof -
  obtain u where u: "state_ok s" "get_user a s = Some u" using h by (auto elim: servedE)
  have ok: "members_ok s" "chans_ok s" using state_okD(1) [OF u(1)] by (auto simp: net_ok_alt chans_ok_def)
  obtain ch where ch: "chans s c = Some ch" using c by blast
  obtain r where r: "find_chmember c a s = Some r" "\<And>m. r = Some m \<longleftrightarrow> (\<exists>mp. members s m = Some mp \<and> chptr mp = c \<and> mclient mp = a)"
    using find_chmember_total [OF ok(1) ch u(2)] by metis
  consider (out) "r = None" | (in') k kp where "r = Some k" "members s k = Some kp" "chptr kp = c" "mclient kp = a"
    using r(2) by (cases r) blast+
  then show ?thesis
  proof cases
    case out
    then have "w = s" "\<not> unopped_in a c s" using run r cl(1) by (auto simp: operbot_op_in_def unopped_in_def)
    then show ?thesis by (simp add: op_lines_def)
  next
    case in'
    have "m = k" if "members s m = Some mp" "chptr mp = c" "mclient mp = a" for m mp using r(2) [of m] in'(1) that by blast
    then have uniq: "unopped_in a c s \<longleftrightarrow> \<not> is_opped kp" using in' unfolding unopped_in_def by (metis option.inject)
    show ?thesis
    proof (cases "is_opped kp")
      case True
      then have "w = s" using run r(1) in' cl(1) by (simp add: operbot_op_in_def)
      then show ?thesis using uniq True by (simp add: op_lines_def)
    next
      case False
      obtain x where x: "op_chmember (lib (senv V)) k s = Some x" "chan_key x = chan_key s"
        by (rule op_chmember_ok [OF ok(2) in'(2)])
      note k = op_chmember_keeps [OF x(1)]
      obtain cx where cx: "chans x c = Some cx" "chname cx = chname ch"
        using fun_cong [OF x(2), of c] ch by (auto simp: chan_key_def)
      have "w = sendto_server ['':'', SVC_UID sc x, '' MODE '', chname cx, '' +o '', UID cl] x"
        using run r(1) in' cl k x(1) cx(1) False by (simp add: operbot_op_in_def)
      then show ?thesis using uniq False k up cx ch by (simp add: op_lines_def sendto_server_def SVC_UID_def ts6_def chan_key_def)
    qed
  qed
qed

lemma op_everywhere:
  assumes t: "here v a us t"
  shows "set cs \<subseteq> {c. chans t c \<noteq> None} \<Longrightarrow> moded t s \<Longrightarrow> distinct cs \<Longrightarrow> server_p s = Some conn \<Longrightarrow> conn_flags conn AND CONN_DEAD = 0 \<Longrightarrow>
    clients s v = Some sc \<Longrightarrow> clients s a = Some cl \<Longrightarrow>
    runs (foreach (operbot_op_in V v a) cs s) (\<lambda>w. moded t w \<and> opped_in a (set cs) s w \<and> sendq w = sendq s @ op_lines sc cl a cs s)"
proof (induction cs arbitrary: s)
  case (Cons c cs)
  have h: "here v a us s" by (rule here_same_clients [OF t]) (use modedD [OF Cons.prems(2)] in auto)
  have c: "chans t c \<noteq> None" "chans s c \<noteq> None" using Cons.prems moded_chan [OF Cons.prems(2)] by auto
  show ?case
    unfolding foreach.simps
  proof (rule runs_seq)
    show "runs (operbot_op_in V v a c s) (\<lambda>w. moded t w \<and> opped_in a {c} s w \<and> sendq w = sendq s @ op_lines sc cl a [c] s \<and> server_p w = server_p s \<and> clients w = clients s)"
      using op_in_runs [OF t Cons.prems(2) c(1)] op_in_effect [OF h c(2)] op_in_sends [OF h c(2) _ Cons.prems(4-7)] by (auto simp: runs_def)
  next
    fix w assume w: "moded t w \<and> opped_in a {c} s w \<and> sendq w = sendq s @ op_lines sc cl a [c] s \<and> server_p w = server_p s \<and> clients w = clients s"
    have sub: "set cs \<subseteq> {c. chans t c \<noteq> None}" "distinct cs" using Cons.prems(1,3) by simp_all
    have "op_lines sc cl a cs w = op_lines sc cl a cs s"
      by (rule op_lines_others [of a c]) (use w Cons.prems modedD [of t] in auto)
    then have l: "op_lines sc cl a [c] s @ op_lines sc cl a cs w = op_lines sc cl a (c # cs) s" by (simp add: op_lines_def)
    show "runs (foreach (operbot_op_in V v a) cs w) (\<lambda>x. moded t x \<and> opped_in a (set (c # cs)) s x \<and> sendq x = sendq s @ op_lines sc cl a (c # cs) s)"
      by (rule runs_mono [OF Cons.IH [OF sub(1) _ sub(2)]]) (use w l Cons.prems opped_in_trans in auto)
  qed
qed (auto simp: opped_in_def op_lines_def)

end

text \<open>
  C27. OP without a channel ops the caller, and only the caller: after it the caller is opped in every channel
  that OperBot is in and the caller too, and every other membership - of others, or in channels without
  OperBot - is as it was. The network is told: one line MODE +o for each of those channels in which the caller was not
  opped, in the order of OperBot's channels, and no other line, is sent to the uplink.
\<close>

theorem operbot_ops_caller:
  assumes "svc_base V" and "state_ok s" and "a \<in> set (user_list s)" and "get_service v s = Some sv"
    and "clients s v = Some sc" and "clients s a = Some cl" and "server_p s = Some conn" and "conn_flags conn AND CONN_DEAD = 0"
  shows "\<exists>s'. s_operbot_op V v a [] s = Some (1, s') \<and> net_ok s' \<and> dom (members s') = dom (members s) \<and>
    opped_in a (set (svc_channels sv)) s s' \<and> sendq s' = sendq s @ op_lines sc cl a (svc_channels sv) s"
proof -
  have h: "here v a (user_list s) s" by (rule here_intro [OF assms(2-4)]) simp
  have n: "net_ok s" by (rule state_okD [OF assms(2)])
  have sc: "service_chans s v = Some (svc_channels sv)" using assms(4) by (simp add: service_chans_def)
  have d: "distinct (svc_channels sv)" using net_okD(4) [OF n] sc unfolding services_ok_def by blast
  have "set (svc_channels sv) \<subseteq> {c. chans s c \<noteq> None}"
  proof
    fix c assume "c \<in> set (svc_channels sv)"
    then have "chan_services s c \<noteq> None" using net_okD(4) [OF n] sc unfolding services_ok_def by blast
    then show "c \<in> {c. chans s c \<noteq> None}" by (auto simp: chan_services_def)
  qed
  from svc_base.op_everywhere [OF assms(1) h this moded_refl [OF n] d assms(7,8,5,6)]
  obtain w where "foreach (operbot_op_in V v a) (svc_channels sv) s = Some w" "moded s w" "opped_in a (set (svc_channels sv)) s w"
    "sendq w = sendq s @ op_lines sc cl a (svc_channels sv) s"
    by (auto simp: runs_def)
  then show ?thesis using assms(4) modedD [of s w] by (intro exI [of _ w]) (auto simp: s_operbot_op_def)
qed

subsection \<open>Examples\<close>

text \<open>The sample network with OperBot's commands in the service and one operator block.\<close>

definition root_block :: conf_oper where
  "root_block = \<lparr>op_name = ''root'', op_username = ''*'', op_host = ''*'', op_pass = ''pw'', op_server = [], op_flags = 0,
     op_sflags = CONF_OPER_OB_CHANNEL, refcount = 0\<rparr>"

definition oper_net :: net where
  "oper_net = (set_service 2 (sample_service\<lparr>command := Some operbot_table\<rparr>) sample_net)\<lparr>conf_opers := [9 \<mapsto> root_block], conf_oper_list := [9]\<rparr>"

definition oper_svc :: svc_env where
  "oper_svc = operbot_svc (plain_svc sample_config [] (\<lambda>p _. p) 2) 2"

lemma oper_svc_ok: "svc_ok oper_svc (\<lambda>v. operbot_table)" "svc_base oper_svc"
proof -
  show "svc_ok oper_svc (\<lambda>v. operbot_table)" unfolding oper_svc_def by (rule obsvc.svc_ok_axioms)
  then show "svc_base oper_svc" by (rule svc_ok.axioms)
qed

lemma oper_net_proj:
  "get_service 2 oper_net = Some (sample_service\<lparr>command := Some operbot_table\<rparr>)" "get_user 1 oper_net = Some sample_user"
  "user_list oper_net = [1]" "conf_opers oper_net = [9 \<mapsto> root_block]" "conf_oper_list oper_net = [9]" "members oper_net = members sample_net"
  using set_service_proj [OF sample_services(1)] sample_services
  by (simp_all add: oper_net_def sample_net_def get_service_def get_user_def set_service_def)

lemma oper_net_ok: "state_ok oper_net"
proof -
  let ?s = "set_service 2 (sample_service\<lparr>command := Some operbot_table\<rparr>) sample_net"
  have n: "net_ok ?s" by (rule net_ok_set_service [OF sample_net_ok sample_services(1)]) simp
  have P: "keys oper_net = keys ?s" "kind oper_net = kind ?s" "parent oper_net = parent ?s" "dead oper_net = dead ?s" "server_lists oper_net = server_lists ?s"
    "chan_key oper_net = chan_key ?s" "chan_lists oper_net = chan_lists ?s" "chan_services oper_net = chan_services ?s"
    "service_chans oper_net = service_chans ?s" "user_chans oper_net = user_chans ?s" "user_oper oper_net = user_oper ?s" "user_link oper_net = user_link ?s"
    by (auto simp: projection_defs fun_eq_iff oper_net_def)
  have "user_oper ?s = (\<lambda>a. None)" "user_link ?s = (\<lambda>a. None)" "client_oper_list oper_net = []"
    using set_service_proj [OF sample_services(1)] sample_proj by (simp_all add: oper_net_def sample_net_def empty_net_def)
  then have "opers_ok oper_net" using P by (auto simp: opers_ok_def oper_refs_def oper_net_proj root_block_def split: if_splits)
  moreover have F: "name_table oper_net = name_table ?s" "uid_table oper_net = uid_table ?s" "channel_table oper_net = channel_table ?s"
    "channel_list oper_net = channel_list ?s" "members oper_net = members ?s" "service_list oper_net = service_list ?s" "deopped_list oper_net = deopped_list ?s"
    "user_list oper_net = user_list ?s" "server_list oper_net = server_list ?s" "exited_list oper_net = exited_list ?s" "next_addr oper_net = next_addr ?s"
    by (simp_all add: oper_net_def)
  ultimately have "net_ok oper_net"
    unfolding net_ok_def
    using net_okD [OF n] tables_ok_cong [of oper_net ?s] chtable_ok_cong [of oper_net ?s] members_ok_cong [of oper_net ?s] services_ok_cong [of oper_net ?s]
      links_ok_cong [of oper_net ?s] alloc_ok_cong [of oper_net ?s] listed_ok_cong [of oper_net ?s] P by simp
  moreover have "alive oper_net" using sample_state_ok P(4) F(9) set_service_proj(4) [OF sample_services(1)] by (simp add: state_ok_def alive_def)
  ultimately show ?thesis by (simp add: state_ok_def)
qed

lemma sample_credentials: "credentials oper_svc [''root'', ''pw''] sample_user oper_net 9 root_block"
proof -
  have "oper_matches ''al'' ''example.org'' ''hub.example.org'' ''root'' root_block" unfolding root_block_def by code_simp
  then show ?thesis
    by (simp add: credentials_def find_conf_oper_def oper_net_proj arg_def sample_user_def) (simp add: root_block_def)
qed

theorem handle_service_safe_witness:
  "\<exists>s'. handle_service oper_svc 2 1 ''op'' [''#a''] True oper_net = Some s' \<and> state_ok s'"
  using handle_service_safe [OF oper_svc_ok(1) oper_net_ok _ oper_net_proj(1), of 1 "[''#a'']" "''op''" True]
  by (auto simp: oper_net_proj(3) like_def cstring_def)

theorem ologin_authenticates_witness:
  "\<exists>s'. svc_ologin oper_svc 2 1 [''root'', ''pw''] oper_net = Some s' \<and> state_ok s' \<and> user_oper s' 1 = Some 9"
  using ologin_authenticates [OF oper_svc_ok(2) oper_net_ok _ oper_net_proj(2) _ oper_net_proj(1), of "[''root'', ''pw'']"] sample_credentials
  by (auto simp: oper_net_proj(3) sample_user_def)

theorem login_logout_witness:
  "\<exists>t t'. svc_ologin oper_svc 2 1 [''root'', ''pw''] oper_net = Some t \<and> svc_ologout oper_svc 1 t = Some t' \<and> conf_opers t' = [9 \<mapsto> root_block]"
  using login_logout [OF oper_svc_ok(2) oper_net_ok _ oper_net_proj(2) _ oper_net_proj(1) sample_credentials]
  by (auto simp: oper_net_proj sample_user_def)

text \<open>The same network, with OperBot in \<open>#a\<close> and \<open>alice\<close> there without ops.\<close>

definition meet_channel :: channel where
  "meet_channel = sample_channel\<lparr>users_opped := [], users_unopped := [4], services := [2]\<rparr>"

definition meet_net :: net where
  "meet_net = (set_service 2 (sample_service\<lparr>svc_channels := [3]\<rparr>) sample_net)
     \<lparr>chans := [3 \<mapsto> meet_channel], members := [4 \<mapsto> \<lparr>chptr = 3, mclient = 1, mflags = 0\<rparr>]\<rparr>"

lemma meet_net_proj:
  "keys meet_net = keys sample_net" "kind meet_net = kind sample_net" "parent meet_net = parent sample_net" "dead meet_net = dead sample_net"
  "server_lists meet_net = server_lists sample_net" "user_chans meet_net = user_chans sample_net" "user_oper meet_net = user_oper sample_net"
  "user_link meet_net = user_link sample_net" "chan_key meet_net = chan_key sample_net" "service_chans meet_net = [2 \<mapsto> [3]]"
  "chan_lists meet_net = [3 \<mapsto> ([4], [], [4])]" "chan_services meet_net = [3 \<mapsto> [2]]"
  by (auto simp: projection_defs fun_eq_iff meet_net_def meet_channel_def sample_channel_def new_channel_def set_service_def sample_clients_def
      sample_service_def split: option.splits)

lemma meet_net_fields:
  "name_table meet_net = name_table sample_net" "uid_table meet_net = uid_table sample_net" "channel_table meet_net = channel_table sample_net"
  "channel_list meet_net = channel_list sample_net" "service_list meet_net = service_list sample_net" "deopped_list meet_net = deopped_list sample_net"
  "user_list meet_net = user_list sample_net" "server_list meet_net = server_list sample_net" "exited_list meet_net = exited_list sample_net"
  "next_addr meet_net = next_addr sample_net" "client_oper_list meet_net = client_oper_list sample_net" "conf_oper_list meet_net = conf_oper_list sample_net"
  "conf_opers meet_net = conf_opers sample_net" "oper_list meet_net = oper_list sample_net" "user_regs meet_net = user_regs sample_net"
  "members meet_net = [4 \<mapsto> \<lparr>chptr = 3, mclient = 1, mflags = 0\<rparr>]" "server_p meet_net = server_p sample_net" "sendq meet_net = sendq sample_net"
  by (simp_all add: meet_net_def set_service_def)

lemma meet_net_ok: "state_ok meet_net"
proof -
  have "members_ok meet_net" by (simp add: members_ok_def meet_net_proj meet_net_fields sample_proj chan_match_def user_match_def is_opped_def)
  moreover have "services_ok meet_net" by (simp add: services_ok_def meet_net_proj meet_net_fields) (simp add: sample_net_def empty_net_def)
  moreover have "opers_ok meet_net" using net_okD [OF sample_net_ok] by (simp add: opers_ok_def oper_refs_def meet_net_proj meet_net_fields)
  moreover have "alloc_ok meet_net" by (simp add: alloc_ok_def meet_net_proj meet_net_fields sample_proj)
  ultimately have "net_ok meet_net"
    unfolding net_ok_def
    using net_okD [OF sample_net_ok] tables_ok_cong [of meet_net sample_net] chtable_ok_cong [of meet_net sample_net]
      links_ok_cong [of meet_net sample_net] listed_ok_cong [of meet_net sample_net]
    by (simp add: meet_net_proj meet_net_fields del: sample_fields)
  moreover have "alive meet_net" using sample_state_ok by (simp add: state_ok_def alive_def meet_net_proj meet_net_fields del: sample_fields)
  ultimately show ?thesis by (simp add: state_ok_def)
qed

theorem operbot_ops_caller_witness:
  "\<exists>s'. s_operbot_op oper_svc 2 1 [] meet_net = Some (1, s') \<and> net_ok s' \<and> map_option is_opped (members s' 4) = Some True \<and>
     sendq s' = ['':2SVAAAAAA MODE #a +o 1HBAAAAAA'']"
proof -
  let ?sv = "sample_service\<lparr>svc_channels := [3]\<rparr>"
  obtain sc cl where c: "clients meet_net 2 = Some sc" "uid sc = ''2SVAAAAAA''" "service sc = Some ?sv" "clients meet_net 1 = Some cl" "uid cl = ''1HBAAAAAA''"
    by (simp add: meet_net_def set_service_def sample_clients_def)
  then have g: "get_service 2 meet_net = Some ?sv" by (simp add: get_service_def)
  obtain conn where conn: "server_p meet_net = Some conn" "conn_flags conn AND CONN_DEAD = 0" "sid conn = ''1HB''"
    by (simp add: meet_net_fields sample_net_def)
  have "op_lines sc cl 1 [3] meet_net = ['':2SVAAAAAA MODE #a +o 1HBAAAAAA'']" "sendq meet_net = []"
    using c conn by (simp_all add: op_lines_def unopped_in_def meet_net_fields meet_net_proj sample_proj SVC_UID_def ts6_def UID_def EmptyString_def is_opped_def)
      (simp add: sample_net_def empty_net_def)
  moreover from operbot_ops_caller [OF oper_svc_ok(2) meet_net_ok _ g c(1,4) conn(1,2)]
  obtain s' where s': "s_operbot_op oper_svc 2 1 [] meet_net = Some (1, s')" "net_ok s'" "opped_in 1 {3} meet_net s'" "sendq s' = sendq meet_net @ op_lines sc cl 1 [3] meet_net"
    by (auto simp: meet_net_fields)
  moreover have "map_option is_opped (members s' 4) = Some True"
    using s'(3) unfolding opped_in_def by (auto simp: meet_net_fields dest!: spec [of _ "4"])
  ultimately show ?thesis by simp
qed

end
