(* ===== verification/Uplink.thy ===== *)
theory Uplink
  imports Client_Handlers
begin

section \<open>Uplink: the check of the connection (src/io.c)\<close>

text \<open>
  Every five seconds \<open>check_server_status\<close> looks at the connection to the uplink: it closes one that is dead, timed out or whose server has
  exited, and pings one that is silent. It is safe as long as the connection points at a listed server. It is not safe once the uplink has been
  exited by a command, because nothing clears the pointer: the check then exits the client a second time, or reads it after it was freed.
\<close>

abbreviation CONN_CONNECTING :: u32 where "CONN_CONNECTING \<equiv> 0x0001"
abbreviation CONN_SENTPING :: u32 where "CONN_SENTPING \<equiv> 0x0020"

definition client_dead :: "addr option \<Rightarrow> net \<Rightarrow> bool option" where
  "client_dead r s = (case r of None \<Rightarrow> Some False | Some v \<Rightarrow> do { cl \<leftarrow> clients s v; Some (flags cl AND FLAGS_DEAD \<noteq> 0) })"

definition check_server_status :: "env \<Rightarrow> net \<Rightarrow> net option" where
  "check_server_status E s =
     (case server_p s of
        None \<Rightarrow> Some s
      | Some conn \<Rightarrow>
          if conn_flags conn AND CONN_DEAD = 0 then do {
            lost \<leftarrow> client_dead (conn_client conn) s;
            if lost then signoff_server E s
            else if conn_flags conn AND CONN_CONNECTING \<noteq> 0 \<and> first_time conn + 30 \<le> now s then signoff_server E s
            else if conn_flags conn AND CONN_HANDSHAKE \<noteq> 0 \<and> first_time conn + 60 \<le> now s then signoff_server E s
            else if conn_flags conn AND CONN_SENTPING \<noteq> 0 \<and> conn_last_time conn + ping_time (config_file E) * 2 \<le> now s then signoff_server E s
            else if conn_flags conn AND CONN_SENTPING = 0 \<and> conn_last_time conn + ping_time (config_file E) \<le> now s then
              Some ((sendto_server [''PING :'', MYUID E s] s)\<lparr>server_p := Some (conn\<lparr>conn_flags := conn_flags conn OR CONN_SENTPING\<rparr>)\<rparr>)
            else Some s
          }
          else do {
            gone \<leftarrow> client_dead (conn_client conn) s;
            s \<leftarrow> (case conn_client conn of Some v \<Rightarrow> if gone then Some s else exit_client E v False s | None \<Rightarrow> Some s);
            Some (s\<lparr>server_p := None\<rparr>)
          })"

subsection \<open>The uplink is listed\<close>


lemma alive_client:
  assumes "state_ok s" "v \<in> set (server_list s)"
  shows "client_dead (Some v) s = Some False"
proof -
  have "\<not> dead s v" using state_okD(2) [OF assms(1)] assms(2) by blast
  moreover have "kind s v \<noteq> None" using links_okD(4) [OF net_okD(5) [OF state_okD(1) [OF assms(1)]] assms(2)] by simp
  ultimately show ?thesis by (auto simp: client_dead_def dead_def kind_def)
qed

text \<open>
  C17. The check of the connection, while the client of the connection is a listed server or there is none yet, and every service is in the
  tables: it returns in a well-formed state. A connection that is dead is given up, one that is silent for the ping time is pinged
  once, and one that answered in time is left alone.
\<close>

theorem check_server_status_safe:
  assumes "env_ok E" and "state_ok s" and "server_p s = Some conn" and "\<And>v. conn_client conn = Some v \<Longrightarrow> v \<in> set (server_list s)"
    and "\<And>a. a \<in> set (service_list s) \<Longrightarrow> hashed s a"
  shows "\<exists>s'. check_server_status E s = Some s' \<and> state_ok s' \<and>
    (conn_flags conn AND CONN_DEAD \<noteq> 0 \<longrightarrow> server_p s' = None) \<and>
    (conn_flags conn AND CONN_DEAD = 0 \<and> conn_flags conn AND CONN_CONNECTING = 0 \<and> conn_flags conn AND CONN_HANDSHAKE = 0 \<and>
     conn_flags conn AND CONN_SENTPING = 0 \<longrightarrow>
       s' = (if conn_last_time conn + ping_time (config_file E) \<le> now s
             then s\<lparr>sendq := sendq s @ [''PING :'' @ MYUID E s], server_p := Some (conn\<lparr>conn_flags := conn_flags conn OR CONN_SENTPING\<rparr>)\<rparr>
             else s))"
proof -
  have d: "client_dead (conn_client conn) s = Some False"
    using alive_client [OF assms(2) assms(4)] by (cases "conn_client conn") (simp_all add: client_dead_def)
  have so: "runs (signoff_server E s) state_ok" by (rule env_ok.signoff_server_runs [OF assms(1-3)]) (use assms(4,5) in auto)
  have ex: "runs (exit_client E v False s) state_ok" if "conn_client conn = Some v" for v
    by (rule runs_mono [OF env_ok.exit_client_runs [OF assms(1) state_okD(1) [OF assms(2)]]])
      (use state_okD(2) [OF assms(2)] assms(4) [OF that] exited_state_ok [OF assms(2)] in auto)
  have q: "state_ok (sendto_server [''PING :'', MYUID E s] s)" using service_frameD(1) [OF quiet_service_frame(1) [OF quiet_sendto_server]] assms(2) by blast
  show ?thesis
  proof (cases "conn_flags conn AND CONN_DEAD = 0")
    case True
    obtain t where t: "signoff_server E s = Some t" "state_ok t" using so by (auto simp: runs_def)
    have ping: "sendto_server [''PING :'', MYUID E s] s = s\<lparr>sendq := sendq s @ [''PING :'' @ MYUID E s]\<rparr>" using assms(3) True by (simp add: sendto_server_def)
    show ?thesis using True assms(2,3) d t q ping by (auto simp: check_server_status_def)
  next
    case False
    show ?thesis using False assms(2,3) d ex by (cases "conn_client conn") (auto simp: check_server_status_def runs_def)
  qed
qed

subsection \<open>The uplink was exited\<close>

text \<open>A client that is dead and in no table stays so while the services are withdrawn.\<close>

definition departed :: "addr \<Rightarrow> net \<Rightarrow> bool" where
  "departed v s \<longleftrightarrow> (\<exists>cl. clients s v = Some cl \<and> service cl = None \<and> flags cl AND FLAGS_DEAD \<noteq> 0) \<and> (\<forall>h. v \<notin> set (name_table s h))"

lemma foreach_keeps:
  assumes "foreach f xs s = Some t" "I s" "\<And>x s t. I s \<Longrightarrow> f x s = Some t \<Longrightarrow> I t"
  shows "I t"
  using assms(1,2)
proof (induction xs arbitrary: s)
  case (Cons x xs)
  then obtain u where "f x s = Some u" "foreach f xs u = Some t" by (auto simp: bind_eq_Some_conv)
  then show ?case using Cons assms(3) by blast
qed simp

lemma withdraw_departed:
  assumes "rblib_ok L" "departed v s" "(do { s \<leftarrow> upd_service a f s; del_client L a s }) = Some t"
  shows "departed v t"
proof -
  obtain cl sv where c: "clients s a = Some cl" "service cl = Some sv" using assms(3) by (auto simp: upd_service_def get_service_def bind_eq_Some_conv)
  then have av: "a \<noteq> v" using assms(2) by (auto simp: departed_def)
  have sub: "set (dlinkDelete (rb_ptrs L) x l) \<subseteq> set l" for x l
    using dlink_ok.mset_Delete [OF rblib_ok.ptrs_ok [OF assms(1)], of x l] by (metis in_diffD mset_eq_setD set_mset_mset subsetI)
  show ?thesis
    using assms(2,3) c av
    by (auto dest!: subsetD [OF sub] simp: departed_def upd_service_def upd_client_def get_service_def del_client_def dl_delete_def bind_eq_Some_conv Let_def split: if_splits)
qed

lemma exit_departed:
  assumes "departed v s"
  shows "exit_client E v split s = None"
proof -
  obtain cl where "clients s v = Some cl" "service cl = None" "flags cl AND FLAGS_DEAD \<noteq> 0" using assms by (auto simp: departed_def)
  moreover have "\<not> hashed s v" using assms by (auto simp: departed_def hashed_def)
  ultimately show ?thesis by (rule exit_client_twice)
qed

lemma signoff_departed:
  assumes E: "env_ok E" and v: "departed v s" and conn: "server_p s = Some conn" "conn_client conn = Some v" "conn_flags conn AND CONN_DEAD = 0"
  shows "signoff_server E s = None"
proof -
  let ?w = "s\<lparr>server_p := Some (conn\<lparr>conn_flags := conn_flags conn OR CONN_DEAD\<rparr>)\<rparr>"
  let ?f = "\<lambda>a s. do { s \<leftarrow> upd_service a (\<lambda>sv. sv\<lparr>status := status sv AND NOT SERVICE_INTRODUCED\<rparr>) s; del_client (lib E) a s }"
  have L: "rblib_ok (lib E)" using E by (simp add: env_ok_def)
  have "departed v ?w" using v by (simp add: departed_def)
  then have "departed v t" if "foreach ?f (service_list s) ?w = Some t" for t
    using foreach_keeps [OF that, of "departed v"] withdraw_departed [OF L] by blast
  then show ?thesis using conn exit_departed by (cases "foreach ?f (service_list s) ?w") (auto simp: signoff_server_def Let_def)
qed

text \<open>
  C18. A SQUIT of the uplink is fatal. The command leaves the connection pointing at the client it exited. The next check of the connection
  then exits that client a second time, which deletes it from tables it is not in; and if the exited clients are freed first, the check
  reads freed memory.
\<close>

theorem uplink_squit_fatal:
  assumes "env_ok E" and "state_ok s" and "server_p s = Some conn" and "conn_client conn = Some v" and "v \<in> set (server_list s)"
    and "conn_flags conn AND CONN_DEAD = 0"
  shows "\<exists>t u. c_squit E a [] s = Some t \<and> check_server_status E t = None \<and> cleanup_exited_clients t = Some u \<and> check_server_status E u = None"
proof -
  have n: "net_ok s" by (rule state_okD [OF assms(2)])
  have "runs (exit_client E v True s) (exited (behind s v) s)"
    by (rule env_ok.exit_client_runs [OF assms(1) n]) (use state_okD(2) [OF assms(2)] assms(5) in auto)
  then obtain t where t: "exit_client E v True s = Some t" "exited (behind s v) s t" by (auto simp: runs_def)
  note X = exitedD [OF t(2)]
  have lt: "links_ok t" "tables_ok t" using X(1) by blast+
  have vb: "v \<in> behind s v" by (rule behind.self)
  have k: "kind t v = Some (False, True, False)" using links_okD(4) [OF net_okD(5) [OF n] assms(5)] X(3) by simp
  then obtain cl where cl: "clients t v = Some cl" "service cl = None" by (auto simp: kind_def)
  have d: "flags cl AND FLAGS_DEAD \<noteq> 0" using X(14) [OF vb] cl(1) by (simp add: dead_def)
  have nh: "\<not> hashed t v" using links_okD(7) [OF lt(1) X(15) [OF vb]] by blast
  then have dp: "departed v t" using cl d tables_okD(3) [OF lt(2), of v] by (auto simp: departed_def)
  have c: "server_p t = Some conn" using X(10) assms(3) by simp
  have "check_server_status E t = None"
    using c assms(4,6) cl d signoff_departed [OF assms(1) dp c assms(4,6)] by (simp add: check_server_status_def client_dead_def)
  moreover have "check_server_status E (cleaned t) = None"
    using c assms(4,6) X(15) [OF vb] by (simp add: check_server_status_def client_dead_def cleaned_def)
  moreover have "c_squit E a [] s = Some t" using t(1) assms(3,4) by (simp add: c_squit_def)
  ultimately show ?thesis using cleanup_eq [OF lt(1)] by blast
qed

lemma state_ok_now:
  assumes ok: "state_ok s"
  shows "state_ok (s\<lparr>now := n\<rparr>)"
proof -
  let ?s = "s\<lparr>now := n\<rparr>"
  have P: "keys ?s = keys s" "kind ?s = kind s" "parent ?s = parent s" "dead ?s = dead s" "server_lists ?s = server_lists s"
    "user_oper ?s = user_oper s" "user_link ?s = user_link s" "user_chans ?s = user_chans s" "service_chans ?s = service_chans s"
    "chan_key ?s = chan_key s" "chan_lists ?s = chan_lists s" "chan_services ?s = chan_services s"
    by (simp_all add: projection_defs fun_eq_iff)
  have sc: "same_clients ?s s" using P by (simp add: same_clients_def)
  have n: "net_ok s" by (rule state_okD [OF ok])
  then have D: "chans_ok s" by (simp add: net_ok_alt)
  have "chans_ok ?s" using D chans_ok_cong [of ?s s] P by simp
  then have "net_ok ?s" by (rule net_ok_same_chans [OF n _ sc]) (simp_all add: P)
  then show "state_ok ?s" using ok P by (simp add: state_ok_def alive_def)
qed


theorem check_server_status_safe_witness:
  "\<exists>s'. check_server_status sample_env (sample_net\<lparr>now := 600\<rparr>) = Some s' \<and> state_ok s' \<and> sendq s' = [''PING :2SV'']"
proof -
  let ?s = "sample_net\<lparr>now := 600\<rparr>"
  have p: "server_p ?s = server_p sample_net" "hashed ?s a = hashed sample_net a" for a by (simp_all add: hashed_def keys_def)
  have m: "MYUID sample_env ?s = ''2SV''" by (simp add: MYUID_def ts6_def sample_env_def sample_config_def sample_net_def EmptyString_def)
  have "\<exists>s'. check_server_status sample_env ?s = Some s' \<and> state_ok s' \<and>
    (conn_flags (the (server_p sample_net)) AND CONN_DEAD \<noteq> 0 \<longrightarrow> server_p s' = None) \<and>
    (conn_flags (the (server_p sample_net)) AND CONN_DEAD = 0 \<and> conn_flags (the (server_p sample_net)) AND CONN_CONNECTING = 0 \<and>
      conn_flags (the (server_p sample_net)) AND CONN_HANDSHAKE = 0 \<and> conn_flags (the (server_p sample_net)) AND CONN_SENTPING = 0 \<longrightarrow>
       s' = (if conn_last_time (the (server_p sample_net)) + ping_time (config_file sample_env) \<le> now ?s
             then ?s\<lparr>sendq := sendq ?s @ [''PING :'' @ MYUID sample_env ?s],
               server_p := Some ((the (server_p sample_net))\<lparr>conn_flags := conn_flags (the (server_p sample_net)) OR CONN_SENTPING\<rparr>)\<rparr>
             else ?s))"
    by (rule check_server_status_safe [OF sample_env_ok(2) state_ok_now [OF sample_state_ok]]) (auto simp: p sample_server_p sample_hashed)
  moreover have "sendq sample_net = []" by (simp add: sample_net_def empty_net_def)
  moreover have "ping_time (config_file sample_env) = 300" by (simp add: sample_env_def sample_config_def)
  ultimately show ?thesis by (auto simp: sample_server_p m)
qed

theorem uplink_squit_fatal_witness:
  "\<exists>t u. c_squit sample_env 0 [] sample_net = Some t \<and> check_server_status sample_env t = None \<and>
     cleanup_exited_clients t = Some u \<and> check_server_status sample_env u = None"
  by (rule uplink_squit_fatal [OF sample_env_ok(2) sample_state_ok sample_server_p, of 0]) simp_all

end
