(* ===== verification/Scommand.thy ===== *)
theory Scommand
  imports Operbot Uplink
begin

section \<open>Scommand: lines from the server (src/scommand.c, src/io.c, src/c\_message.c, src/c\_error.c)\<close>

text \<open>
  A line from the uplink is cut into source, command and parameters by \<open>parse_server\<close>. \<open>handle_scommand\<close> finds the source and the handler in a
  hash table, runs the handler and the functions hooked to it. This theory has the table, the handlers of
  \<open>src/scommand.c\<close>, ERROR and PRIVMSG. The texts of the configuration and of the build, the clock's date, the memory that \<open>count_memory\<close>
  counts, the length of libratbox's send queue, the DCC connections and the splitting of parameters (\<open>rb_string_to_array\<close>) are
  parameters: the record \<open>cmd_env\<close>.
\<close>

abbreviation FLAGS_UNKNOWN :: u32 where "FLAGS_UNKNOWN \<equiv> 0x0001"
abbreviation CONF_OPER_DCC :: "64 word" where "CONF_OPER_DCC \<equiv> 0x0020"
abbreviation CONF_OPER_ADMIN :: "64 word" where "CONF_OPER_ADMIN \<equiv> 0x0100"

record conf_server =
  cs_name :: string
  cs_defport :: int

record cmd_env =
  csvc :: svc_env
  conf_servers :: "conf_server list"
  allow_stats_o :: bool
  start_time :: int
  linebuf_len :: "net \<Rightarrow> nat"
  memory_texts :: "net \<Rightarrow> string list"
  admin_info :: "string list"
  version_text :: string
  date_text :: "int \<Rightarrow> string"
  string_to_array :: "string option \<Rightarrow> parv"
  connect_from_client :: "addr \<Rightarrow> addr \<Rightarrow> string \<Rightarrow> net \<Rightarrow> net option"
  connect_to_client :: "addr \<Rightarrow> addr \<Rightarrow> string \<Rightarrow> int \<Rightarrow> net \<Rightarrow> net option"

abbreviation cenv :: "cmd_env \<Rightarrow> env" where "cenv W \<equiv> senv (csvc W)"

abbreviation MYNAME :: "env \<Rightarrow> string" where "MYNAME E \<equiv> conf_name (config_file E)"

subsection \<open>The table\<close>

type_synonym scommand_func = "addr option \<Rightarrow> parv \<Rightarrow> net \<Rightarrow> net option"

record scommand_handler =
  sc_cmd :: string
  sc_func :: scommand_func
  sc_flags :: u32
  sc_hooks :: "scommand_func list"

type_synonym scommand_table = "nat \<Rightarrow> scommand_handler list"

definition add_scommand_handler :: "scommand_handler dlink \<Rightarrow> scommand_handler \<Rightarrow> scommand_table \<Rightarrow> scommand_table" where
  "add_scommand_handler D chandler t =
     (if EmptyString (sc_cmd chandler) then t
      else let hashv = hash_command (sc_cmd chandler) in t(hashv := dlinkAdd D chandler (t hashv)))"

definition find_scommand :: "string \<Rightarrow> scommand_table \<Rightarrow> scommand_handler option" where
  "find_scommand cmdname t = find (\<lambda>h. strcasecmp cmdname (sc_cmd h) = 0) (t (hash_command cmdname))"

text \<open>The hooks of a handler; an unknown command is an assertion that logs.\<close>

fun update_handler :: "string \<Rightarrow> (scommand_handler \<Rightarrow> scommand_handler) \<Rightarrow> scommand_handler list \<Rightarrow> scommand_handler list" where
  "update_handler cmdname f [] = []"
| "update_handler cmdname f (h # hs) = (if strcasecmp cmdname (sc_cmd h) = 0 then f h # hs else h # update_handler cmdname f hs)"

definition add_scommand_hook :: "scommand_func dlink \<Rightarrow> scommand_func \<Rightarrow> string \<Rightarrow> scommand_table \<Rightarrow> scommand_table" where
  "add_scommand_hook D hook cmdname t =
     (let hashv = hash_command cmdname in
      t(hashv := update_handler cmdname (\<lambda>h. h\<lparr>sc_hooks := dlinkAdd D hook (sc_hooks h)\<rparr>) (t hashv)))"

definition del_scommand_hook :: "scommand_func dlink \<Rightarrow> scommand_func \<Rightarrow> string \<Rightarrow> scommand_table \<Rightarrow> scommand_table" where
  "del_scommand_hook D hook cmdname t =
     (let hashv = hash_command cmdname in
      t(hashv := update_handler cmdname (\<lambda>h. h\<lparr>sc_hooks := (if dlinkFind D hook (sc_hooks h) then dlinkDelete D hook (sc_hooks h) else sc_hooks h)\<rparr>) (t hashv)))"

definition handle_scommand_unknown :: "scommand_table \<Rightarrow> string \<Rightarrow> parv \<Rightarrow> net \<Rightarrow> net option" where
  "handle_scommand_unknown t cmdname ps s =
     (case find_scommand cmdname t of
        None \<Rightarrow> Some s
      | Some h \<Rightarrow> if sc_flags h AND FLAGS_UNKNOWN \<noteq> 0 then sc_func h None ps s else Some s)"

definition handle_scommand_client :: "scommand_table \<Rightarrow> addr \<Rightarrow> string \<Rightarrow> parv \<Rightarrow> net \<Rightarrow> net option" where
  "handle_scommand_client t client_p cmdname ps s =
     (case find_scommand cmdname t of
        None \<Rightarrow> Some s
      | Some h \<Rightarrow> do {
          s \<leftarrow> sc_func h (Some client_p) ps s;
          foreach (\<lambda>hook s. hook (Some client_p) ps s) (sc_hooks h) s
        })"

definition handle_scommand :: "scommand_table \<Rightarrow> string \<Rightarrow> string \<Rightarrow> parv \<Rightarrow> net \<Rightarrow> net option" where
  "handle_scommand t source cmdname ps s = do {
     r \<leftarrow> find_client source s;
     case r of
       Some client_p \<Rightarrow> handle_scommand_client t client_p cmdname ps s
     | None \<Rightarrow> do {
         conn \<leftarrow> server_p s;
         if conn_client conn = None then handle_scommand_unknown t cmdname ps s else Some s
       }
   }"

subsection \<open>Replies\<close>

definition reply :: "env \<Rightarrow> addr \<Rightarrow> string \<Rightarrow> string list \<Rightarrow> net \<Rightarrow> net option" where
  "reply E client_p num rest s = do {
     cl \<leftarrow> clients s client_p;
     Some (sendto_server (['':'', MYUID E s, '' '', num, '' '', UID cl] @ rest) s)
   }"

definition replies :: "env \<Rightarrow> addr \<Rightarrow> (string \<times> string list) list \<Rightarrow> net \<Rightarrow> net option" where
  "replies E client_p ls = foreach (\<lambda>(num, rest). reply E client_p num rest) ls"

definition is_user :: "addr \<Rightarrow> net \<Rightarrow> bool option" where
  "is_user client_p s = do { cl \<leftarrow> clients s client_p; Some (user cl \<noteq> None) }"

definition c_admin :: "cmd_env \<Rightarrow> addr \<Rightarrow> parv \<Rightarrow> net \<Rightarrow> net option" where
  "c_admin W client_p ps s =
     (if length ps < 1 \<or> EmptyString (arg ps 0) then Some s
      else do {
        u \<leftarrow> is_user client_p s;
        if \<not> u then Some s
        else replies (cenv W) client_p
          ((''256'', ['' :Administrative info about '', MYNAME (cenv W)]) #
           map (\<lambda>(num, txt). (num, ['' :'', txt])) (filter (\<lambda>(num, txt). \<not> EmptyString txt) (zip [''257'', ''258'', ''259''] (admin_info W)))) s
      })"

definition c_version :: "cmd_env \<Rightarrow> addr \<Rightarrow> parv \<Rightarrow> net \<Rightarrow> net option" where
  "c_version W client_p ps s =
     (if length ps < 1 \<or> EmptyString (arg ps 0) then Some s
      else do {
        u \<leftarrow> is_user client_p s;
        if u then reply (cenv W) client_p ''351'' ['' ratbox-services-'', version_text W, ''. '', MYNAME (cenv W), '' A TS''] s else Some s
      })"

definition c_time :: "cmd_env \<Rightarrow> addr \<Rightarrow> parv \<Rightarrow> net \<Rightarrow> net option" where
  "c_time W client_p ps s =
     (if length ps < 1 \<or> EmptyString (arg ps 0) then Some s
      else do {
        u \<leftarrow> is_user client_p s;
        if u then reply (cenv W) client_p ''391'' ['' '', date_text W (now s)] s else Some s
      })"

definition c_ping :: "cmd_env \<Rightarrow> addr \<Rightarrow> parv \<Rightarrow> net \<Rightarrow> net option" where
  "c_ping W client_p ps s =
     (if length ps < 1 \<or> EmptyString (arg ps 0) then Some s
      else do {
        cl \<leftarrow> clients s client_p;
        Some (sendto_server ['':'', MYUID (cenv W) s, '' PONG '', MYUID (cenv W) s, '' :'', UID cl] s)
      })"

definition c_trace :: "cmd_env \<Rightarrow> addr \<Rightarrow> parv \<Rightarrow> net \<Rightarrow> net option" where
  "c_trace W client_p ps s =
     (if length ps < 1 \<or> EmptyString (arg ps 0) then Some s
      else do {
        u \<leftarrow> is_user client_p s;
        if \<not> u then Some s
        else do {
          s \<leftarrow> for_enabled (\<lambda>service_p s. do {
                  sc \<leftarrow> clients s service_p;
                  sv \<leftarrow> service sc;
                  let opered = svc_flags sv AND SERVICE_OPERED \<noteq> 0;
                  reply (cenv W) client_p (if opered then ''204'' else ''205'')
                    ['' '', if opered then ''Oper'' else ''User'', '' service '', name sc, ''['', svc_username sv, ''@'', svc_host sv, ''] (127.0.0.1) 0 0''] s
                }) s;
          conn \<leftarrow> server_p s;
          replies (cenv W) client_p
            [(''206'', ['' Serv uplink 1S 1C '', conn_name conn, '' *!*@'', MYNAME (cenv W), '' 0'']),
             (''262'', ['' '', MYNAME (cenv W), '' :End of /TRACE''])] s
        }
      })"

definition c_whois :: "cmd_env \<Rightarrow> addr \<Rightarrow> parv \<Rightarrow> net \<Rightarrow> net option" where
  "c_whois W client_p ps s =
     (if length ps < 2 \<or> EmptyString (arg ps 1) then Some s
      else do {
        u \<leftarrow> is_user client_p s;
        if \<not> u then Some s
        else do {
          r \<leftarrow> find_client (arg ps 1) s;
          tg \<leftarrow> (case r of None \<Rightarrow> Some None | Some t \<Rightarrow> do { cl \<leftarrow> clients s t; Some (Some cl) });
          s \<leftarrow> (case tg of
             None \<Rightarrow> reply (cenv W) client_p ''401'' ['' '', arg ps 1, '' :No such nick/channel''] s
           | Some cl \<Rightarrow>
              if server cl \<noteq> None then reply (cenv W) client_p ''401'' ['' '', arg ps 1, '' :No such nick/channel''] s
              else (case user cl of
                 Some tu \<Rightarrow> do {
                   v \<leftarrow> uplink cl;
                   up \<leftarrow> clients s v;
                   nm \<leftarrow> (case user_reg tu of None \<Rightarrow> Some None | Some rp \<Rightarrow> do { rg \<leftarrow> user_regs s rp; Some (Some (reg_name rg)) });
                   replies (cenv W) client_p
                     ([(''311'', ['' '', name cl, '' '', username tu, '' '', host tu, '' * :'', info cl]),
                       (''312'', ['' '', name cl, '' '', servername tu, '' :'', info up])] @
                      (if umode tu AND CLIENT_OPER \<noteq> 0 then [(''313'', ['' '', name cl, '' :is an IRC Operator''])] else []) @
                      (case nm of None \<Rightarrow> [] | Some n \<Rightarrow> [(''330'', ['' '', name cl, '' '', n, '' :is logged in as''])])) s
                 }
               | None \<Rightarrow> do {
                   sv \<leftarrow> service cl;
                   replies (cenv W) client_p
                     ([(''311'', ['' '', name cl, '' '', svc_username sv, '' '', svc_host sv, '' * :'', info cl]),
                       (''312'', ['' '', name cl, '' '', MYNAME (cenv W), '' :'', gecos (config_file (cenv W))])] @
                      (if svc_flags sv AND SERVICE_OPERED \<noteq> 0 then [(''313'', ['' '', name cl, '' :is an IRC Operator''])] else [])) s
                 }));
          cl \<leftarrow> tg;
          reply (cenv W) client_p ''318'' ['' '', name cl, '' :End of /WHOIS list.''] s
        }
      })"

text \<open>The letters of the privileges of an operator block (\<open>src/conf.c\<close>).\<close>

definition conf_oper_flags :: "64 word \<Rightarrow> string" where
  "conf_oper_flags fl =
     (let buf = map fst (filter (\<lambda>(c, f). fl AND f \<noteq> 0) [(CHR ''D'', CONF_OPER_DCC), (CHR ''A'', CONF_OPER_ADMIN)])
      in if EmptyString buf then ''-'' else buf)"

definition service_flags :: "(nat \<times> string \<times> 64 word \<times> string) list" where
  "service_flags =
     [(1, ''OS'', 0x00020000, ''M''), (1, ''OS'', 0x00040000, ''I''), (1, ''OS'', 0x00004000, ''C''), (1, ''OS'', 0x00008000, ''T''), (1, ''OS'', 0x00010000, ''O''),
      (2, ''US'', 0x00000001, ''R''), (2, ''US'', 0x00000002, ''S''), (2, ''US'', 0x00000004, ''D''), (2, ''US'', 0x00000020, ''P''),
      (2, ''US'', 0x00000008, ''L''), (2, ''US'', 0x00000010, ''I''),
      (3, ''CS'', 0x00000100, ''R''), (3, ''CS'', 0x00000200, ''S''), (3, ''CS'', 0x00000400, ''D''), (3, ''CS'', 0x00000800, ''L''), (3, ''CS'', 0x00001000, ''I''),
      (4, ''NS'', 0x00002000, ''D''), (5, ''OB'', 0x00100000, ''C''), (6, ''GL'', 0x00200000, ''N''), (6, ''GL'', 0x00400000, ''W''), (7, ''JS'', 0x00800000, ''J''),
      (8, ''BS'', 0x01000000, ''K''), (8, ''BS'', 0x02000000, ''X''), (8, ''BS'', 0x40000000, ''P''), (8, ''BS'', 0x04000000, ''R''),
      (8, ''BS'', 0x08000000, ''P''), (8, ''BS'', 0x10000000, ''V''), (8, ''BS'', 0x20000000, ''S''), (8, ''BS'', 0x00080000, ''M''),
      (9, ''CF'', 0x0000000100000000, ''I''), (9, ''CF'', 0x0000000200000000, ''N''), (9, ''CF'', 0x0000000400000000, ''B''), (9, ''CF'', 0x0000000800000000, ''C'')]"

fun service_flags_loop :: "64 word \<Rightarrow> (nat \<times> string \<times> 64 word \<times> string) list \<Rightarrow> nat \<Rightarrow> string" where
  "service_flags_loop fl [] serviceid = []"
| "service_flags_loop fl ((i, sname, flag, nm) # fs) serviceid =
     (if fl AND flag = 0 then service_flags_loop fl fs serviceid
      else if serviceid \<noteq> i then (if serviceid \<noteq> 0 then '' '' else []) @ sname @ '':'' @ nm @ service_flags_loop fl fs i
      else nm @ service_flags_loop fl fs serviceid)"

definition conf_service_flags :: "64 word \<Rightarrow> string" where
  "conf_service_flags fl = (let buf = service_flags_loop fl service_flags 0 in if EmptyString buf then ''-'' else buf)"

text \<open>The lines of one letter of STATS; a block's server is empty where it is a null pointer in the code. The texts that \<open>count_memory\<close> reports are a parameter.\<close>

definition is_admin :: "user \<Rightarrow> net \<Rightarrow> bool option" where
  "is_admin u s = (case oper u of None \<Rightarrow> Some False | Some p \<Rightarrow> do { co \<leftarrow> conf_opers s p; Some (op_flags co AND CONF_OPER_ADMIN \<noteq> 0) })"

definition stats_opers :: "cmd_env \<Rightarrow> addr \<Rightarrow> net \<Rightarrow> net option" where
  "stats_opers W client_p s = foreach (\<lambda>p s. do {
     co \<leftarrow> conf_opers s p;
     reply (cenv W) client_p ''243''
       ['' O '', op_username co, ''@'', op_host co, '' '', if op_server co = [] then ''*'' else op_server co, '' '', op_name co, '' '',
        conf_oper_flags (op_flags co), '' -1 :'', conf_service_flags (op_sflags co)] s
   }) (conf_oper_list s) s"

definition memory_report :: "cmd_env \<Rightarrow> addr \<Rightarrow> net \<Rightarrow> net option" where
  "memory_report W client_p s0 = foreach (\<lambda>line s. do {
     cl \<leftarrow> clients s client_p;
     Some (sendto_server ['':'', MYNAME (cenv W), '' 988 '', name cl, '' :'', line] s)
   }) (memory_texts W s0) s0"

definition stats_lines :: "cmd_env \<Rightarrow> addr \<Rightarrow> user \<Rightarrow> char \<Rightarrow> net \<Rightarrow> net option" where
  "stats_lines W client_p u statchar s =
     (if statchar \<in> set ''cCnN'' then
        replies (cenv W) client_p (map (\<lambda>c. (''213'', ['' C *@'', cs_name c, '' '', if cs_defport c > 0 then ''A'' else ''*'', '' '', cs_name c, '' '',
          int_to_dec \<bar>cs_defport c\<bar>, '' uplink''])) (conf_servers W)) s
      else if statchar \<in> set ''hH'' then
        replies (cenv W) client_p (map (\<lambda>c. (''244'', ['' H * * '', cs_name c])) (conf_servers W)) s
      else if statchar = CHR ''u'' then reply (cenv W) client_p ''242'' ['' :Server Up '', get_duration (now s - start_time W)] s
      else if statchar \<in> set ''vV'' then do {
        conn \<leftarrow> server_p s;
        reply (cenv W) client_p ''249''
          ['' V :'', conn_name conn, '' (AutoConn.!*@*) Idle: '', int_to_dec (now s - conn_last_time conn), '' SendQ: '', nat_to_dec (linebuf_len W s),
           '' Connected '', get_duration (now s - first_time conn)] s
      }
      else if statchar \<in> set ''oO'' then
        (if \<not> allow_stats_o W then Some s
         else if umode u AND CLIENT_OPER = 0 \<and> oper u = None then Some s
         else stats_opers W client_p s)
      else if statchar \<in> set ''zZ'' then do { adm \<leftarrow> is_admin u s; if adm then memory_report W client_p s else Some s }
      else if statchar = CHR ''E'' then do { _ \<leftarrow> is_admin u s; Some s }
      else Some s)"

definition c_stats :: "cmd_env \<Rightarrow> addr \<Rightarrow> parv \<Rightarrow> net \<Rightarrow> net option" where
  "c_stats W client_p ps s =
     (if length ps < 1 \<or> EmptyString (arg ps 0) then Some s
      else do {
        cl \<leftarrow> clients s client_p;
        case user cl of
          None \<Rightarrow> Some s
        | Some u \<Rightarrow> do {
            s \<leftarrow> stats_lines W client_p u (hd (arg ps 0)) s;
            reply (cenv W) client_p ''219'' ['' '', [hd (arg ps 0)], '' :End of /STATS report''] s
          }
      })"

subsection \<open>The link\<close>

text \<open>The words of a text, cut at every space.\<close>

function split_spaces :: "string \<Rightarrow> string list" where
  "split_spaces buf = (case strchr_split CHR '' '' buf of None \<Rightarrow> [buf] | Some (data, p) \<Rightarrow> data # split_spaces p)"
  by pat_completeness auto
termination
proof (relation "measure length", simp)
  fix buf data p :: string and r
  assume "strchr_split CHR '' '' buf = Some r" "(data, p) = r"
  then have "buf = data @ CHR '' '' # p" using strchr_split_iff by metis
  then show "(p, buf) \<in> measure length" by simp
qed

declare split_spaces.simps [simp del]

definition capab_table :: "(string \<times> u32) list" where
  "capab_table = [(''SERVICES'', CONN_CAP_SERVICE), (''RSFNC'', CONN_CAP_RSFNC), (''TB'', CONN_CAP_TB)]"

definition capab_flag :: "string \<Rightarrow> u32" where
  "capab_flag data = (case find (\<lambda>(nm, fl). irccmp nm data = 0) capab_table of None \<Rightarrow> 0 | Some (nm, fl) \<Rightarrow> fl)"

definition c_capab :: "cmd_env \<Rightarrow> addr option \<Rightarrow> parv \<Rightarrow> net \<Rightarrow> net option" where
  "c_capab W client_p ps s =
     (if length ps < 1 then Some s
      else if client_p \<noteq> None then Some s
      else do {
        conn \<leftarrow> server_p s;
        let buf = rb_strlcpy (lib (cenv W)) (arg ps 0) BUFSIZE;
        Some (s\<lparr>server_p := Some (conn\<lparr>conn_flags := fold (\<lambda>data fl. fl OR capab_flag data) (split_spaces buf) (conn_flags conn)\<rparr>)\<rparr>)
      })"

definition c_pass :: "cmd_env \<Rightarrow> addr option \<Rightarrow> parv \<Rightarrow> net \<Rightarrow> net option" where
  "c_pass W client_p ps s =
     (if length ps < 2 then Some s
      else if client_p \<noteq> None then Some s
      else do {
        conn \<leftarrow> server_p s;
        if strcmp (pass conn) (arg ps 0) \<noteq> 0 then signoff_server (cenv W) s
        else if strcasecmp (arg ps 1) ''TS'' \<noteq> 0 then signoff_server (cenv W) s
        else do {
          let conn = conn\<lparr>conn_flags := conn_flags conn OR CONN_TS\<rparr>;
          let s = s\<lparr>server_p := Some conn\<rparr>;
          if length ps > 3 \<and> atoi (arg ps 2) \<ge> 6 \<and> \<not> EmptyString (arg ps 3) \<and> valid_sid (arg ps 3)
          then Some (s\<lparr>server_p := Some (conn\<lparr>sid := arg ps 3\<rparr>)\<rparr>)
          else signoff_server (cenv W) s
        }
      })"

definition c_pong :: "cmd_env \<Rightarrow> addr \<Rightarrow> parv \<Rightarrow> net \<Rightarrow> net option" where
  "c_pong W client_p ps s = do {
     cl \<leftarrow> clients s client_p;
     if length ps < 1 \<or> EmptyString (arg ps 0) \<or> server cl = None then Some s
     else do {
       s \<leftarrow> (if \<not> finished_bursting s then do {
               conn \<leftarrow> server_p s;
               let s = s\<lparr>server_p := Some (conn\<lparr>conn_flags := conn_flags conn OR CONN_FLAGS_EOB\<rparr>)\<rparr>;
               hook_do (cenv W) HOOK_EOB_UPLINK ArgNull ArgNull s
             } else Some s);
       cl \<leftarrow> clients s client_p;
       if flags cl AND FLAGS_EOB = 0 then do {
         s \<leftarrow> upd_client client_p (\<lambda>cl. cl\<lparr>flags := flags cl OR FLAGS_EOB\<rparr>) s;
         s \<leftarrow> hook_do (cenv W) HOOK_EOB_SERVER (ArgClient client_p) ArgNull s;
         clear_client_oper_sid (cenv W) client_p s
       }
       else Some s
     }
   }"

definition c_error :: "cmd_env \<Rightarrow> addr option \<Rightarrow> parv \<Rightarrow> net \<Rightarrow> net option" where
  "c_error W client_p ps s =
     (if length ps < 1 \<or> EmptyString (arg ps 0) then Some s
      else signoff_server (cenv W) s)"

subsection \<open>Messages to services\<close>

text \<open>\<open>strstr\<close>: the text from the first occurrence on.\<close>

fun strstr :: "string \<Rightarrow> string \<Rightarrow> string option" where
  "strstr [] needle = (if needle = [] then Some [] else None)"
| "strstr (c # s) needle = (if take (length needle) (c # s) = needle then Some (c # s) else strstr s needle)"

definition has_rsfnc :: "string \<Rightarrow> bool" where
  "has_rsfnc caps = (case strstr caps ''RSFNC'' of None \<Rightarrow> False | Some p \<Rightarrow> (case drop 5 p of [] \<Rightarrow> True | c # _ \<Rightarrow> c = CHR '' ''))"

definition c_encap :: "cmd_env \<Rightarrow> addr \<Rightarrow> parv \<Rightarrow> net \<Rightarrow> net option" where
  "c_encap W client_p ps s =
     (if length ps < 2 then Some s
      else if \<not> match (arg ps 0) (MYNAME (cenv W)) then Some s
      else if irccmp (arg ps 1) ''LOGIN'' = 0 then do {
        u \<leftarrow> is_user client_p s;
        if EmptyString (arg ps 2) \<or> \<not> u then Some s
        else hook_do (cenv W) HOOK_USERSERV_LOGIN_BURST (ArgClient client_p) (ArgStr (arg ps 2)) s
      }
      else if irccmp (arg ps 1) ''GCAP'' = 0 then do {
        cl \<leftarrow> clients s client_p;
        if EmptyString (arg ps 2) \<or> server cl = None then Some s
        else if has_rsfnc (arg ps 2) then upd_client client_p (\<lambda>cl. cl\<lparr>flags := flags cl OR FLAGS_RSFNC\<rparr>) s
        else Some s
      }
      else if irccmp (arg ps 1) ''RSMSG'' = 0 then do {
        u \<leftarrow> is_user client_p s;
        if length ps < 4 \<or> \<not> u then Some s
        else do {
          r \<leftarrow> find_service (arg ps 2) s;
          case r of None \<Rightarrow> Some s | Some service_p \<Rightarrow> handle_service (csvc W) service_p client_p (arg ps 3) (drop 4 ps) False s
        }
      }
      else Some s)"

definition strncasecmp :: "string \<Rightarrow> string \<Rightarrow> nat \<Rightarrow> int" where
  "strncasecmp s t n = strcasecmp (take n s) (take n t)"

abbreviation SOH :: char where "SOH \<equiv> CHR 0x01"

definition dcc_notice :: "cmd_env \<Rightarrow> addr \<Rightarrow> string \<Rightarrow> net \<Rightarrow> net option" where
  "dcc_notice W client_p txt s = do {
     cl \<leftarrow> clients s client_p;
     Some (sendto_server ['':'', MYUID (cenv W) s, '' NOTICE '', UID cl, '' :'', txt] s)
   }"

definition dcc_request :: "cmd_env \<Rightarrow> addr \<Rightarrow> addr \<Rightarrow> string \<Rightarrow> net \<Rightarrow> net option" where
  "dcc_request W client_p oper_p txt s =
     (let bad = dcc_notice W client_p ''Invalid dcc parameters'' s in
      case strchr_split CHR '' '' (drop 10 txt) of None \<Rightarrow> bad
      | Some (_, hst) \<Rightarrow>
        (case strchr_split CHR '' '' hst of None \<Rightarrow> bad
         | Some (hst, cport) \<Rightarrow>
           if strchr_split CHR '' '' cport \<noteq> None then bad
           else (case strchr_split SOH cport of None \<Rightarrow> bad
            | Some (cport, _) \<Rightarrow>
              if atoi cport \<le> 1024 then dcc_notice W client_p ''Invalid dcc port'' s
              else connect_to_client W client_p oper_p hst (atoi cport) s)))"

definition service_by_username :: "string \<Rightarrow> net \<Rightarrow> addr option option" where
  "service_by_username nm s =
     hunt (\<lambda>a. do { sv \<leftarrow> get_service a s; Some (svc_flags sv AND SERVICE_DISABLED = 0 \<and> irccmp nm (svc_username sv) = 0) }) (service_list s)"

definition c_message :: "cmd_env \<Rightarrow> addr \<Rightarrow> parv \<Rightarrow> net \<Rightarrow> net option" where
  "c_message W client_p ps s =
     (if length ps < 2 \<or> EmptyString (arg ps 1) then Some s
      else do {
        r \<leftarrow> (case strchr_split CHR ''@'' (arg ps 0) of
               Some (target, _) \<Rightarrow> service_by_username target s
             | None \<Rightarrow> find_service (arg ps 0) s);
        case r of
          None \<Rightarrow> Some s
        | Some target_p \<Rightarrow>
            if hd (arg ps 1) = SOH then
              let chat = SOH # ''CHAT'' @ [SOH]; dcc = SOH # ''DCC CHAT '' in
              if strncasecmp (arg ps 1) chat 6 \<noteq> 0 \<and> strncasecmp (arg ps 1) dcc 10 \<noteq> 0 then Some s
              else do {
                u \<leftarrow> get_user client_p s;
                o' \<leftarrow> find_conf_oper (username u) (host u) (servername u) [] s;
                ok \<leftarrow> (case o' of None \<Rightarrow> Some None | Some p \<Rightarrow> do { co \<leftarrow> conf_opers s p; Some (if op_flags co AND CONF_OPER_DCC \<noteq> 0 then Some p else None) });
                case ok of
                  None \<Rightarrow> dcc_notice W client_p ''No access.'' s
                | Some oper_p \<Rightarrow>
                    if strncasecmp (arg ps 1) chat 6 = 0 then do { tc \<leftarrow> clients s target_p; connect_from_client W client_p oper_p (name tc) s }
                    else dcc_request W client_p oper_p (arg ps 1) s
              }
            else handle_service_msg (csvc W) (\<lambda>t. string_to_array W (Some t)) target_p client_p (arg ps 1) s
      })"

subsection \<open>Lines\<close>

definition skip_spaces :: "string \<Rightarrow> string" where
  "skip_spaces ch = dropWhile (\<lambda>c. c = CHR '' '') ch"

definition parse_source :: "string \<Rightarrow> string \<Rightarrow> string \<times> string" where
  "parse_source server_name ch =
     (case ch of
        c # r \<Rightarrow>
          if c = CHR '':'' then
            (case strchr_split CHR '' '' r of
               Some (source, rest) \<Rightarrow> (source, skip_spaces rest)
             | None \<Rightarrow> (r, skip_spaces r))
          else (server_name, ch)
      | [] \<Rightarrow> (server_name, ch))"

definition parse_server :: "cmd_env \<Rightarrow> scommand_table \<Rightarrow> string \<Rightarrow> net \<Rightarrow> net option" where
  "parse_server W t buf s = do {
     conn \<leftarrow> server_p s;
     let buf = (if length buf > BUFSIZE then take (BUFSIZE - 1) buf else buf);
     let buf = takeWhile (\<lambda>c. c \<noteq> CHR 0x0D) (takeWhile (\<lambda>c. c \<noteq> CHR 0x0A) buf);
     let (source, ch) = parse_source (conn_name conn) (skip_spaces buf);
     if EmptyString ch then Some s
     else (case strchr_split CHR '' '' ch of
        Some (cmdname, rest) \<Rightarrow> handle_scommand t source cmdname (string_to_array W (Some (skip_spaces rest))) s
      | None \<Rightarrow> handle_scommand t source ch (string_to_array W None) s)
   }"

subsection \<open>The commands of the daemon\<close>

text \<open>Handlers without the flag are called for known clients only; without one they would follow a null pointer.\<close>

definition with_client :: "(addr \<Rightarrow> parv \<Rightarrow> net \<Rightarrow> net option) \<Rightarrow> scommand_func" where
  "with_client f client_p ps s = (case client_p of None \<Rightarrow> None | Some a \<Rightarrow> f a ps s)"

definition scmd :: "string \<Rightarrow> scommand_func \<Rightarrow> u32 \<Rightarrow> scommand_handler" where
  "scmd nm f fl = \<lparr>sc_cmd = nm, sc_func = f, sc_flags = fl, sc_hooks = []\<rparr>"

definition server_commands :: "cmd_env \<Rightarrow> scommand_handler list" where
  "server_commands W =
     [scmd ''ADMIN'' (with_client (c_admin W)) 0, scmd ''CAPAB'' (c_capab W) FLAGS_UNKNOWN, scmd ''ENCAP'' (with_client (c_encap W)) 0,
      scmd ''PASS'' (c_pass W) FLAGS_UNKNOWN, scmd ''PING'' (with_client (c_ping W)) 0, scmd ''PONG'' (with_client (c_pong W)) 0, scmd ''STATS'' (with_client (c_stats W)) 0,
      scmd ''TRACE'' (with_client (c_trace W)) 0, scmd ''VERSION'' (with_client (c_version W)) 0, scmd ''TIME'' (with_client (c_time W)) 0,
      scmd ''WHOIS'' (with_client (c_whois W)) 0,
      scmd ''JOIN'' (with_client (c_join (cenv W))) 0, scmd ''KICK'' (with_client (c_kick (cenv W))) 0, scmd ''PART'' (with_client (c_part (cenv W))) 0,
      scmd ''SJOIN'' (with_client (c_sjoin (cenv W))) 0, scmd ''TB'' (with_client (c_tb (cenv W))) 0, scmd ''TOPIC'' (with_client (c_topic (cenv W))) 0,
      scmd ''KILL'' (with_client (c_kill (cenv W))) 0, scmd ''NICK'' (with_client (c_nick (cenv W))) 0, scmd ''UID'' (with_client (c_uid (cenv W))) 0,
      scmd ''QUIT'' (with_client (c_quit (cenv W))) 0, scmd ''SERVER'' (c_server (cenv W)) FLAGS_UNKNOWN, scmd ''SID'' (with_client (c_sid (cenv W))) 0,
      scmd ''SQUIT'' (with_client (c_squit (cenv W))) 0, scmd ''ERROR'' (c_error W) FLAGS_UNKNOWN, scmd ''MODE'' (with_client (c_mode (cenv W))) 0,
      scmd ''TMODE'' (with_client (c_tmode (cenv W))) 0, scmd ''BMASK'' (with_client (c_bmask (cenv W))) 0, scmd ''PRIVMSG'' (with_client (c_message W)) 0]"

definition init_scommand :: "scommand_handler dlink \<Rightarrow> scommand_handler list \<Rightarrow> scommand_table" where
  "init_scommand D hs = fold (add_scommand_handler D) hs (\<lambda>_. [])"

subsection \<open>The table finds its commands\<close>

definition distinct_names :: "scommand_handler list \<Rightarrow> bool" where
  "distinct_names hs \<longleftrightarrow> distinct (map (\<lambda>h. map tolower (sc_cmd h)) hs) \<and> list_all (\<lambda>h. cstring (sc_cmd h) \<and> \<not> EmptyString (sc_cmd h)) hs"

lemma hash_command_lower: "strcaseeq s t \<Longrightarrow> hash_command s = hash_command t"
  using hash_command_loop_lower [of s t 0] by (simp add: hash_command_def strcaseeq_def)

lemma init_scommand_set:
  assumes "dlink_ok D" "list_all (\<lambda>h. \<not> EmptyString (sc_cmd h)) hs"
  shows "set (fold (add_scommand_handler D) hs t i) = set (t i) \<union> {h \<in> set hs. hash_command (sc_cmd h) = i}"
  using assms(2)
proof (induction hs arbitrary: t)
  case (Cons h hs)
  have "set (fold (add_scommand_handler D) (h # hs) t i) = set (add_scommand_handler D h t i) \<union> {h \<in> set hs. hash_command (sc_cmd h) = i}"
    using Cons.IH [of "add_scommand_handler D h t"] Cons.prems by simp
  moreover have "set (add_scommand_handler D h t i) = (if hash_command (sc_cmd h) = i then insert h (set (t i)) else set (t i))"
    using Cons.prems dlink_ok.set_Add [OF assms(1)] by (simp add: add_scommand_handler_def Let_def)
  ultimately show ?case by auto
qed simp

lemma find_iff:
  assumes "\<And>x y. x \<in> set xs \<Longrightarrow> y \<in> set xs \<Longrightarrow> P x \<Longrightarrow> P y \<Longrightarrow> x = y"
  shows "find P xs = Some x \<longleftrightarrow> x \<in> set xs \<and> P x"
  using assms by (auto simp: find_Some_iff in_set_conv_nth) (metis find_None_iff find_Some_iff in_set_conv_nth not_None_eq nth_mem)+

lemma scommand_lookup:
  assumes "dlink_ok D" and "distinct_names hs" and "cstring nm"
  shows "find_scommand nm (init_scommand D hs) = Some h \<longleftrightarrow> h \<in> set hs \<and> strcaseeq nm (sc_cmd h)"
proof -
  have ne: "list_all (\<lambda>h. \<not> EmptyString (sc_cmd h)) hs" using assms(2) by (auto simp: distinct_names_def list_all_iff)
  let ?b = "init_scommand D hs (hash_command nm)"
  have b: "set ?b = {h \<in> set hs. hash_command (sc_cmd h) = hash_command nm}"
    unfolding init_scommand_def init_scommand_set [OF assms(1) ne] by simp
  have eq: "strcasecmp nm (sc_cmd h) = 0 \<longleftrightarrow> strcaseeq nm (sc_cmd h)" if "h \<in> set hs" for h
    using assms(2,3) that by (auto simp: distinct_names_def list_all_iff strcasecmp_0)
  have inj: "x = y" if "x \<in> set hs" "y \<in> set hs" "strcaseeq nm (sc_cmd x)" "strcaseeq nm (sc_cmd y)" for x y
    using assms(2) that by (auto simp: distinct_names_def strcaseeq_def distinct_map inj_on_def)
  have "find (\<lambda>h. strcasecmp nm (sc_cmd h) = 0) ?b = Some h \<longleftrightarrow> h \<in> set ?b \<and> strcasecmp nm (sc_cmd h) = 0"
    by (rule find_iff) (use b eq inj in auto)
  then show ?thesis using b eq hash_command_lower [of nm "sc_cmd h"] by (auto simp: find_scommand_def)
qed

lemma server_commands_distinct: "distinct_names (server_commands W)"
  by (simp add: distinct_names_def server_commands_def scmd_def cstring_def tolower_def EmptyString_def)

subsection \<open>The handlers are safe\<close>

lemma state_ok_flags:
  assumes ok: "state_ok s" and cl: "clients s a = Some cl" and fl: "fl AND FLAGS_DEAD = flags cl AND FLAGS_DEAD"
  shows "state_ok (s\<lparr>clients := (clients s)(a \<mapsto> cl\<lparr>flags := fl\<rparr>)\<rparr>)" "kind (s\<lparr>clients := (clients s)(a \<mapsto> cl\<lparr>flags := fl\<rparr>)\<rparr>) = kind s"
proof -
  let ?s = "s\<lparr>clients := (clients s)(a \<mapsto> cl\<lparr>flags := fl\<rparr>)\<rparr>"
  have P: "keys ?s = keys s" "kind ?s = kind s" "parent ?s = parent s" "dead ?s = dead s" "server_lists ?s = server_lists s"
    "user_oper ?s = user_oper s" "user_link ?s = user_link s" "user_chans ?s = user_chans s" "service_chans ?s = service_chans s"
    "chan_key ?s = chan_key s" "chan_lists ?s = chan_lists s" "chan_services ?s = chan_services s"
    using cl fl by (auto simp: projection_defs fun_eq_iff)
  show "kind ?s = kind s" by (rule P(2))
  have sc: "same_clients ?s s" using P by (simp add: same_clients_def)
  have n: "net_ok s" by (rule state_okD [OF ok])
  then have D: "chans_ok s" by (simp add: net_ok_alt)
  have "chans_ok ?s" using D chans_ok_cong [of ?s s] P by simp
  then have "net_ok ?s" by (rule net_ok_same_chans [OF n _ sc]) (simp_all add: P)
  then show "state_ok ?s" using ok P by (simp add: state_ok_def alive_def)
qed

lemma flag_bits: "(f OR FLAGS_EOB) AND FLAGS_DEAD = f AND FLAGS_DEAD" "(f OR FLAGS_RSFNC) AND FLAGS_DEAD = f AND FLAGS_DEAD" for f :: u32
  by (simp_all add: bit.conj_disj_distrib2)

lemma kind_client: "kind s a = Some k \<Longrightarrow> \<exists>cl. clients s a = Some cl"
  by (auto simp: kind_def)

context env_ok
begin

lemma free_opers_state:
  assumes "state_ok s"
  shows "runs (foreach (\<lambda>co t. if P co then free_client_oper E co t else Some t) (client_oper_list s) s) state_ok"
proof (rule runs_mono [OF free_opers_loop [OF net_okD(6) [OF state_okD(1) [OF assms]]]])
  fix t assume t: "opers_ok t \<and> oper_frame t s \<and> mset (client_oper_list t) = mset (client_oper_list s) - filter_mset P (mset (client_oper_list s))"
  then have "net_ok t" using oper_frame_net_ok state_okD(1) [OF assms] by blast
  moreover have "dead t = dead s" "server_list t = server_list s" using t by (auto simp: oper_frame_def dead_def fun_eq_iff)
  ultimately show "state_ok t" using assms by (simp add: state_ok_def alive_def)
qed simp

lemma clear_client_oper_sid_state: "state_ok s \<Longrightarrow> clients s a = Some cl \<Longrightarrow> runs (clear_client_oper_sid E a s) state_ok"
  unfolding clear_client_oper_sid_def using free_opers_state by simp

end

lemma state_ok_quiet: "state_ok s \<Longrightarrow> quiet t s \<Longrightarrow> state_ok t"
  using quiet_net_ok [of t s] quiet_same_clients [of t s] by (auto simp: state_ok_def alive_def same_clients_def)

text \<open>Replies are quiet, and the client they go to has to be there.\<close>

lemma reply_quiet: "clients s a = Some cl \<Longrightarrow> runs (reply E a num rest s) (\<lambda>t. quiet t s)"
  by (simp add: reply_def)

lemma replies_quiet:
  assumes "clients s a = Some cl" "quiet t s"
  shows "runs (replies E a ls t) (\<lambda>t. quiet t s)"
  unfolding replies_def
proof (rule runs_foreach [where I = "\<lambda>t. quiet t s"])
  fix x t assume t: "quiet t s"
  have cl: "clients t a = Some cl" using quiet_fields(1) [OF t] assms(1) by simp
  have "runs (reply E a num rest t) (\<lambda>u. quiet u s)" for num rest
    by (rule runs_mono [OF reply_quiet [OF cl]]) (erule quiet_trans [OF _ t])
  then show "runs ((case x of (num, rest) \<Rightarrow> reply E a num rest) t) (\<lambda>t. quiet t s)" by (cases x) simp
qed (rule assms(2))

lemma is_user_client: "clients s a = Some cl \<Longrightarrow> is_user a s = Some (user cl \<noteq> None)"
  by (simp add: is_user_def)

lemma quiet_state_runs: "state_ok s \<Longrightarrow> runs r (\<lambda>t. quiet t s) \<Longrightarrow> runs r state_ok"
  by (erule runs_mono) (rule state_ok_quiet)

lemma info_commands_runs:
  assumes s: "state_ok s" and cl: "clients s a = Some cl"
  shows "runs (c_admin W a ps s) state_ok" "runs (c_version W a ps s) state_ok" "runs (c_time W a ps s) state_ok" "runs (c_ping W a ps s) state_ok"
proof -
  note Q = quiet_state_runs [OF s]
  show "runs (c_admin W a ps s) state_ok"
    unfolding c_admin_def is_user_client [OF cl] bind.bind_lunit
    by (intro runs_ifI Q [OF replies_quiet [OF cl]]) (use s in simp_all)
  show "runs (c_version W a ps s) state_ok" "runs (c_time W a ps s) state_ok"
    unfolding c_version_def c_time_def is_user_client [OF cl] bind.bind_lunit
    by (intro runs_ifI Q [OF reply_quiet [OF cl]]; use s in simp)+
  show "runs (c_ping W a ps s) state_ok" using s cl state_ok_quiet [OF s quiet_sendto_server] by (simp add: c_ping_def)
qed

lemma c_trace_runs:
  assumes s: "state_ok s" and cl: "clients s a = Some cl" and conn: "server_p s \<noteq> None"
  shows "runs (c_trace W a ps s) state_ok"
proof -
  have sv: "\<exists>sc sv. clients t v = Some sc \<and> service sc = Some sv" if "quiet t s" "v \<in> set (service_list s)" for t v
    using net_okD(4) [OF state_okD(1) [OF s]] quiet_fields(1) [OF that(1)] that(2)
    by (fastforce simp: services_ok_def service_chans_def get_service_def bind_eq_Some_conv)
  have loop: "runs (for_enabled (\<lambda>service_p t. do {
                  sc \<leftarrow> clients t service_p;
                  sv \<leftarrow> service sc;
                  let opered = svc_flags sv AND SERVICE_OPERED \<noteq> 0;
                  reply (cenv W) a (if opered then ''204'' else ''205'')
                    ['' '', if opered then ''Oper'' else ''User'', '' service '', name sc, ''['', svc_username sv, ''@'', svc_host sv, ''] (127.0.0.1) 0 0''] t
                }) s) (\<lambda>t. quiet t s)"
    unfolding for_enabled_def
  proof (rule runs_foreach [where I = "\<lambda>t. quiet t s"])
    fix v t assume v: "v \<in> set (service_list s)" and t: "quiet t s"
    obtain sc sv where x: "clients t v = Some sc" "service sc = Some sv" using sv [OF t v] by blast
    have c: "clients t a = Some cl" using quiet_fields(1) [OF t] cl by simp
    have "runs (reply (cenv W) a num rest t) (\<lambda>u. quiet u s)" for num rest
      by (rule runs_mono [OF reply_quiet [OF c]]) (erule quiet_trans [OF _ t])
    then show "runs (do { sv \<leftarrow> get_service v t; if svc_flags sv AND SERVICE_DISABLED \<noteq> 0 then Some t else do {
                  sc \<leftarrow> clients t v;
                  sv \<leftarrow> service sc;
                  let opered = svc_flags sv AND SERVICE_OPERED \<noteq> 0;
                  reply (cenv W) a (if opered then ''204'' else ''205'')
                    ['' '', if opered then ''Oper'' else ''User'', '' service '', name sc, ''['', svc_username sv, ''@'', svc_host sv, ''] (127.0.0.1) 0 0''] t
                } }) (\<lambda>t. quiet t s)"
      using t x by (simp add: get_service_def Let_def)
  qed simp
  show ?thesis
    unfolding c_trace_def is_user_client [OF cl] bind.bind_lunit
  proof (intro runs_ifI runs_seq [OF loop])
    fix t assume t: "quiet t s"
    obtain conn where "server_p t = Some conn" using conn quiet_fields(5) [OF t] by auto
    then show "runs (do { conn \<leftarrow> server_p t; replies (cenv W) a
            [(''206'', ['' Serv uplink 1S 1C '', conn_name conn, '' *!*@'', MYNAME (cenv W), '' 0'']),
             (''262'', ['' '', MYNAME (cenv W), '' :End of /TRACE''])] t }) state_ok"
      using quiet_state_runs [OF s replies_quiet [OF cl t]] by simp
  qed (use s in simp_all)
qed

lemma is_admin_runs:
  assumes "state_ok s" "a \<in> set (user_list s)" "get_user a s = Some u"
  shows "is_admin u s \<noteq> None"
proof -
  have o: "opers_ok s" by (rule net_okD(6) [OF state_okD(1) [OF assms(1)]])
  have "conf_opers s p \<noteq> None" if "oper u = Some p" for p
  proof -
    have "user_oper s a = Some p" using assms(3) that by (simp add: user_oper_def)
    then have "0 < oper_refs s p" using assms(2) by (auto simp: oper_refs_def filter_empty_conv)
    then show ?thesis using o unfolding opers_ok_def by blast
  qed
  then show ?thesis by (cases "oper u") (auto simp: is_admin_def)
qed

lemma c_stats_runs:
  assumes s: "state_ok s" and cl: "clients s a = Some cl" and conn: "server_p s \<noteq> None" and a: "user cl \<noteq> None \<Longrightarrow> a \<in> set (user_list s)"
  shows "runs (c_stats W a ps s) state_ok"
proof (cases "length ps < 1 \<or> EmptyString (arg ps 0) \<or> user cl = None")
  case True
  then show ?thesis using s cl by (auto simp: c_stats_def)
next
  case False
  then obtain u where u: "user cl = Some u" by blast
  then have g: "get_user a s = Some u" using cl by (simp add: get_user_def)
  obtain conn' where c: "server_p s = Some conn'" using conn by blast
  obtain adm where adm: "is_admin u s = Some adm" using is_admin_runs [OF s _ g] a u by auto
  have R: "runs (reply (cenv W) a num rest t) (\<lambda>t. quiet t s)" if t: "quiet t s" for num rest t
  proof -
    have "clients t a = Some cl" using quiet_fields(1) [OF t] cl by simp
    from reply_quiet [OF this] show ?thesis by (rule runs_mono) (erule quiet_trans [OF _ t])
  qed
  have opers: "runs (stats_opers W a s) (\<lambda>t. quiet t s)"
    unfolding stats_opers_def
  proof (rule runs_foreach [where I = "\<lambda>t. quiet t s"])
    fix p t assume p: "p \<in> set (conf_oper_list s)" and t: "quiet t s"
    obtain co where "conf_opers s p = Some co" using p net_okD(6) [OF state_okD(1) [OF s]] by (auto simp: opers_ok_def)
    then have "conf_opers t p = Some co" using t by (auto simp: quiet_def)
    then show "runs (do { co \<leftarrow> conf_opers t p; reply (cenv W) a ''243''
       ['' O '', op_username co, ''@'', op_host co, '' '', if op_server co = [] then ''*'' else op_server co, '' '', op_name co, '' '',
        conf_oper_flags (op_flags co), '' -1 :'', conf_service_flags (op_sflags co)] t }) (\<lambda>t. quiet t s)"
      using R [OF t] by simp
  qed simp
  have mem: "runs (memory_report W a s) (\<lambda>t. quiet t s)"
    unfolding memory_report_def
  proof (rule runs_foreach [where I = "\<lambda>t. quiet t s"])
    fix x t assume t: "quiet t s"
    have "clients t a = Some cl" using quiet_fields(1) [OF t] cl by simp
    then show "runs (do { cl \<leftarrow> clients t a; Some (sendto_server ['':'', MYNAME (cenv W), '' 988 '', name cl, '' :'', x] t) }) (\<lambda>t. quiet t s)"
      using quiet_trans [OF quiet_sendto_server t] by simp
  qed simp
  have "runs (stats_lines W a u x s) (\<lambda>t. quiet t s)" for x
    unfolding stats_lines_def c adm bind.bind_lunit
    by (intro runs_ifI R replies_quiet [OF cl] opers mem) simp_all
  then have "runs (do { s \<leftarrow> stats_lines W a u (hd (arg ps 0)) s; reply (cenv W) a ''219'' ['' '', [hd (arg ps 0)], '' :End of /STATS report''] s }) (\<lambda>t. quiet t s)"
    by (rule runs_seq) (rule R)
  from quiet_state_runs [OF s this] show ?thesis using False cl u by (simp add: c_stats_def del: runs_bind)
qed

lemma c_whois_runs:
  assumes s: "state_ok s" and cl: "clients s a = Some cl" and known: "2 \<le> length ps \<Longrightarrow> find_client (arg ps 1) s \<noteq> Some None"
  shows "runs (c_whois W a ps s) state_ok"
proof (cases "length ps < 2 \<or> EmptyString (arg ps 1) \<or> user cl = None")
  case True
  then show ?thesis unfolding c_whois_def is_user_client [OF cl] bind.bind_lunit using s by (elim disjE) simp_all
next
  case False
  have n: "net_ok s" by (rule state_okD [OF s])
  obtain r where r: "find_client (arg ps 1) s = Some (Some r)" "hashed s r"
    using find_client_hashed(1) [OF n, of "arg ps 1"] known False by (auto simp: runs_def)
  obtain tc where tc: "clients s r = Some tc" using hashed_client [OF r(2)] by blast
  have L: "links_ok s" "listed_ok s" "opers_ok s" using net_okD [OF n] by auto
  have kinds: "server tc \<noteq> None \<or> r \<in> set (user_list s) \<or> service tc \<noteq> None \<and> user tc = None"
    using L(2) r(2) links_okD(4) [OF L(1), of r] tc unfolding listed_ok_def by (fastforce simp: kind_def)
  note R = reply_quiet [OF cl] and RS = replies_quiet [OF cl quiet_refl]
  have u: "runs (do {
       v \<leftarrow> uplink tc;
       up \<leftarrow> clients s v;
       nm \<leftarrow> (case user_reg tu of None \<Rightarrow> Some None | Some rp \<Rightarrow> do { rg \<leftarrow> user_regs s rp; Some (Some (reg_name rg)) });
       replies (cenv W) a (ls up nm) s }) (\<lambda>t. quiet t s)" if tu: "user tc = Some tu" "server tc = None" for tu ls
  proof -
    have ru: "r \<in> set (user_list s)" using kinds tu by auto
    obtain v where v: "parent s r = Some v" "v \<in> set (server_list s)" using links_okD(3) [OF L(1) ru] by blast
    have up: "uplink tc = Some v" using v(1) tc by (simp add: parent_def)
    have "kind s v \<noteq> None" using v(2) links_okD(4) [OF L(1), of v] by auto
    then obtain vc where vc: "clients s v = Some vc" using kind_client by blast
    have "user_link s r = user_reg tu" using tc tu by (simp add: user_link_def get_user_def)
    then have rg: "user_regs s rp \<noteq> None" if "user_reg tu = Some rp" for rp using L(3) ru that unfolding opers_ok_def by auto
    have "runs (case user_reg tu of None \<Rightarrow> Some None | Some rp \<Rightarrow> do { rg \<leftarrow> user_regs s rp; Some (Some (reg_name rg)) }) (\<lambda>x. True)"
      using rg by (cases "user_reg tu") auto
    then show ?thesis unfolding up vc bind.bind_lunit by (rule runs_seq) (rule RS)
  qed
  have v: "runs (do { sv \<leftarrow> service tc; replies (cenv W) a (ls sv) s }) (\<lambda>t. quiet t s)" if h: "user tc = None" "server tc = None" for ls
  proof -
    have "r \<notin> set (user_list s)" using h tc links_okD(3) [OF L(1), of r] by (auto simp: kind_def)
    then obtain sv where "service tc = Some sv" using kinds h by auto
    then show ?thesis using RS by simp
  qed
  have fin: "runs (reply (cenv W) a num rest t) state_ok" if t: "quiet t s" for num rest t
  proof (rule quiet_state_runs [OF s])
    have "clients t a = Some cl" using quiet_fields(1) [OF t] cl by simp
    from reply_quiet [OF this] show "runs (reply (cenv W) a num rest t) (\<lambda>t. quiet t s)" by (rule runs_mono) (erule quiet_trans [OF _ t])
  qed
  show ?thesis
    unfolding c_whois_def is_user_client [OF cl] r(1) tc option.case bind.bind_lunit
    by (intro runs_ifI runs_seq [where P = "\<lambda>t. quiet t s"] fin) (use False s R u v in \<open>auto simp: option.case_eq_if simp del: runs_bind\<close>)
qed

subsection \<open>The link\<close>

text \<open>
  What the handlers rely on beyond the dispatch: the functions on the end of a burst and on a login keep the state
  well-formed and every client of its kind, the words of a line are C strings, and so is the state after a DCC connection was started.
\<close>

locale link_ok = svc_ok "csvc W" tab for W :: cmd_env and tab :: "addr \<Rightarrow> service_command list" +
  assumes burst_hook: "h \<in> {HOOK_EOB_UPLINK, HOOK_EOB_SERVER, HOOK_USERSERV_LOGIN_BURST} \<Longrightarrow> state_ok s \<Longrightarrow>
      runs (hook_call (cenv W) h x y s) (\<lambda>(r, s'). state_ok s' \<and> kind s' = kind s)"
    and words: "list_all cstring (string_to_array W line)"
    and dcc_from: "state_ok s \<Longrightarrow> runs (connect_from_client W a p nm s) state_ok"
    and dcc_to: "state_ok s \<Longrightarrow> runs (connect_to_client W a p hst port s) state_ok"
begin

lemma burst_runs:
  assumes "h \<in> {HOOK_EOB_UPLINK, HOOK_EOB_SERVER, HOOK_USERSERV_LOGIN_BURST}" "state_ok s"
  shows "runs (hook_do (cenv W) h x y s) (\<lambda>s'. state_ok s' \<and> kind s' = kind s)"
  using burst_hook [OF assms, of x y] by (auto simp: hook_do_def elim: runs_mono)

lemma c_pong_runs:
  assumes s: "state_ok s" and cl: "clients s a = Some cl" and conn: "server_p s \<noteq> None"
  shows "runs (c_pong W a ps s) state_ok"
proof (cases "length ps < 1 \<or> EmptyString (arg ps 0) \<or> server cl = None")
  case True
  then show ?thesis using s cl by (simp add: c_pong_def)
next
  case False
  have eob: "runs (do { s \<leftarrow> upd_client a (\<lambda>cl. cl\<lparr>flags := flags cl OR FLAGS_EOB\<rparr>) t;
       s \<leftarrow> hook_do (cenv W) HOOK_EOB_SERVER (ArgClient a) ArgNull s;
       clear_client_oper_sid (cenv W) a s }) state_ok" if t: "state_ok t" "clients t a = Some c" for t c
  proof -
    let ?t = "t\<lparr>clients := (clients t)(a \<mapsto> c\<lparr>flags := flags c OR FLAGS_EOB\<rparr>)\<rparr>"
    have "state_ok ?t" "kind ?t = kind t" by (rule state_ok_flags [OF t] flag_bits(1))+
    moreover have "kind t a \<noteq> None" using t(2) by (simp add: kind_def)
    ultimately have "runs (hook_do (cenv W) HOOK_EOB_SERVER (ArgClient a) ArgNull ?t) (\<lambda>u. state_ok u \<and> kind u a \<noteq> None)"
      by (intro runs_mono [OF burst_runs]) simp_all
    then have "runs (do { s \<leftarrow> hook_do (cenv W) HOOK_EOB_SERVER (ArgClient a) ArgNull ?t; clear_client_oper_sid (cenv W) a s }) state_ok"
      by (rule runs_seq) (use clear_client_oper_sid_state kind_client in blast)
    then show ?thesis using t(2) by (simp add: upd_client_def del: runs_bind)
  qed
  have up: "runs (if \<not> finished_bursting s then do {
      conn \<leftarrow> server_p s;
      let s = s\<lparr>server_p := Some (conn\<lparr>conn_flags := conn_flags conn OR CONN_FLAGS_EOB\<rparr>)\<rparr>;
      hook_do (cenv W) HOOK_EOB_UPLINK ArgNull ArgNull s } else Some s) (\<lambda>t. state_ok t \<and> kind t = kind s)"
  proof (rule runs_ifI)
    obtain c where c: "server_p s = Some c" using conn by blast
    have "kind (s\<lparr>server_p := x\<rparr>) = kind s" for x by (simp add: kind_def fun_eq_iff)
    then show "runs (do { conn \<leftarrow> server_p s;
      let s = s\<lparr>server_p := Some (conn\<lparr>conn_flags := conn_flags conn OR CONN_FLAGS_EOB\<rparr>)\<rparr>;
      hook_do (cenv W) HOOK_EOB_UPLINK ArgNull ArgNull s }) (\<lambda>t. state_ok t \<and> kind t = kind s)"
      unfolding c bind.bind_lunit Let_def by (intro runs_mono [OF burst_runs]) (use s in simp_all)
  qed (use s in simp)
  show ?thesis
    unfolding c_pong_def cl bind.bind_lunit if_not_P [OF False]
  proof (rule runs_seq [OF up])
    fix t assume t: "state_ok t \<and> kind t = kind s"
    have "kind t a \<noteq> None" using t cl by (simp add: kind_def)
    then obtain c where c: "clients t a = Some c" using kind_client by blast
    show "runs (do { cl \<leftarrow> clients t a; if flags cl AND FLAGS_EOB = 0 then do {
         s \<leftarrow> upd_client a (\<lambda>cl. cl\<lparr>flags := flags cl OR FLAGS_EOB\<rparr>) t;
         s \<leftarrow> hook_do (cenv W) HOOK_EOB_SERVER (ArgClient a) ArgNull s;
         clear_client_oper_sid (cenv W) a s } else Some t }) state_ok"
      unfolding c bind.bind_lunit by (intro runs_ifI eob [OF _ c]) (use t in simp_all)
  qed
qed

end

text \<open>The tables of the services are those that were registered.\<close>

definition tables_registered :: "(addr \<Rightarrow> service_command list) \<Rightarrow> net \<Rightarrow> bool" where
  "tables_registered tab s \<longleftrightarrow> (\<forall>v sv. get_service v s = Some sv \<longrightarrow> command sv = None \<or> like (tab v) (command sv))"

lemma registeredD: "tables_registered tab s \<Longrightarrow> get_service v s = Some sv \<Longrightarrow> command sv = None \<or> like (tab v) (command sv)"
  unfolding tables_registered_def by blast

lemma listed_user:
  assumes "state_ok s" "a \<in> set (user_list s) \<union> set (server_list s)" "clients s a = Some cl"
  shows "user cl \<noteq> None \<longleftrightarrow> a \<in> set (user_list s)" "server cl \<noteq> None \<longleftrightarrow> a \<in> set (server_list s)"
proof -
  have L: "links_ok s" using net_okD(5) [OF state_okD(1) [OF assms(1)]] .
  show "user cl \<noteq> None \<longleftrightarrow> a \<in> set (user_list s)" "server cl \<noteq> None \<longleftrightarrow> a \<in> set (server_list s)"
    using links_okD(3,4) [OF L, of a] assms(2,3) by (auto simp: kind_def)
qed

context link_ok
begin

lemma handle_service_state:
  assumes s: "state_ok s" "tables_registered tab s" and a: "a \<in> set (user_list s)" and v: "get_service v s = Some sv" and ps: "list_all cstring ps"
  shows "runs (handle_service (csvc W) v a nm ps msg s) state_ok"
proof (cases "command sv = None")
  case True
  obtain sc where "clients s v = Some sc" "service sc = Some sv" using v by (auto simp: get_service_def bind_eq_Some_conv)
  then show ?thesis using True s(1) by (simp add: handle_service_def)
next
  case False
  then have "like (tab v) (command sv)" using registeredD [OF s(2) v] by (elim disjE) auto
  from handle_service_runs [OF here_intro [where G = "like (tab v)", OF s(1) a v this] a ps] show ?thesis by (rule runs_mono) (auto simp: served_def)
qed

lemma c_encap_runs:
  assumes s: "state_ok s" "tables_registered tab s" and a: "a \<in> set (user_list s) \<union> set (server_list s)" "clients s a = Some cl" and ps: "list_all cstring ps"
  shows "runs (c_encap W a ps s) state_ok"
proof -
  have n: "net_ok s" by (rule state_okD [OF s(1)])
  have rs: "runs (do { r \<leftarrow> find_service (arg ps 2) s;
      case r of None \<Rightarrow> Some s | Some v \<Rightarrow> handle_service (csvc W) v a (arg ps 3) (drop 4 ps) False s }) state_ok" if u: "user cl \<noteq> None"
  proof (rule runs_seq [OF find_service_runs [OF n, where Q = "\<lambda>r. \<forall>v. r = Some v \<longrightarrow> get_service v s \<noteq> None"]])
    fix r assume r: "\<forall>v. r = Some v \<longrightarrow> get_service v s \<noteq> None"
    have "list_all cstring (drop 4 ps)" using ps by (auto simp: list_all_iff dest: in_set_dropD)
    then show "runs (case r of None \<Rightarrow> Some s | Some v \<Rightarrow> handle_service (csvc W) v a (arg ps 3) (drop 4 ps) False s) state_ok"
      using r handle_service_state [OF s] listed_user(1) [OF s(1) a] u s(1) by (intro runs_optI) auto
  qed simp_all
  have fl: "runs (upd_client a (\<lambda>cl. cl\<lparr>flags := flags cl OR FLAGS_RSFNC\<rparr>) s) state_ok"
    using state_ok_flags(1) [OF s(1) a(2) flag_bits(2)] a(2) by (simp add: upd_client_def)
  have lg: "runs (hook_do (cenv W) HOOK_USERSERV_LOGIN_BURST (ArgClient a) (ArgStr (arg ps 2)) s) state_ok"
    by (rule runs_mono [OF burst_runs [OF _ s(1)]]) simp_all
  show ?thesis
    unfolding c_encap_def is_user_client [OF a(2)] a(2) bind.bind_lunit
    by (intro runs_ifI rs fl lg) (use s in simp_all)
qed

lemma dcc_notice_runs: "state_ok s \<Longrightarrow> clients s a = Some cl \<Longrightarrow> runs (dcc_notice W a txt s) state_ok"
  using state_ok_quiet [OF _ quiet_sendto_server] by (simp add: dcc_notice_def)

lemma dcc_request_runs:
  assumes "state_ok s" "clients s a = Some cl"
  shows "runs (dcc_request W a p txt s) state_ok"
  unfolding dcc_request_def Let_def
  using dcc_notice_runs [OF assms] dcc_to [OF assms(1)] by (auto split: option.split prod.split simp del: runs_case_option)

lemma service_target_runs:
  assumes "state_ok s"
  shows "runs (case strchr_split CHR ''@'' nm of Some (target, _) \<Rightarrow> service_by_username target s | None \<Rightarrow> find_service nm s)
    (\<lambda>r. \<forall>v. r = Some v \<longrightarrow> get_service v s \<noteq> None)"
proof -
  have n: "net_ok s" by (rule state_okD [OF assms])
  have sv: "get_service v s \<noteq> None" if "v \<in> set (service_list s)" for v
    using net_okD(4) [OF n] that by (auto simp: services_ok_def service_chans_def)
  have "service_by_username t s = Some (find (\<lambda>v. svc_flags (the (get_service v s)) AND SERVICE_DISABLED = 0 \<and> irccmp t (svc_username (the (get_service v s))) = 0)
      (service_list s))" for t
    unfolding service_by_username_def by (rule hunt_total) (use sv in fastforce)
  then have "runs (service_by_username t s) (\<lambda>r. \<forall>v. r = Some v \<longrightarrow> get_service v s \<noteq> None)" for t
    using sv by (auto dest!: find_SomeD)
  moreover have "runs (find_service nm s) (\<lambda>r. \<forall>v. r = Some v \<longrightarrow> get_service v s \<noteq> None)"
    by (rule find_service_runs [OF n]) simp_all
  ultimately show ?thesis by (auto split: option.split prod.split simp del: runs_case_option)
qed

lemma handle_service_msg_runs:
  assumes s: "state_ok s" "tables_registered tab s" and a: "a \<in> set (user_list s) \<union> set (server_list s)" "clients s a = Some cl" and v: "get_service v s \<noteq> None"
  shows "runs (handle_service_msg (csvc W) (\<lambda>t. string_to_array W (Some t)) v a txt s) state_ok"
proof (cases "user cl = None")
  case True
  then show ?thesis using a(2) s(1) by (simp add: handle_service_msg_def)
next
  case False
  obtain sv where "get_service v s = Some sv" using v by blast
  note H = handle_service_state [OF s _ this]
  have "a \<in> set (user_list s)" using listed_user(1) [OF s(1) a] False by simp
  then show ?thesis using False a(2) H words
    by (auto simp: handle_service_msg_def split: option.split prod.split simp del: runs_case_option)
qed

lemma c_message_runs:
  assumes s: "state_ok s" "tables_registered tab s" and a: "a \<in> set (user_list s) \<union> set (server_list s)" "clients s a = Some cl"
    and ctcp: "arg ps 1 \<noteq> [] \<Longrightarrow> hd (arg ps 1) = SOH \<Longrightarrow> a \<in> set (user_list s)"
  shows "runs (c_message W a ps s) state_ok"
proof (cases "length ps < 2 \<or> EmptyString (arg ps 1)")
  case True
  then show ?thesis using s(1) by (simp add: c_message_def)
next
  case False
  have dcc: "runs (do {
      u \<leftarrow> get_user a s;
      o' \<leftarrow> find_conf_oper (username u) (host u) (servername u) [] s;
      ok \<leftarrow> (case o' of None \<Rightarrow> Some None | Some p \<Rightarrow> do { co \<leftarrow> conf_opers s p; Some (if op_flags co AND CONF_OPER_DCC \<noteq> 0 then Some p else None) });
      case ok of
        None \<Rightarrow> dcc_notice W a ''No access.'' s
      | Some p \<Rightarrow> if b then do { tc \<leftarrow> clients s v; connect_from_client W a p (name tc) s } else dcc_request W a p (arg ps 1) s }) state_ok"
    if h: "hd (arg ps 1) = SOH" and v: "get_service v s \<noteq> None" for b v
  proof -
    have "a \<in> set (user_list s)" using ctcp h False by (simp add: EmptyString_def)
    then obtain u where u: "get_user a s = Some u" using listed_user(1) [OF s(1) a] a(2) by (auto simp: get_user_def)
    obtain tc where tc: "clients s v = Some tc" using v by (auto simp: get_service_def bind_eq_Some_conv)
    have ok: "runs (case o' of None \<Rightarrow> Some None | Some p \<Rightarrow> do { co \<leftarrow> conf_opers s p; Some (if op_flags co AND CONF_OPER_DCC \<noteq> 0 then Some p else None) }) (\<lambda>x. True)"
      if "\<forall>p. o' = Some p \<longrightarrow> p \<in> set (conf_oper_list s) \<and> (\<exists>co. conf_opers s p = Some co \<and> Q p co)" for o' and Q :: "addr \<Rightarrow> conf_oper \<Rightarrow> bool"
      using that by (cases o') auto
    show ?thesis
      unfolding u bind.bind_lunit
    proof (rule runs_seq [OF find_conf_oper_runs [OF s(1)]], rule runs_seq [OF ok])
      fix x show "runs (case x of None \<Rightarrow> dcc_notice W a ''No access.'' s
          | Some p \<Rightarrow> if b then do { tc \<leftarrow> clients s v; connect_from_client W a p (name tc) s } else dcc_request W a p (arg ps 1) s) state_ok"
        using dcc_notice_runs [OF s(1) a(2)] dcc_request_runs [OF s(1) a(2)] dcc_from [OF s(1)] tc by (cases x) simp_all
    qed assumption
  qed
  show ?thesis
    unfolding c_message_def if_not_P [OF False]
  proof (rule runs_seq [OF service_target_runs [OF s(1)]], rule runs_optI)
    fix r v assume "\<forall>v. r = Some v \<longrightarrow> get_service v s \<noteq> None" "r = Some v"
    then have v: "get_service v s \<noteq> None" by simp
    show "runs (if hd (arg ps 1) = SOH then
              let chat = SOH # ''CHAT'' @ [SOH]; dcc = SOH # ''DCC CHAT '' in
              if strncasecmp (arg ps 1) chat 6 \<noteq> 0 \<and> strncasecmp (arg ps 1) dcc 10 \<noteq> 0 then Some s
              else do {
                u \<leftarrow> get_user a s;
                o' \<leftarrow> find_conf_oper (username u) (host u) (servername u) [] s;
                ok \<leftarrow> (case o' of None \<Rightarrow> Some None | Some p \<Rightarrow> do { co \<leftarrow> conf_opers s p; Some (if op_flags co AND CONF_OPER_DCC \<noteq> 0 then Some p else None) });
                case ok of
                  None \<Rightarrow> dcc_notice W a ''No access.'' s
                | Some oper_p \<Rightarrow>
                    if strncasecmp (arg ps 1) chat 6 = 0 then do { tc \<leftarrow> clients s v; connect_from_client W a oper_p (name tc) s }
                    else dcc_request W a oper_p (arg ps 1) s
              }
            else handle_service_msg (csvc W) (\<lambda>t. string_to_array W (Some t)) v a (arg ps 1) s) state_ok"
      unfolding Let_def by (intro runs_ifI dcc handle_service_msg_runs [OF s a v]) (use s v in simp_all)
  qed (use s in simp)
qed

end

subsection \<open>Every line is handled\<close>

text \<open>
  What a line from a known client has to satisfy: the link is up, its uplink is listed, and the command has what its handler reads without
  looking. Servers introduce users and servers, a UID has its address, BMASK all its parameters, WHOIS asks for a client that is known, a CTCP comes
  from a user, and when the link is closed by an ERROR every service has been introduced.
\<close>

definition linked :: "net \<Rightarrow> bool" where
  "linked s \<longleftrightarrow> (\<exists>conn v. server_p s = Some conn \<and> conn_client conn = Some v \<and> v \<in> set (server_list s))"

definition line_ok :: "(addr \<Rightarrow> service_command list) \<Rightarrow> addr \<Rightarrow> string \<Rightarrow> parv \<Rightarrow> net \<Rightarrow> bool" where
  "line_ok tab a nm ps s \<longleftrightarrow>
     linked s \<and> a \<in> set (user_list s) \<union> set (server_list s) \<and> cstring nm \<and> list_all cstring ps \<and>
     (strcaseeq nm ''UID'' \<longrightarrow> a \<in> set (server_list s) \<and> arg ps 6 \<noteq> []) \<and>
     (strcaseeq nm ''SID'' \<or> strcaseeq nm ''SERVER'' \<longrightarrow> a \<in> set (server_list s)) \<and>
     (strcaseeq nm ''BMASK'' \<longrightarrow> 4 \<le> length ps) \<and>
     (strcaseeq nm ''WHOIS'' \<longrightarrow> length ps < 2 \<or> find_client (arg ps 1) s \<noteq> Some None) \<and>
     (strcaseeq nm ''PRIVMSG'' \<longrightarrow> tables_registered tab s \<and> (arg ps 1 = [] \<or> hd (arg ps 1) \<noteq> SOH \<or> a \<in> set (user_list s))) \<and>
     (strcaseeq nm ''ENCAP'' \<longrightarrow> tables_registered tab s) \<and>
     (strcaseeq nm ''ERROR'' \<longrightarrow> (\<forall>v. v \<in> set (service_list s) \<longrightarrow> hashed s v))"

lemma line_okD:
  assumes "line_ok tab a nm ps s"
  shows "linked s" "a \<in> set (user_list s) \<union> set (server_list s)" "cstring nm" "list_all cstring ps"
    "strcaseeq nm ''UID'' \<Longrightarrow> a \<in> set (server_list s)" "strcaseeq nm ''UID'' \<Longrightarrow> arg ps 6 \<noteq> []"
    "strcaseeq nm ''SID'' \<Longrightarrow> a \<in> set (server_list s)" "strcaseeq nm ''SERVER'' \<Longrightarrow> a \<in> set (server_list s)"
    "strcaseeq nm ''BMASK'' \<Longrightarrow> 4 \<le> length ps"
    "strcaseeq nm ''WHOIS'' \<Longrightarrow> 2 \<le> length ps \<Longrightarrow> find_client (arg ps 1) s \<noteq> Some None"
    "strcaseeq nm ''PRIVMSG'' \<Longrightarrow> tables_registered tab s"
    "strcaseeq nm ''PRIVMSG'' \<Longrightarrow> arg ps 1 \<noteq> [] \<Longrightarrow> hd (arg ps 1) = SOH \<Longrightarrow> a \<in> set (user_list s)"
    "strcaseeq nm ''ENCAP'' \<Longrightarrow> tables_registered tab s"
    "strcaseeq nm ''ERROR'' \<Longrightarrow> v \<in> set (service_list s) \<Longrightarrow> hashed s v"
  using assms unfolding line_ok_def by auto

lemma same_clients_state_ok: "state_ok s \<Longrightarrow> net_ok t \<and> same_clients t s \<Longrightarrow> state_ok t"
  by (auto simp: state_ok_def alive_def same_clients_def)

lemma server_commands_plain: "h \<in> set (server_commands W) \<Longrightarrow> sc_hooks h = []"
  by (auto simp: server_commands_def scmd_def)

context link_ok
begin

lemma listed_source:
  assumes "state_ok s" "a \<in> set (user_list s) \<union> set (server_list s)"
  shows "hashed s a" "\<exists>cl. clients s a = Some cl"
proof -
  show "hashed s a" using assms(2) links_okD(3,4) [OF net_okD(5) [OF state_okD(1) [OF assms(1)]], of a] by blast
  then show "\<exists>cl. clients s a = Some cl" using hashed_client by blast
qed

lemma handlers_run:
  assumes s: "state_ok s" and ok: "line_ok tab a nm ps s"
  shows "list_all (\<lambda>h. strcaseeq nm (sc_cmd h) \<longrightarrow> runs (sc_func h (Some a) ps s) state_ok) (server_commands W)"
proof -
  note D = line_okD [OF ok]
  have n: "net_ok s" by (rule state_okD [OF s])
  have h: "hashed s a" by (rule listed_source [OF s D(2)])
  obtain cl where cl: "clients s a = Some cl" using listed_source [OF s D(2)] by blast
  obtain conn v where conn: "server_p s = Some conn" "conn_client conn = Some v" "v \<in> set (server_list s)" using D(1) unfolding linked_def by blast
  have p: "server_p s \<noteq> None" using conn(1) by simp
  have chan: "runs r (\<lambda>t. net_ok t \<and> same_clients t s) \<Longrightarrow> runs r state_ok" for r by (erule runs_mono) (rule same_clients_state_ok [OF s])
  have md: "runs r (moded s) \<Longrightarrow> runs r state_ok" for r by (erule runs_mono) (rule moded_state_ok [OF s])
  have err: "runs (c_error W (Some a) ps s) state_ok" if "strcaseeq nm ''ERROR''"
    unfolding c_error_def using that D(14) conn s by (intro runs_ifI signoff_server_runs [OF s conn(1)]) auto
  have capab: "runs (c_capab W (Some a) ps s) state_ok" "runs (c_pass W (Some a) ps s) state_ok" using s by (simp_all add: c_capab_def c_pass_def)
  have sq: "runs (c_squit (cenv W) a ps s) state_ok" by (rule c_squit_runs [OF s]) (use conn in blast)
  have st: "user cl \<noteq> None \<Longrightarrow> a \<in> set (user_list s)" using listed_user(1) [OF s D(2) cl] by simp
  note info = info_commands_runs [OF s cl] c_trace_runs [OF s cl p] c_stats_runs [OF s cl p st] c_pong_runs [OF s cl p] c_whois_runs [OF s cl D(10)]
    and msg = c_encap_runs [OF s D(13) D(2) cl D(4)] c_message_runs [OF s D(11) D(2) cl D(12)]
    and chans = chan [OF c_join_runs [OF n h D(4)]] chan [OF c_kick_runs [OF n]] chan [OF c_part_runs [OF n h]] chan [OF c_sjoin_runs [OF n h D(4)]]
      chan [OF c_tb_runs [OF n h]] chan [OF c_topic_runs [OF n h]]
    and client = c_kill_runs [OF s] c_nick_runs [OF s D(2)] c_uid_runs [OF s D(5) D(6)] c_quit_runs [OF s D(2)] c_server_runs [OF s D(8) conn(1)] c_sid_runs [OF s D(7)]
    and modes = md [OF c_mode_runs [OF n h]] md [OF c_tmode_runs [OF n h]] md [OF c_bmask_runs [OF n D(9)]]
  show ?thesis
    unfolding server_commands_def scmd_def list.pred_inject scommand_handler.simps with_client_def option.case
    by (intro conjI impI list.pred_inject(1) info capab msg chans client modes err sq; assumption)
qed

lemma handle_scommand_runs:
  assumes s: "state_ok s" and D: "dlink_ok D" and src: "find_client source s = Some (Some a)" and ok: "line_ok tab a nm ps s"
  shows "runs (handle_scommand (init_scommand D (server_commands W)) source nm ps s) state_ok"
proof (cases "find_scommand nm (init_scommand D (server_commands W))")
  case None
  then show ?thesis using s src by (simp add: handle_scommand_def handle_scommand_client_def)
next
  case (Some h)
  then have h: "h \<in> set (server_commands W)" "strcaseeq nm (sc_cmd h)"
    using scommand_lookup [OF D server_commands_distinct line_okD(3) [OF ok]] by blast+
  then have "runs (sc_func h (Some a) ps s) state_ok" using handlers_run [OF s ok] by (simp add: list_all_iff)
  then show ?thesis using src Some server_commands_plain [OF h(1)] by (auto simp: handle_scommand_def handle_scommand_client_def runs_def)
qed

end

subsection \<open>Parsing\<close>

text \<open>What \<open>parse_server\<close> makes of a line: source, command and parameters, or nothing.\<close>

definition split_line :: "cmd_env \<Rightarrow> string \<Rightarrow> string \<Rightarrow> (string \<times> string \<times> parv) option" where
  "split_line W server_name buf =
     (let buf = (if length buf > BUFSIZE then take (BUFSIZE - 1) buf else buf);
          buf = takeWhile (\<lambda>c. c \<noteq> CHR 0x0D) (takeWhile (\<lambda>c. c \<noteq> CHR 0x0A) buf);
          (source, ch) = parse_source server_name (skip_spaces buf)
      in if EmptyString ch then None
         else (case strchr_split CHR '' '' ch of
            Some (nm, rest) \<Rightarrow> Some (source, nm, string_to_array W (Some (skip_spaces rest)))
          | None \<Rightarrow> Some (source, ch, string_to_array W None)))"

lemma parse_server_split:
  "server_p s = Some conn \<Longrightarrow> parse_server W t buf s =
     (case split_line W (conn_name conn) buf of None \<Rightarrow> Some s | Some (source, nm, ps) \<Rightarrow> handle_scommand t source nm ps s)"
  unfolding parse_server_def split_line_def Let_def
  by (auto split: prod.splits option.splits)

text \<open>
  Before the uplink is known, only its CAPAB, PASS, SERVER and ERROR lines count. The handshake goes well when the password, the
  protocol and the id are right and the name is the configured one; no service is in the tables yet.
\<close>

definition pass_accepted :: "lconn \<Rightarrow> parv \<Rightarrow> bool" where
  "pass_accepted conn ps \<longleftrightarrow> strcmp (pass conn) (arg ps 0) = 0 \<and> strcasecmp (arg ps 1) ''TS'' = 0 \<and> length ps > 3 \<and> atoi (arg ps 2) \<ge> 6 \<and>
     \<not> EmptyString (arg ps 3) \<and> valid_sid (arg ps 3)"

definition handshake_ok :: "lconn \<Rightarrow> string \<Rightarrow> parv \<Rightarrow> net \<Rightarrow> bool" where
  "handshake_ok conn nm ps s \<longleftrightarrow> cstring nm \<and>
     (strcaseeq nm ''PASS'' \<longrightarrow> length ps < 2 \<or> pass_accepted conn ps) \<and>
     (strcaseeq nm ''SERVER'' \<longrightarrow> length ps < 3 \<or> length (arg ps 0) > HOSTLEN \<or>
        conn_flags conn AND CONN_TS \<noteq> 0 \<and> irccmp (conn_name conn) (arg ps 0) = 0 \<and> (\<forall>a. a \<in> set (service_list s) \<longrightarrow> \<not> hashed s a)) \<and>
     (strcaseeq nm ''ERROR'' \<longrightarrow> length ps < 1 \<or> EmptyString (arg ps 0))"

text \<open>A line is admissible when it is empty, from a known client and as \<open>line_ok\<close> says, or part of a handshake that goes well.\<close>

definition admissible :: "cmd_env \<Rightarrow> (addr \<Rightarrow> service_command list) \<Rightarrow> string \<Rightarrow> net \<Rightarrow> bool" where
  "admissible W tab buf s \<longleftrightarrow>
     (case server_p s of None \<Rightarrow> False
      | Some conn \<Rightarrow> (case split_line W (conn_name conn) buf of None \<Rightarrow> True
         | Some (source, nm, ps) \<Rightarrow>
            (case find_client source s of
               Some (Some a) \<Rightarrow> line_ok tab a nm ps s
             | _ \<Rightarrow> conn_client conn \<noteq> None \<or> handshake_ok conn nm ps s)))"

context link_ok
begin

lemma handshake_runs:
  assumes s: "state_ok s" and conn: "server_p s = Some conn" and ok: "handshake_ok conn nm ps s"
  shows "list_all (\<lambda>h. strcaseeq nm (sc_cmd h) \<longrightarrow> sc_flags h AND FLAGS_UNKNOWN \<noteq> 0 \<longrightarrow> runs (sc_func h None ps s) state_ok) (server_commands W)"
proof -
  have capab: "runs (c_capab W None ps s) state_ok" using s conn by (simp add: c_capab_def Let_def)
  have pass: "runs (c_pass W None ps s) state_ok" if "strcaseeq nm ''PASS''"
    using ok that s conn by (auto simp: handshake_ok_def pass_accepted_def c_pass_def Let_def)
  have server: "runs (c_server (cenv W) None ps s) state_ok" if "strcaseeq nm ''SERVER''"
  proof (cases "length ps < 3 \<or> length (arg ps 0) > HOSTLEN")
    case False
    then have g: "conn_flags conn AND CONN_TS \<noteq> 0" "irccmp (conn_name conn) (arg ps 0) = 0" "\<And>a. a \<in> set (service_list s) \<Longrightarrow> \<not> hashed s a"
      using ok that unfolding handshake_ok_def by blast+
    from runs_mono [OF add_uplink_runs [OF s g], of state_ok] have "runs (add_uplink (cenv W) ps conn s) state_ok" by simp
    then show ?thesis using False conn by (simp add: c_server_def)
  qed (use s in \<open>auto simp: c_server_def die_def\<close>)
  have error: "runs (c_error W None ps s) state_ok" if "strcaseeq nm ''ERROR''"
    using ok that s by (simp add: handshake_ok_def c_error_def)
  show ?thesis
    unfolding server_commands_def scmd_def list.pred_inject scommand_handler.simps
    by (intro conjI impI list.pred_inject(1) capab pass server error; (assumption | simp))
qed

lemma parse_server_runs:
  assumes s: "state_ok s" and D: "dlink_ok D" and ok: "admissible W tab buf s"
  shows "runs (parse_server W (init_scommand D (server_commands W)) buf s) state_ok"
proof -
  obtain conn where conn: "server_p s = Some conn" using ok by (auto simp: admissible_def split: option.splits)
  note P = parse_server_split [OF conn, of W "init_scommand D (server_commands W)" buf]
  show ?thesis
  proof (cases "split_line W (conn_name conn) buf")
    case None
    then show ?thesis using P s by simp
  next
    case (Some r)
    obtain source nm ps where r: "split_line W (conn_name conn) buf = Some (source, nm, ps)" using Some by (cases r) simp
    obtain c where c: "find_client source s = Some c" using find_client_hashed(1) [OF state_okD(1) [OF s], of source] by (auto simp: runs_def)
    have "runs (handle_scommand (init_scommand D (server_commands W)) source nm ps s) state_ok"
    proof (cases c)
      case None
      then have "conn_client conn \<noteq> None \<or> handshake_ok conn nm ps s" using ok conn r c by (simp add: admissible_def)
      moreover have "runs (handle_scommand_unknown (init_scommand D (server_commands W)) nm ps s) state_ok" if h: "handshake_ok conn nm ps s"
      proof -
        have nm: "cstring nm" using h by (simp add: handshake_ok_def)
        show ?thesis
          using handshake_runs [OF s conn h] scommand_lookup [OF D server_commands_distinct nm, of W] s
          by (auto simp: handle_scommand_unknown_def list_all_iff split: option.split simp del: runs_case_option)
      qed
      ultimately show ?thesis using None c conn s by (auto simp: handle_scommand_def)
    next
      case (Some a)
      then have "line_ok tab a nm ps s" using ok conn r c by (simp add: admissible_def)
      then show ?thesis using handle_scommand_runs [OF s D] c Some by simp
    qed
    then show ?thesis using P r by simp
  qed
qed

end

subsection \<open>The daemon with OPERBOT\<close>

text \<open>
  The environment instantiated: the operator service of the previous theory, parameters cut as IRC does it, at spaces and with a
  colon before the last one, and DCC connections that are never made.
\<close>

function irc_words :: "string \<Rightarrow> parv" where
  "irc_words l =
     (case l of [] \<Rightarrow> []
      | c # r \<Rightarrow> if c = CHR '':'' then [r]
          else (case strchr_split CHR '' '' l of None \<Rightarrow> [l] | Some (w, rest) \<Rightarrow> w # irc_words (skip_spaces rest)))"
  by pat_completeness auto
termination
proof (relation "measure length", simp)
  fix l r w rest :: string and c x
  assume "l = c # r" "strchr_split CHR '' '' l = Some x" "(w, rest) = x"
  then have "l = w @ CHR '' '' # rest" using strchr_split_iff by metis
  moreover have "length (skip_spaces rest) \<le> length rest" unfolding skip_spaces_def by (rule length_dropWhile_le)
  ultimately show "(skip_spaces rest, l) \<in> measure length" by simp
qed

declare irc_words.simps [simp del]

definition operbot_cmd :: "config \<Rightarrow> server_jupe list \<Rightarrow> (string \<Rightarrow> string \<Rightarrow> string) \<Rightarrow> addr \<Rightarrow> cmd_env" where
  "operbot_cmd cf js cr w = \<lparr>csvc = operbot_svc (plain_svc cf js cr w) w, conf_servers = [], allow_stats_o = True, start_time = 0,
     linebuf_len = (\<lambda>_. 0), memory_texts = (\<lambda>_. [''BLOCKHEAP'']), admin_info = [], version_text = ''1.2'', date_text = (\<lambda>_. []),
     string_to_array = (\<lambda>l. case l of None \<Rightarrow> [] | Some l \<Rightarrow> irc_words (takeWhile (\<lambda>c. c \<noteq> NUL) l)),
     connect_from_client = (\<lambda>_ _ _ s. Some s), connect_to_client = (\<lambda>_ _ _ _ s. Some s)\<rparr>"

lemma irc_words_cstring: "cstring l \<Longrightarrow> list_all cstring (irc_words l)"
proof (induction l rule: irc_words.induct)
  case (1 l)
  show ?case
  proof (cases "l = [] \<or> hd l = CHR '':''")
    case True
    then show ?thesis using 1(2) by (cases l) (simp_all add: irc_words.simps cstring_def)
  next
    case False
    then obtain c r where l: "l = c # r" "c \<noteq> CHR '':''" by (cases l) auto
    show ?thesis
    proof (cases "strchr_split CHR '' '' l")
      case None
      then show ?thesis using l 1(2) irc_words.simps [of l] by simp
    next
      case (Some x)
      obtain w rest where x: "x = (w, rest)" by fastforce
      then have ws: "cstring w" "cstring rest" using Some 1(2) by (auto simp: strchr_split_iff cstring_def)
      then have "cstring (skip_spaces rest)" by (auto simp: cstring_def skip_spaces_def dest: set_dropWhileD)
      from 1(1) [OF l Some x [symmetric] this] show ?thesis using l Some x ws irc_words.simps [of l] by simp
    qed
  qed
qed

interpretation oblink: link_ok "operbot_cmd cf js cr w" "\<lambda>v. operbot_table" for cf js cr w
proof (intro link_ok.intro link_ok_axioms.intro)
  show "svc_ok (csvc (operbot_cmd cf js cr w)) (\<lambda>v. operbot_table)" by (simp add: operbot_cmd_def obsvc.svc_ok_axioms)
next
  fix h x y and s :: net assume "h \<in> {HOOK_EOB_UPLINK, HOOK_EOB_SERVER, HOOK_USERSERV_LOGIN_BURST}" "state_ok s"
  then show "runs (hook_call (cenv (operbot_cmd cf js cr w)) h x y s) (\<lambda>(r, s'). state_ok s' \<and> kind s' = kind s)"
    by (auto simp: operbot_cmd_def operbot_svc_def plain_svc_def hook_call_def)
next
  fix line have "cstring (takeWhile (\<lambda>c. c \<noteq> NUL) l)" for l by (auto simp: cstring_def dest: set_takeWhileD)
  then show "list_all cstring (string_to_array (operbot_cmd cf js cr w) line)" by (simp add: operbot_cmd_def irc_words_cstring split: option.split)
qed (simp_all add: operbot_cmd_def)

subsection \<open>What the commands guarantee\<close>

text \<open>
  C24. The command table. Whatever handlers with distinct names are registered, looking a command up in the bucket of its hash finds exactly the
  handler whose name it is, up to case, and nothing for a name that was not registered.
\<close>

theorem scommand_found:
  assumes "dlink_ok D" and "distinct_names hs" and "cstring nm"
  shows "find_scommand nm (init_scommand D hs) = Some h \<longleftrightarrow> h \<in> set hs \<and> strcaseeq nm (sc_cmd h)"
  by (rule scommand_lookup [OF assms])

text \<open>
  C1. A line from the uplink is handled safely. In a well-formed state, a line that is admissible is cut, its handler looked up and
  run: no null or freed pointer is followed, and the state after it is well-formed. Admissible is a line of a
  known user or server while the uplink is linked, with what the handlers read unchecked - a UID has its parameters and comes from a server, as SID and SERVER do,
  BMASK has four parameters, WHOIS names a known client, a CTCP is from a user, the services still have the tables they were registered with where a
  message reaches them, and an ERROR comes once the services are introduced - and a line of a handshake that is accepted.
\<close>

theorem line_safe:
  assumes "link_ok W tab" and "dlink_ok D" and "state_ok s" and "admissible W tab buf s"
  shows "\<exists>t. parse_server W (init_scommand D (server_commands W)) buf s = Some t \<and> state_ok t"
  using link_ok.parse_server_runs [OF assms(1,3,2,4)] by (auto simp: runs_def)

definition oper_cmd :: cmd_env where
  "oper_cmd = operbot_cmd sample_config [] (\<lambda>p _. p) 2"

lemma oper_cmd_ok: "link_ok oper_cmd (\<lambda>v. operbot_table)"
  unfolding oper_cmd_def by (rule oblink.link_ok_axioms)

lemma privmsg_listed:
  "scmd ''PRIVMSG'' (with_client (c_message W)) 0 \<in> set (server_commands W)" "strcaseeq ''privmsg'' (sc_cmd (scmd ''PRIVMSG'' f fl))"
proof -
  show "scmd ''PRIVMSG'' (with_client (c_message W)) 0 \<in> set (server_commands W)" by (simp add: server_commands_def)
  have "strcaseeq ''privmsg'' ''PRIVMSG''" by code_simp
  then show "strcaseeq ''privmsg'' (sc_cmd (scmd ''PRIVMSG'' f fl))" by (simp add: scmd_def)
qed

theorem scommand_found_witness:
  "find_scommand ''privmsg'' (init_scommand list_dlink (server_commands oper_cmd)) = Some (scmd ''PRIVMSG'' (with_client (c_message oper_cmd)) 0)"
  using scommand_found [OF list_dl.dlink_ok_axioms server_commands_distinct, of "''privmsg''" oper_cmd "scmd ''PRIVMSG'' (with_client (c_message oper_cmd)) 0"]
  by (simp add: privmsg_listed cstring_def)

lemma oper_find_alice: "find_client ''alice'' oper_net = Some (Some 1)"
proof -
  have i: "irccmp ''hub.example.org'' ''alice'' \<noteq> 0" "irccmp ''alice'' ''alice'' = 0" "\<not> IsDigit CHR ''a''" by code_simp+
  have "name_table oper_net (hash_name ''alice'') \<in> {[1], [0, 1], [1, 2], [0, 1, 2]}" by (simp add: oper_net_def sample_net_def set_service_def)
  moreover have "clients oper_net 0 = sample_clients 0" "clients oper_net 1 = sample_clients 1"
    by (simp_all add: oper_net_def sample_net_def set_service_def)
  ultimately show ?thesis using i by (auto simp: find_client_def sample_clients_def)
qed

theorem line_safe_witness:
  "\<exists>t. parse_server oper_cmd (init_scommand list_dlink (server_commands oper_cmd)) '':alice PRIVMSG chanserv :op #a'' oper_net = Some t \<and> state_ok t"
proof -
  let ?s = oper_net and ?l = "'':alice PRIVMSG chanserv :op #a''"
  have cut: "strchr_split CHR '' '' ''chanserv :op #a'' = Some (''chanserv'', '':op #a'')"
    "strchr_split CHR '' '' ''alice PRIVMSG chanserv :op #a'' = Some (''alice'', ''PRIVMSG chanserv :op #a'')"
    "strchr_split CHR '' '' ''PRIVMSG chanserv :op #a'' = Some (''PRIVMSG'', ''chanserv :op #a'')" by code_simp+
  have "irc_words ''chanserv :op #a'' = [''chanserv'', ''op #a'']"
    by (simp add: irc_words.simps cut skip_spaces_def)
  then have l: "split_line oper_cmd nm ?l = Some (''alice'', ''PRIVMSG'', [''chanserv'', ''op #a''])" for nm
    by (simp add: split_line_def parse_source_def skip_spaces_def EmptyString_def cut oper_cmd_def operbot_cmd_def)
  have "get_service v oper_net = (if v = 2 then Some (sample_service\<lparr>command := Some operbot_table\<rparr>) else None)" for v
    by (simp add: oper_net_def sample_net_def set_service_def get_service_def sample_clients_def)
  then have reg: "tables_registered (\<lambda>v. operbot_table) ?s" by (auto simp: tables_registered_def like_def split: if_splits)
  have p: "server_p ?s = server_p sample_net" "user_list ?s = [1]" "server_list ?s = [0]" by (simp_all add: oper_net_def set_service_def sample_net_def)
  have "line_ok (\<lambda>v. operbot_table) 1 ''PRIVMSG'' [''chanserv'', ''op #a''] ?s"
    using reg p by (simp add: line_ok_def linked_def sample_server_p strcaseeq_def tolower_def cstring_def)
  then have "admissible oper_cmd (\<lambda>v. operbot_table) ?l ?s"
    using l oper_find_alice p(1) by (simp add: admissible_def sample_server_p)
  then show ?thesis using line_safe [OF oper_cmd_ok list_dl.dlink_ok_axioms oper_net_ok] by blast
qed

end
