(* ===== verification/Spec2Isabelle.thy ===== *)
theory Spec2Isabelle
  imports Scommand
begin

text \<open>
  A verification of ratbox-services, the services daemon of an IRC network (\<open>src/\<close>).

  \<^bold>\<open>The program.\<close> The daemon holds one connection to an uplink server. It receives the commands of the
  server protocol, keeps the clients, servers, channels and memberships of the network in linked
  structures (\<open>src/client.c\<close>, \<open>src/channel.c\<close>), and lets its services act on them through functions registered on
  events (\<open>src/hook.c\<close>). What it sends is formatted by \<open>src/modebuild.c\<close> and queued by \<open>sendto_server\<close>
  (\<open>src/io.c\<close>). Masks, addresses, durations and mode strings are read by \<open>src/match.c\<close>, \<open>src/cidr.c\<close>,
  \<open>src/tools.c\<close> and \<open>src/c_mode.c\<close>. The linked lists, string copies and the clock come from libratbox, which is
  not part of the repository.

  \<^bold>\<open>Theories.\<close>
  \<^item> \<open>Prelude\<close>: bytes and C strings, reads with a terminator (\<open>rd\<close>, \<^const>\<open>None\<close> past it), number parsing, and the
    calculus \<open>runs\<close> of total correctness for optional results.
  \<^item> \<open>Match\<close>, \<open>Cidr\<close>, \<open>Tools\<close>: the pure functions of \<open>src/match.c\<close>, \<open>src/cidr.c\<close> and \<open>src/tools.c\<close>. The
    matcher is compared with a declarative meaning of masks, the prefix comparison with the leading bits of addresses,
    durations with sums of their units.
  \<^item> \<open>Libratbox\<close>: the contract of the lists and copies of libratbox as locales (\<open>dlink_ok\<close>, \<open>rblib_ok\<close>), interpreted on lists.
  \<^item> \<open>Chmode\<close>, \<open>Modebuild\<close>: mode strings, ban lists and the lines sent for them.
  \<^item> \<open>Network\<close>: the structures of \<open>include/client.h\<close>, \<open>include/channel.h\<close>, \<open>include/conf.h\<close> and \<open>include/io.h\<close> as records in
    stores of addresses, the global variables as the record \<open>net\<close>, the hooks and the configuration as the record \<open>env\<close>.
    An operation that follows a null or freed pointer, or deletes a node from a list it is not on, is \<^const>\<open>None\<close>.
  \<^item> \<open>Hash\<close>, \<open>Client\<close>, \<open>Channel\<close>: the tables, lookups, unique ids and memberships.
  \<^item> \<open>Frame\<close>, \<open>Invariant\<close>, \<open>Contracts\<close>: projections of the state, the well-formedness invariant \<open>net_ok\<close> in parts, and the
    locales \<open>env_ok\<close> and \<open>env_active\<close>, the contracts of the functions on events.
  \<^item> \<open>Jupeserv\<close>, \<open>Sample\<close>: an environment with the function of \<open>src/s_jupeserv.c\<close>, on which both locales are interpreted, and
    a small network for the examples.
  \<^item> \<open>Channel_Handlers\<close>: KICK, PART, TOPIC, TB, SJOIN, JOIN and the services in channels.
  \<^item> \<open>Opers\<close>: operator blocks and their reference counts (\<open>src/conf.c\<close>).
  \<^item> \<open>Exits\<close>: \<open>exit_client\<close> with everything behind a server, and the freeing of exited clients.
  \<^item> \<open>Client_Handlers\<close>: NICK, UID, QUIT, KILL, SERVER, SID, SQUIT, the introduction of services, \<open>signoff_server\<close>.
  \<^item> \<open>Mode_Handlers\<close>: MODE, TMODE and BMASK (\<open>src/c_mode.c\<close>).
  \<^item> \<open>Service_Dispatch\<close>: \<open>handle_service\<close> of \<open>src/service.c\<close> with the flood limits, help, the oper login and logout, the checks of
    access and the search in the sorted table of commands. The locales \<open>svc_base\<close> and \<open>svc_ok\<close> are the contract of what
    the dispatch calls: a function of a command may rely on the access and the parameters that its entry asks for.
  \<^item> \<open>Operbot\<close>: the commands of \<open>src/s_operbot.c\<close>, on which the locales of the dispatch are interpreted, and what the dispatch
    guarantees: it is safe for every input, and a login needs the right masks and password.
  \<^item> \<open>Uplink\<close>: the periodic check of the connection (\<open>check_server_status\<close>, \<open>src/io.c\<close>). It is safe while the connection points at a listed server,
    and fatal after a SQUIT of the uplink, which leaves the pointer dangling.
  \<^item> \<open>Scommand\<close>: a line from the uplink, from \<open>parse_server\<close> (\<open>src/io.c\<close>) through the command table of \<open>src/scommand.c\<close> to the handlers of the
    other theories, its own handlers, PRIVMSG (\<open>src/c_message.c\<close>) and ERROR. The results on the handlers are composed for one line: in a well-formed state
    an admissible line is handled and the state stays well-formed. The predicate \<open>admissible\<close> lists what the handlers read without a check, and what they need of the
    connection and of the tables of the services; that the latter two hold is a condition on the state before the line, and a SQUIT of the uplink ends it.
    The locale \<open>link_ok\<close> is the contract of what the handlers call, interpreted for the daemon with OperBot.

  \<^bold>\<open>Bounds.\<close> \<open>match\<close> keeps the limit of calls of the source. \<open>exit_client\<close> and \<open>exit_server\<close> call each other;
  their depth is bounded by the addresses allocated so far, and \<open>exit_client_correct\<close> shows that this
  is enough, because a client is allocated after its uplink. Flags are words of their width in C.

  \<^bold>\<open>Not modelled.\<close> Sockets and buffers, the memory report of STATS z, DCC connections (with the first loop of \<open>cleanup_exited_clients\<close>, which frees them), the oper console, the configuration reader, the databases, the commands of the services other than OperBot, languages,
  mail and logs; formatted output is kept as the list of its pieces. \<open>rb_crypt\<close> is a total function of the environment. Flood counts of services and reference counts are integers without a width. \<open>die\<close> sets a field of the state and the handler stops.
\<close>

end
